(* ===== verification/Prelude.thy ===== *)
theory Prelude
  imports Main "HOL-Library.Word" "HOL-Library.AList" "HOL-Library.Multiset" "HOL-Library.List_Lexorder"
begin

text \<open>
  What the components share: the machine integers and byte strings of the Rust sources, the
  two standard-library containers they are built on (\<^verbatim>\<open>BTreeMap\<close> and \<^verbatim>\<open>HashMap\<close>), the
  stable sort behind \<^verbatim>\<open>slice::sort_by\<close>, and the simplification collections the component
  theories feed and use.

  Unsigned integers are machine words. \<open>+\<close>, \<open>-\<close> and \<open>*\<close> on them wrap, as they do in the
  release profile the binaries are built with; where a component relies on the absence of
  wrap-around, that is a theorem about it.
\<close>

section \<open>Collections of simplification rules\<close>

named_theorems book_simps \<open>effects of the order book's operations on its fields\<close>
named_theorems ledger_simps \<open>balances after an operation of the ledger\<close>
named_theorems log_simps \<open>hash-chained log: roots, sequence numbers, entries\<close>
named_theorems f64_simps \<open>evaluation of binary64 arithmetic on exact values\<close>

section \<open>Integers and bytes\<close>

type_synonym u8 = "8 word"
type_synonym u32 = "32 word"
type_synonym u64 = "64 word"
type_synonym u128 = "128 word"
type_synonym usize = "64 word"

type_synonym bytes = "u8 list"

text \<open>\<^verbatim>\<open>[u8; 32]\<close>: a list of bytes, of length 32 wherever a component builds one.\<close>

type_synonym bytes32 = "u8 list"

definition zero32 :: bytes32 where
  "zero32 = replicate 32 0"

text \<open>\<^verbatim>\<open>uN::to_be_bytes\<close>, most significant byte first.\<close>

definition be_bytes :: "'a::len word \<Rightarrow> bytes" where
  "be_bytes w = map (\<lambda>i. ucast (drop_bit (8 * i) w)) (rev [0..<LENGTH('a) div 8])"

text \<open>\<^verbatim>\<open>str::as_bytes\<close>: a string is its UTF-8 bytes.\<close>

definition as_bytes :: "string \<Rightarrow> bytes" where
  "as_bytes s = map (\<lambda>c. word_of_nat (of_char c)) s"

definition saturating_sub :: "'a::len word \<Rightarrow> 'a word \<Rightarrow> 'a word" where
  "saturating_sub a b = (if a < b then 0 else a - b)"

definition checked_add :: "'a::len word \<Rightarrow> 'a word \<Rightarrow> 'a word option" where
  "checked_add a b = (if unat a + unat b < 2 ^ LENGTH('a) then Some (a + b) else None)"

lemma unat_ucast_up:
  fixes w :: "'a::len word"
  assumes "LENGTH('a) \<le> LENGTH('b::len)"
  shows "unat (ucast w :: 'b word) = unat w"
proof -
  have "unat w < 2 ^ LENGTH('b)"
    using unsigned_less [of w] assms by (meson less_le_trans one_le_numeral power_increasing)
  then show ?thesis by (simp add: unsigned_ucast_eq take_bit_nat_eq_self)
qed

lemma unat_ucast_mod: "unat (ucast w :: 'b::len word) = unat w mod 2 ^ LENGTH('b)"
  by (simp add: unsigned_ucast_eq take_bit_eq_mod)

lemma length_be_bytes [simp]: "length (be_bytes (w :: 'a::len word)) = LENGTH('a) div 8"
  by (simp add: be_bytes_def)

lemma length_zero32 [simp]: "length zero32 = 32"
  by (simp add: zero32_def)

lemma length_as_bytes [simp]: "length (as_bytes s) = length s"
  by (simp add: as_bytes_def)

lemma be_bytes_inject:
  assumes mult: "LENGTH('a) = 8 * n"
    and eq: "be_bytes (v :: 'a::len word) = be_bytes w"
  shows "v = w"
proof (rule bit_word_eqI)
  fix j assume j: "j < LENGTH('a)"
  let ?i = "j div 8"
  have i: "?i < LENGTH('a) div 8"
    using j by (simp add: mult less_mult_imp_div_less)
  have "\<forall>i \<in> set (rev [0..<LENGTH('a) div 8]).
      (ucast (drop_bit (8 * i) v) :: u8) = ucast (drop_bit (8 * i) w)"
    using eq by (simp only: be_bytes_def map_eq_conv)
  with i have "(ucast (drop_bit (8 * ?i) v) :: u8) = ucast (drop_bit (8 * ?i) w)"
    by simp
  then have "bit (ucast (drop_bit (8 * ?i) v) :: u8) (j mod 8)
      = bit (ucast (drop_bit (8 * ?i) w) :: u8) (j mod 8)"
    by simp
  then have "bit (drop_bit (8 * ?i) v) (j mod 8) = bit (drop_bit (8 * ?i) w) (j mod 8)"
    using j by (simp add: bit_ucast_iff)
  then show "bit v j = bit w j"
    by (simp add: bit_drop_bit_eq)
qed

lemma be_bytes64_inject [simp]: "be_bytes (v :: u64) = be_bytes w \<longleftrightarrow> v = w"
  by (auto intro: be_bytes_inject [where n = 8])

lemma be_bytes32_inject [simp]: "be_bytes (v :: u32) = be_bytes w \<longleftrightarrow> v = w"
  by (auto intro: be_bytes_inject [where n = 4])

lemma fold_be_bytes:
  fixes w :: "'a::len word"
  shows "fold (\<lambda>b acc. acc * 256 + uint b) (map (\<lambda>i. ucast (drop_bit (8 * i) w) :: u8) (rev [0..<n])) acc
    = acc * 256 ^ n + uint w mod 256 ^ n"
proof (induction n arbitrary: acc)
  case (Suc n)
  let ?d = "uint (ucast (drop_bit (8 * n) w) :: u8)"
  have "(2 :: int) ^ (8 * n) = 256 ^ n" by (simp add: power_mult)
  moreover have "uint (drop_bit (8 * n) w) = uint w div 2 ^ (8 * n)"
    using uint_range_size [of w] by (simp only: unsigned_drop_bit_eq) (simp add: drop_bit_eq_div take_bit_int_eq_self word_size)
  ultimately have d: "?d = uint w div 256 ^ n mod 256"
    by (simp only: unsigned_ucast_eq take_bit_eq_mod) simp
  have "uint w mod 256 ^ Suc n = 256 ^ n * (uint w div 256 ^ n mod 256) + uint w mod 256 ^ n"
    unfolding power_Suc2 by (rule zmod_zmult2_eq) simp
  with d Suc [of "acc * 256 + ?d"] show ?case by (simp add: algebra_simps)
qed simp

lemma as_bytes_inject [simp]: "as_bytes s = as_bytes t \<longleftrightarrow> s = t"
proof
  have small: "unat (word_of_nat (of_char c) :: u8) = of_char c" for c
    by (simp add: unat_of_nat)
  have "inj (\<lambda>c. word_of_nat (of_char c) :: u8)"
  proof (rule injI)
    fix c d assume "(word_of_nat (of_char c) :: u8) = word_of_nat (of_char d)"
    then have "(of_char c :: nat) = of_char d"
      using small by metis
    then show "c = d" by simp
  qed
  moreover assume "as_bytes s = as_bytes t"
  ultimately show "s = t"
    by (simp add: as_bytes_def inj_map_eq_map)
qed simp

section \<open>Containers of the standard library\<close>

text \<open>
  The contract of a dictionary: what a lookup returns after an insertion or a removal. Both
  containers below satisfy it; the lemmas of the locale serve both.
\<close>

locale dict =
  fixes get :: "'m \<Rightarrow> 'k \<Rightarrow> 'v option"
    and put :: "'k \<Rightarrow> 'v \<Rightarrow> 'm \<Rightarrow> 'm"
    and del :: "'k \<Rightarrow> 'm \<Rightarrow> 'm"
    and invar :: "'m \<Rightarrow> bool"
  assumes get_put: "invar m \<Longrightarrow> get (put k v m) = (get m)(k \<mapsto> v)"
    and get_del: "invar m \<Longrightarrow> get (del k m) = (get m)(k := None)"
    and invar_put: "invar m \<Longrightarrow> invar (put k v m)"
    and invar_del: "invar m \<Longrightarrow> invar (del k m)"
begin

lemma invar_fold_put: "invar m \<Longrightarrow> invar (fold (\<lambda>(k, v). put k v) kvs m)"
  by (induction kvs arbitrary: m) (auto intro: invar_put)

lemma get_fold_put:
  "invar m \<Longrightarrow> get (fold (\<lambda>(k, v). put k v) kvs m) = get m ++ map_of (rev kvs)"
proof (induction kvs arbitrary: m)
  case (Cons kv kvs)
  obtain k v where kv: "kv = (k, v)" by (cases kv)
  have "get (fold (\<lambda>(k, v). put k v) kvs (put k v m)) = get (put k v m) ++ map_of (rev kvs)"
    using Cons by (simp add: invar_put)
  then show ?case
    using Cons.prems by (simp add: kv get_put map_add_def fun_eq_iff split: option.splits)
qed simp

lemma put_restores: "invar m \<Longrightarrow> get m k = Some v \<Longrightarrow> get (put k v (del k m)) = get m"
  by (simp add: get_put get_del invar_del fun_upd_idem_iff)

end

text \<open>An ordered dictionary also lists its keys in ascending order.\<close>

locale ordered_dict = dict get put del invar
  for get :: "'m \<Rightarrow> 'k::linorder \<Rightarrow> 'v option"
    and put :: "'k \<Rightarrow> 'v \<Rightarrow> 'm \<Rightarrow> 'm"
    and del :: "'k \<Rightarrow> 'm \<Rightarrow> 'm"
    and invar :: "'m \<Rightarrow> bool" +
  fixes keys :: "'m \<Rightarrow> 'k list"
  assumes keys_sorted: "invar m \<Longrightarrow> sorted_wrt (<) (keys m)"
    and keys_dom: "invar m \<Longrightarrow> set (keys m) = dom (get m)"
begin

lemma keys_put: "invar m \<Longrightarrow> set (keys (put k v m)) = insert k (set (keys m))"
  by (simp add: keys_dom invar_put get_put)

lemma keys_del: "invar m \<Longrightarrow> set (keys (del k m)) = set (keys m) - {k}"
  by (simp add: keys_dom invar_del get_del)

lemma keys_determined:
  assumes "invar m" "invar m'" "get m = get m'"
  shows "keys m = keys m'"
  using assms by (metis keys_dom keys_sorted sorted_wrt_less_idx strict_sorted_equal)

end

subsection \<open>\<^verbatim>\<open>HashMap\<close>\<close>

text \<open>
  A hash map is an association list with distinct keys. Its iteration order is unspecified in
  Rust; no definition of the development depends on it beyond the order of equal results.
\<close>

type_synonym ('k, 'v) hash_map = "('k \<times> 'v) list"

abbreviation hm_ok :: "('k, 'v) hash_map \<Rightarrow> bool" where
  "hm_ok m \<equiv> distinct (map fst m)"

definition hm_retain :: "('k \<Rightarrow> 'v \<Rightarrow> bool) \<Rightarrow> ('k, 'v) hash_map \<Rightarrow> ('k, 'v) hash_map" where
  "hm_retain P m = filter (\<lambda>(k, v). P k v) m"

interpretation hm: dict map_of AList.update AList.delete hm_ok
  by unfold_locales (auto simp: update_conv' delete_conv' distinct_update distinct_delete)

lemma hm_retain_ok [simp]: "hm_ok m \<Longrightarrow> hm_ok (hm_retain P m)"
  by (simp add: hm_retain_def distinct_map_filter)

lemma map_of_hm_retain:
  "hm_ok m \<Longrightarrow> map_of (hm_retain P m) k = (case map_of m k of
     None \<Rightarrow> None | Some v \<Rightarrow> if P k v then Some v else None)"
  by (induction m) (auto simp: hm_retain_def map_of_eq_None_iff split: option.splits)

subsection \<open>\<^verbatim>\<open>BTreeMap\<close>\<close>

text \<open>A B-tree map is an association list in ascending key order.\<close>

type_synonym ('k, 'v) btree_map = "('k \<times> 'v) list"

abbreviation bt_ok :: "('k::linorder, 'v) btree_map \<Rightarrow> bool" where
  "bt_ok m \<equiv> sorted_wrt (<) (map fst m)"

fun bt_alter :: "'k::linorder \<Rightarrow> ('v option \<Rightarrow> 'v) \<Rightarrow> ('k, 'v) btree_map \<Rightarrow> ('k, 'v) btree_map" where
  "bt_alter k f [] = [(k, f None)]"
| "bt_alter k f ((a, b) # m) =
     (if k < a then (k, f None) # (a, b) # m
      else if k = a then (a, f (Some b)) # m
      else (a, b) # bt_alter k f m)"

definition bt_insert :: "'k::linorder \<Rightarrow> 'v \<Rightarrow> ('k, 'v) btree_map \<Rightarrow> ('k, 'v) btree_map" where
  "bt_insert k v = bt_alter k (\<lambda>_. v)"

definition bt_remove :: "'k::linorder \<Rightarrow> ('k, 'v) btree_map \<Rightarrow> ('k, 'v) btree_map" where
  "bt_remove k m = filter (\<lambda>(a, b). a \<noteq> k) m"

text \<open>\<^verbatim>\<open>map.entry(k).or_default().push(x)\<close>\<close>

definition bt_push :: "'k::linorder \<Rightarrow> 'v \<Rightarrow> ('k, 'v list) btree_map \<Rightarrow> ('k, 'v list) btree_map" where
  "bt_push k x = bt_alter k (\<lambda>old. case old of None \<Rightarrow> [x] | Some xs \<Rightarrow> xs @ [x])"

lemma set_fst_bt_alter [simp]: "fst ` set (bt_alter k f m) = insert k (fst ` set m)"
  by (induction k f m rule: bt_alter.induct) (simp_all add: insert_commute)

lemma bt_ok_alter: "bt_ok m \<Longrightarrow> bt_ok (bt_alter k f m)"
proof (induction m)
  case (Cons ab m)
  obtain a b where "ab = (a, b)" by (cases ab)
  with Cons show ?case
    by (auto simp: not_less_iff_gr_or_eq dest: order.strict_trans)
qed simp

lemma map_of_bt_alter:
  "bt_ok m \<Longrightarrow> map_of (bt_alter k f m) = (map_of m)(k \<mapsto> f (map_of m k))"
proof (induction m)
  case (Cons ab m)
  obtain a b where "ab = (a, b)" by (cases ab)
  moreover have "map_of m k = None" if "k < a"
    using that Cons.prems \<open>ab = (a, b)\<close> by (auto simp: map_of_eq_None_iff)
  ultimately show ?case
    using Cons by (auto simp: fun_eq_iff)
qed simp

lemma bt_ok_remove: "bt_ok m \<Longrightarrow> bt_ok (bt_remove k m)"
  by (induction m) (auto simp: bt_remove_def)

lemma map_of_bt_remove: "map_of (bt_remove k m) = (map_of m)(k := None)"
  by (induction m) (auto simp: bt_remove_def fun_eq_iff)

interpretation bt: ordered_dict map_of bt_insert bt_remove bt_ok "map fst"
  by unfold_locales
    (auto simp: bt_insert_def bt_ok_alter map_of_bt_alter bt_ok_remove map_of_bt_remove
      dom_map_of_conv_image_fst)

lemma bt_ok_push [simp]: "bt_ok m \<Longrightarrow> bt_ok (bt_push k x m)"
  by (simp add: bt_push_def bt_ok_alter)

lemma map_of_bt_push:
  "bt_ok m \<Longrightarrow> map_of (bt_push k x m) =
     (map_of m)(k \<mapsto> (case map_of m k of None \<Rightarrow> [x] | Some xs \<Rightarrow> xs @ [x]))"
  by (simp add: bt_push_def map_of_bt_alter)

section \<open>\<^verbatim>\<open>slice::chunks\<close>\<close>

text \<open>Rust panics on a chunk size of 0; the sources only use constants.\<close>

function chunks :: "nat \<Rightarrow> 'a list \<Rightarrow> 'a list list" where
  "chunks n xs = (if n = 0 \<or> xs = [] then [] else take n xs # chunks n (drop n xs))"
  by pat_completeness auto
termination
  by (relation "measure (\<lambda>(n, xs). length xs)") auto

declare chunks.simps [simp del]

lemma chunks_Nil [simp]: "chunks n [] = []"
  by (simp add: chunks.simps)

lemma concat_chunks: "0 < n \<Longrightarrow> concat (chunks n xs) = xs"
proof (induction n xs rule: chunks.induct)
  case (1 n xs)
  then show ?case by (cases "xs = []") (simp_all add: chunks.simps [of n xs])
qed

lemma chunks_length: "c \<in> set (chunks n xs) \<Longrightarrow> c \<noteq> [] \<and> length c \<le> n"
proof (induction n xs rule: chunks.induct)
  case (1 n xs)
  then show ?case by (auto simp: chunks.simps [of n xs] split: if_splits)
qed

lemma chunks_subset: "c \<in> set (chunks n xs) \<Longrightarrow> set c \<subseteq> set xs"
proof (induction n xs rule: chunks.induct)
  case (1 n xs)
  then show ?case by (auto simp: chunks.simps [of n xs] split: if_splits dest: in_set_takeD in_set_dropD)
qed

section \<open>Sorting with a comparator\<close>

text \<open>
  \<^verbatim>\<open>slice::sort_by\<close> is a stable sort. On a comparator that is a total order every stable sort
  gives the same list; the definition below is the insertion sort the standard library runs on
  short slices (each element is shifted left past the elements it compares \<open>Less\<close> to), so it
  also says what the code does with a comparator that is not a total order.
\<close>

datatype ordering = Less | Equal | Greater

fun reverse_ordering :: "ordering \<Rightarrow> ordering" where
  "reverse_ordering Less = Greater"
| "reverse_ordering Equal = Equal"
| "reverse_ordering Greater = Less"

definition cmp :: "'a::linorder \<Rightarrow> 'a \<Rightarrow> ordering" where
  "cmp a b = (if a < b then Less else if a = b then Equal else Greater)"

lemma cmp_reverse: "cmp b a = reverse_ordering (cmp a b)"
  by (auto simp: cmp_def)

fun shift_left :: "('a \<Rightarrow> 'a \<Rightarrow> ordering) \<Rightarrow> 'a \<Rightarrow> 'a list \<Rightarrow> 'a list" where
  "shift_left c x [] = [x]"
| "shift_left c x (y # ys) = (if c x y = Less then y # shift_left c x ys else x # y # ys)"

definition sort_by :: "('a \<Rightarrow> 'a \<Rightarrow> ordering) \<Rightarrow> 'a list \<Rightarrow> 'a list" where
  "sort_by c xs = rev (fold (shift_left c) xs [])"

text \<open>A comparator that a sort may rely on: a total preorder, answered consistently.\<close>

definition total_order_cmp :: "('a \<Rightarrow> 'a \<Rightarrow> ordering) \<Rightarrow> 'a set \<Rightarrow> bool" where
  "total_order_cmp c A \<longleftrightarrow>
     (\<forall>x\<in>A. \<forall>y\<in>A. c y x = reverse_ordering (c x y)) \<and>
     (\<forall>x\<in>A. \<forall>y\<in>A. \<forall>z\<in>A. c x y \<noteq> Greater \<longrightarrow> c y z \<noteq> Greater \<longrightarrow> c x z \<noteq> Greater)"

lemma mset_shift_left [simp]: "mset (shift_left c x ys) = add_mset x (mset ys)"
  by (induction ys) auto

lemma set_shift_left [simp]: "set (shift_left c x ys) = insert x (set ys)"
  by (induction ys) auto

lemma mset_fold_shift_left: "mset (fold (shift_left c) xs acc) = mset xs + mset acc"
  by (induction xs arbitrary: acc) auto

lemma mset_sort_by [simp]: "mset (sort_by c xs) = mset xs"
  by (simp add: sort_by_def mset_fold_shift_left)

lemma set_sort_by [simp]: "set (sort_by c xs) = set xs"
  by (metis mset_sort_by set_mset_mset)

lemma length_sort_by [simp]: "length (sort_by c xs) = length xs"
  by (metis mset_sort_by size_mset)

lemma total_order_cmp_mono: "total_order_cmp c A \<Longrightarrow> B \<subseteq> A \<Longrightarrow> total_order_cmp c B"
  unfolding total_order_cmp_def by blast

lemma shift_left_sorted:
  assumes "total_order_cmp c (insert x (set ys))"
    and "sorted_wrt (\<lambda>a b. c b a \<noteq> Greater) ys"
  shows "sorted_wrt (\<lambda>a b. c b a \<noteq> Greater) (shift_left c x ys)"
  using assms
proof (induction ys)
  case (Cons y ys)
  have sub: "total_order_cmp c (insert x (set ys))"
    using Cons.prems(1) by (rule total_order_cmp_mono) auto
  from Cons.prems(2) have ys: "\<forall>z \<in> set ys. c z y \<noteq> Greater"
    and sorted_ys: "sorted_wrt (\<lambda>a b. c b a \<noteq> Greater) ys"
    unfolding sorted_wrt.simps by blast+
  show ?case
  proof (cases "c x y = Less")
    case True
    then have "c x y \<noteq> Greater" by simp
    with ys have "\<forall>z \<in> set (shift_left c x ys). c z y \<noteq> Greater"
      unfolding set_shift_left by blast
    moreover note Cons.IH [OF sub sorted_ys]
    ultimately show ?thesis
      unfolding shift_left.simps if_P [OF True] sorted_wrt.simps by blast
  next
    case False
    have "c y x = reverse_ordering (c x y)"
      using Cons.prems(1) unfolding total_order_cmp_def by (meson insertI1 insertI2 list.set_intros(1))
    with False have yx: "c y x \<noteq> Greater"
      by (cases "c x y") auto
    have "c z x \<noteq> Greater" if z: "z \<in> set ys" for z
      using ys yx z Cons.prems(1) unfolding total_order_cmp_def
      by (meson insertI1 insertI2 list.set_intros)
    with yx have "\<forall>z \<in> set (y # ys). c z x \<noteq> Greater"
      by (metis set_ConsD)
    with Cons.prems(2) show ?thesis
      unfolding shift_left.simps if_not_P [OF False] sorted_wrt.simps by blast
  qed
qed simp

lemma fold_shift_left_sorted:
  assumes "total_order_cmp c (set xs \<union> set acc)"
    and "sorted_wrt (\<lambda>a b. c b a \<noteq> Greater) acc"
  shows "sorted_wrt (\<lambda>a b. c b a \<noteq> Greater) (fold (shift_left c) xs acc)"
  using assms
proof (induction xs arbitrary: acc)
  case (Cons x xs)
  have "sorted_wrt (\<lambda>a b. c b a \<noteq> Greater) (shift_left c x acc)"
    by (rule shift_left_sorted) (auto intro: Cons.prems total_order_cmp_mono)
  moreover have "total_order_cmp c (set xs \<union> set (shift_left c x acc))"
    using Cons.prems(1) by (rule total_order_cmp_mono) auto
  ultimately show ?case
    using Cons.IH by simp
qed simp

lemma sort_by_sorted:
  assumes "total_order_cmp c (set xs)"
  shows "sorted_wrt (\<lambda>a b. c a b \<noteq> Greater) (sort_by c xs)"
  using fold_shift_left_sorted [of c xs "[]"] assms by (simp add: sort_by_def sorted_wrt_rev)

end
