(* ===== verification/F64.thy ===== *)
theory F64
  imports Prelude Complex_Main "HOL-Library.Log_Nat"
begin

text \<open>
  The Rust type \<^verbatim>\<open>f64\<close>: IEEE 754 binary64 with round-to-nearest, ties-to-even. Scores, fees and
  timestamps of the program are computed in it, so its rounding, infinities and NaN are part of
  what the code does.

  A finite value is the rational number it denotes; every arithmetic operation is the exact
  operation followed by \<open>rnd\<close>. Positive and negative zero are one value here: they compare
  equal, and the program never divides by a zero (each divisor is a non-zero constant or guarded).
\<close>

section \<open>Values and rounding\<close>

datatype f64 = Fin rat | PInf | NInf | NaN

text \<open>The binary exponent \<open>\<lfloor>log\<^sub>2 x\<rfloor>\<close> of a positive rational.\<close>

definition ilog2 :: "rat \<Rightarrow> int" where
  "ilog2 x = (let (p, q) = quotient_of x; k = bitlen p - bitlen q
              in if 2 powi k \<le> x then k else k - 1)"

definition round_half_even :: "rat \<Rightarrow> int" where
  "round_half_even x =
     (let f = \<lfloor>x\<rfloor>; d = x - of_int f
      in if d < 1 / 2 then f else if 1 / 2 < d then f + 1 else if even f then f else f + 1)"

text \<open>The exponent of the last of 53 significand bits, bounded below by the subnormal range.\<close>

definition ulp_exp :: "rat \<Rightarrow> int" where
  "ulp_exp x = (if x = 0 then - 1074 else max (- 1074) (ilog2 \<bar>x\<bar> - 52))"

definition rnd_val :: "rat \<Rightarrow> rat" where
  "rnd_val x = of_int (round_half_even (x / 2 powi ulp_exp x)) * 2 powi ulp_exp x"

definition rnd :: "rat \<Rightarrow> f64" where
  "rnd x = (let r = rnd_val x
            in if r \<noteq> 0 \<and> 1024 \<le> ilog2 \<bar>r\<bar> then (if r < 0 then NInf else PInf) else Fin r)"

section \<open>Operations\<close>

fun neg :: "f64 \<Rightarrow> f64" where
  "neg (Fin a) = Fin (- a)"
| "neg PInf = NInf"
| "neg NInf = PInf"
| "neg NaN = NaN"

fun fadd :: "f64 \<Rightarrow> f64 \<Rightarrow> f64" where
  "fadd (Fin a) (Fin b) = rnd (a + b)"
| "fadd NaN _ = NaN"
| "fadd _ NaN = NaN"
| "fadd PInf NInf = NaN"
| "fadd NInf PInf = NaN"
| "fadd PInf _ = PInf"
| "fadd _ PInf = PInf"
| "fadd NInf _ = NInf"
| "fadd _ NInf = NInf"

definition fsub :: "f64 \<Rightarrow> f64 \<Rightarrow> f64" where
  "fsub a b = fadd a (neg b)"

definition inf_of :: "rat \<Rightarrow> f64" where
  "inf_of s = (if s = 0 then NaN else if s < 0 then NInf else PInf)"

fun sgn_of :: "f64 \<Rightarrow> rat" where
  "sgn_of (Fin a) = sgn a"
| "sgn_of PInf = 1"
| "sgn_of NInf = - 1"
| "sgn_of NaN = 0"

fun fmul :: "f64 \<Rightarrow> f64 \<Rightarrow> f64" where
  "fmul (Fin a) (Fin b) = rnd (a * b)"
| "fmul NaN _ = NaN"
| "fmul _ NaN = NaN"
| "fmul a b = inf_of (sgn_of a * sgn_of b)"

fun fdiv :: "f64 \<Rightarrow> f64 \<Rightarrow> f64" where
  "fdiv (Fin a) (Fin b) = (if b = 0 then inf_of (sgn a) else rnd (a / b))"
| "fdiv NaN _ = NaN"
| "fdiv _ NaN = NaN"
| "fdiv (Fin a) _ = Fin 0"
| "fdiv a (Fin b) = (if b < 0 then neg a else a)"
| "fdiv _ _ = NaN"

fun flt :: "f64 \<Rightarrow> f64 \<Rightarrow> bool" where
  "flt (Fin a) (Fin b) = (a < b)"
| "flt NaN _ = False"
| "flt _ NaN = False"
| "flt NInf b = (b \<noteq> NInf)"
| "flt a PInf = (a \<noteq> PInf)"
| "flt _ _ = False"

definition fle :: "f64 \<Rightarrow> f64 \<Rightarrow> bool" where
  "fle a b = (flt a b \<or> (a = b \<and> a \<noteq> NaN))"

text \<open>\<^verbatim>\<open>==\<close> on \<^verbatim>\<open>f64\<close>: false on NaN.\<close>

definition feq :: "f64 \<Rightarrow> f64 \<Rightarrow> bool" where
  "feq a b = (a = b \<and> a \<noteq> NaN)"

text \<open>\<^verbatim>\<open>f64::max\<close> and \<^verbatim>\<open>f64::min\<close> ignore a NaN operand; \<^verbatim>\<open>clamp\<close> keeps it.\<close>

definition fmax :: "f64 \<Rightarrow> f64 \<Rightarrow> f64" where
  "fmax a b = (if a = NaN then b else if b = NaN then a else if flt a b then b else a)"

definition fmin :: "f64 \<Rightarrow> f64 \<Rightarrow> f64" where
  "fmin a b = (if a = NaN then b else if b = NaN then a else if flt b a then b else a)"

definition clamp :: "f64 \<Rightarrow> f64 \<Rightarrow> f64 \<Rightarrow> f64" where
  "clamp x lo hi = (if flt x lo then lo else if flt hi x then hi else x)"

fun fabs :: "f64 \<Rightarrow> f64" where
  "fabs (Fin a) = Fin \<bar>a\<bar>"
| "fabs PInf = PInf"
| "fabs NInf = PInf"
| "fabs NaN = NaN"

text \<open>\<^verbatim>\<open>partial_cmp\<close>: undefined on NaN.\<close>

definition partial_cmp :: "f64 \<Rightarrow> f64 \<Rightarrow> ordering option" where
  "partial_cmp a b =
     (if a = NaN \<or> b = NaN then None
      else if flt a b then Some Less else if a = b then Some Equal else Some Greater)"

text \<open>A decimal literal is the nearest binary64 value.\<close>

abbreviation (input) lit :: "rat \<Rightarrow> f64" where
  "lit x \<equiv> rnd x"

text \<open>\<^verbatim>\<open>x as f64\<close> from an unsigned integer, and the saturating casts \<^verbatim>\<open>x as u32\<close>, \<^verbatim>\<open>x as u64\<close>.\<close>

definition f64_of_word :: "'a::len word \<Rightarrow> f64" where
  "f64_of_word w = rnd (of_int (uint w))"

fun word_of_f64 :: "f64 \<Rightarrow> 'a::len word" where
  "word_of_f64 NaN = 0"
| "word_of_f64 NInf = 0"
| "word_of_f64 PInf = - 1"
| "word_of_f64 (Fin a) =
     (if a \<le> 0 then 0 else if 2 ^ LENGTH('a) - 1 \<le> \<lfloor>a\<rfloor> then - 1 else word_of_int \<lfloor>a\<rfloor>)"

section \<open>Rounding to nearest\<close>

lemma pow2_less_iff [simp]: "(2::rat) powi a < 2 powi b \<longleftrightarrow> a < b"
  by (metis linorder_neqE not_less_iff_gr_or_eq one_less_numeral_iff power_int_strict_increasing
      semiring_norm(76))

lemma pow2_le_iff [simp]: "(2::rat) powi a \<le> 2 powi b \<longleftrightarrow> a \<le> b"
  by (simp add: not_less [symmetric])

lemma round_half_even_of_int [simp]: "round_half_even (of_int n) = n"
  by (simp add: round_half_even_def)

lemma round_half_even_bounds:
  "\<lfloor>x\<rfloor> \<le> round_half_even x \<and> round_half_even x \<le> \<lfloor>x\<rfloor> + 1"
  by (simp add: round_half_even_def Let_def)

lemma round_half_even_mono:
  assumes "x \<le> y" shows "round_half_even x \<le> round_half_even y"
proof (cases "\<lfloor>x\<rfloor> = \<lfloor>y\<rfloor>")
  case True
  then show ?thesis
    using assms by (simp add: round_half_even_def Let_def)
next
  case False
  then have "\<lfloor>x\<rfloor> + 1 \<le> \<lfloor>y\<rfloor>"
    using floor_mono [OF assms] by linarith
  then show ?thesis
    using round_half_even_bounds [of x] round_half_even_bounds [of y] by linarith
qed

lemma round_half_even_minus: "round_half_even (- x) = - round_half_even x"
proof (cases "x = of_int \<lfloor>x\<rfloor>")
  case True
  then show ?thesis
    by (metis of_int_minus round_half_even_of_int)
next
  case False
  have "of_int \<lfloor>x\<rfloor> < x" using False of_int_floor_le [of x] by linarith
  then have fl: "\<lfloor>- x\<rfloor> = - \<lfloor>x\<rfloor> - 1"
    by (intro floor_unique) (auto, linarith)
  show ?thesis
    by (simp add: round_half_even_def Let_def fl)
qed

lemma ilog2_bounds:
  assumes "0 < x"
  shows "2 powi ilog2 x \<le> x \<and> x < 2 powi (ilog2 x + 1)"
proof -
  obtain p q where pq: "quotient_of x = (p, q)" by (cases "quotient_of x")
  have x: "x = of_int p / of_int q" and q: "0 < q"
    using pq by (simp_all add: quotient_of_div quotient_of_denom_pos)
  have p: "0 < p"
    using assms q by (simp add: x zero_less_divide_iff)
  define a where "a = bitlen p"
  define b where "b = bitlen q"
  have a1: "1 \<le> a" and b1: "1 \<le> b"
    using p q bitlen_eq_zero_iff [of p] bitlen_eq_zero_iff [of q]
      bitlen_nonneg [of p] bitlen_nonneg [of q] by (auto simp: a_def b_def)
  have pw: "(2::rat) powi k = of_int (2 ^ nat k)" if "0 \<le> k" for k :: int
    using that by (simp add: power_int_def)
  have pa: "(2::rat) powi (a - 1) \<le> of_int p" "of_int p < (2::rat) powi a"
    using bitlen_bounds [OF p] a1 by (simp_all only: pw a_def of_int_le_iff of_int_less_iff)
  have qb: "(2::rat) powi (b - 1) \<le> of_int q" "of_int q < (2::rat) powi b"
    using bitlen_bounds [OF q] b1 by (simp_all only: pw b_def of_int_le_iff of_int_less_iff)
  have pos: "(0::rat) < 2 powi k" for k :: int by simp
  have up: "x < 2 powi (a - b + 1)"
  proof -
    have "x < 2 powi a / 2 powi (b - 1)"
      unfolding x using pa qb pos q p by (intro frac_less) auto
    also have "\<dots> = 2 powi (a - b + 1)"
      by (simp add: power_int_diff [symmetric] algebra_simps)
    finally show ?thesis .
  qed
  have low: "2 powi (a - b - 1) \<le> x"
  proof -
    have "2 powi (a - b - 1) = 2 powi (a - 1) / (2 powi b :: rat)"
      by (simp add: power_int_diff [symmetric] algebra_simps)
    also have "\<dots> \<le> x"
      unfolding x using pa qb pos q p by (intro frac_le) auto
    finally show ?thesis .
  qed
  show ?thesis
    using up low by (simp add: ilog2_def Let_def pq a_def b_def algebra_simps)
qed

lemma ilog2_unique:
  assumes "2 powi k \<le> x" and "x < 2 powi (k + 1)"
  shows "ilog2 x = k"
proof -
  have x: "0 < x" using assms(1) by (meson less_le_trans zero_less_numeral zero_less_power_int)
  note b = ilog2_bounds [OF x]
  have "(2::rat) powi k < 2 powi (ilog2 x + 1)" "(2::rat) powi ilog2 x < 2 powi (k + 1)"
    using b assms by linarith+
  then show ?thesis by simp
qed

lemma ilog2_mono:
  assumes "0 < x" and "x \<le> y" shows "ilog2 x \<le> ilog2 y"
proof -
  have "(2::rat) powi ilog2 x < 2 powi (ilog2 y + 1)"
    using ilog2_bounds [of x] ilog2_bounds [of y] assms by linarith
  then show ?thesis by simp
qed

lemma ulp_exp_minus [simp]: "ulp_exp (- x) = ulp_exp x"
  by (simp add: ulp_exp_def)

lemma rnd_val_minus: "rnd_val (- x) = - rnd_val x"
  by (simp add: rnd_val_def round_half_even_minus)

lemma rnd_val_0 [simp]: "rnd_val 0 = 0"
  by (simp add: rnd_val_def round_half_even_def)

text \<open>The values binary64 can hold below the overflow threshold.\<close>

definition representable :: "rat \<Rightarrow> bool" where
  "representable x = (\<exists>m e. x = of_int m * 2 powi e \<and> \<bar>m\<bar> \<le> 2 ^ 53 \<and> - 1074 \<le> e)"

lemma rnd_val_grid:
  assumes "x = of_int n * 2 powi ulp_exp x" shows "rnd_val x = x"
proof -
  have "x / 2 powi ulp_exp x = of_int n"
    using assms by (metis nonzero_mult_div_cancel_right power_int_not_zero zero_neq_numeral)
  then show ?thesis using assms by (simp add: rnd_val_def)
qed

lemma pow2_split: "a \<le> b \<Longrightarrow> (2::rat) powi b = of_int (2 ^ nat (b - a)) * 2 powi a"
  by (simp add: power_int_add [symmetric] flip: power_int_of_nat)

lemma ulp_exp_lower: "- 1074 \<le> ulp_exp x"
  by (simp add: ulp_exp_def)

lemma representable_grid:
  assumes "representable x" shows "\<exists>n. x = of_int n * 2 powi ulp_exp x"
proof (cases "x = 0")
  case True
  then show ?thesis by (intro exI [of _ 0]) simp
next
  case False
  from assms obtain m e where x: "x = of_int m * 2 powi e" and m: "\<bar>m\<bar> \<le> 2 ^ 53" and e: "- 1074 \<le> e"
    by (auto simp: representable_def)
  have ax: "\<bar>x\<bar> = of_int \<bar>m\<bar> * 2 powi e" by (simp add: x abs_mult)
  have bnd: "2 powi ilog2 \<bar>x\<bar> \<le> \<bar>x\<bar>" using False ilog2_bounds [of "\<bar>x\<bar>"] by simp
  show ?thesis
  proof (cases "\<bar>m\<bar> = 2 ^ 53")
    case True
    have "ilog2 \<bar>x\<bar> = e + 53"
      by (rule ilog2_unique) (simp_all add: ax True power_int_add)
    then have u: "ulp_exp x = e + 1" using False e by (simp add: ulp_exp_def)
    have "x = of_int (m div 2) * 2 powi (e + 1)"
    proof -
      have "even m" using True by (metis dvd_abs_iff even_power even_numeral zero_less_numeral)
      then have "m = 2 * (m div 2)" by simp
      then have "(of_int m :: rat) = 2 * of_int (m div 2)" by (metis of_int_mult of_int_numeral)
      then show ?thesis by (simp add: x power_int_add)
    qed
    then show ?thesis using u by auto
  next
    case False
    have "\<bar>x\<bar> < 2 powi (e + 53)"
      using m False by (simp add: ax power_int_add)
    then have "(2::rat) powi ilog2 \<bar>x\<bar> < 2 powi (e + 53)" using bnd by linarith
    then have "ulp_exp x \<le> e" using e by (simp add: ulp_exp_def)
    then have "x = of_int (m * 2 ^ nat (e - ulp_exp x)) * 2 powi ulp_exp x"
      using x pow2_split [of "ulp_exp x" e] by simp
    then show ?thesis by blast
  qed
qed

lemma rnd_val_representable: "representable x \<Longrightarrow> rnd_val x = x"
  using representable_grid rnd_val_grid by blast

lemma rnd_val_le_grid:
  assumes "x \<le> of_int n * 2 powi ulp_exp x" shows "rnd_val x \<le> of_int n * 2 powi ulp_exp x"
proof -
  have "x / 2 powi ulp_exp x \<le> of_int n" using assms by (simp add: divide_le_eq)
  then have "round_half_even (x / 2 powi ulp_exp x) \<le> n"
    using round_half_even_mono by (metis round_half_even_of_int)
  then show ?thesis by (simp add: rnd_val_def)
qed

lemma rnd_val_ge_grid:
  assumes "of_int n * 2 powi ulp_exp x \<le> x" shows "of_int n * 2 powi ulp_exp x \<le> rnd_val x"
proof -
  have "of_int n \<le> x / 2 powi ulp_exp x" using assms by (simp add: le_divide_eq)
  then have "n \<le> round_half_even (x / 2 powi ulp_exp x)"
    using round_half_even_mono by (metis round_half_even_of_int)
  then show ?thesis by (simp add: rnd_val_def)
qed

lemma rnd_val_nonneg: "0 \<le> x \<Longrightarrow> 0 \<le> rnd_val x"
  using rnd_val_ge_grid [of 0 x] by simp

lemma rnd_val_mono_pos:
  assumes "0 < x" and "x \<le> y" shows "rnd_val x \<le> rnd_val y"
proof (cases "ulp_exp x = ulp_exp y")
  case True
  then show ?thesis
    using assms by (simp add: rnd_val_def round_half_even_mono divide_right_mono)
next
  case False
  have lm: "ilog2 x \<le> ilog2 y" using ilog2_mono assms by simp
  have ue: "ulp_exp x < ulp_exp y" "ulp_exp y = ilog2 y - 52" "ilog2 x < ilog2 y"
    using False lm assms by (auto simp: ulp_exp_def)
  let ?B = "2 powi ilog2 y :: rat"
  have xB: "x \<le> ?B"
  proof -
    have "x < 2 powi (ilog2 x + 1)" using ilog2_bounds [of x] assms by simp
    also have "\<dots> \<le> ?B" using ue by simp
    finally show ?thesis by simp
  qed
  have Bx: "?B = of_int (2 ^ nat (ilog2 y - ulp_exp x)) * 2 powi ulp_exp x"
    using ue by (intro pow2_split) auto
  have By: "?B = of_int (2 ^ 52) * 2 powi ulp_exp y"
    using pow2_split [of "ulp_exp y" "ilog2 y"] ue by simp
  have "rnd_val x \<le> ?B" using rnd_val_le_grid xB Bx by metis
  also have "?B \<le> rnd_val y"
    using rnd_val_ge_grid By ilog2_bounds [of y] assms by (metis less_le_trans)
  finally show ?thesis .
qed

lemma rnd_val_mono:
  assumes "x \<le> y" shows "rnd_val x \<le> rnd_val y"
proof -
  consider "0 < x" | "x \<le> 0" "0 \<le> y" | "y < 0" using assms by linarith
  then show ?thesis
  proof cases
    case 1
    then show ?thesis using rnd_val_mono_pos assms by blast
  next
    case 2
    then have "rnd_val x \<le> 0" "0 \<le> rnd_val y"
      using rnd_val_nonneg [of "- x"] rnd_val_nonneg [of y] by (simp_all add: rnd_val_minus)
    then show ?thesis by linarith
  next
    case 3
    then have "rnd_val (- y) \<le> rnd_val (- x)" using assms by (intro rnd_val_mono_pos) auto
    then show ?thesis by (simp add: rnd_val_minus)
  qed
qed

lemma rnd_val_le: "representable b \<Longrightarrow> x \<le> b \<Longrightarrow> rnd_val x \<le> b"
  using rnd_val_mono [of x b] by (simp add: rnd_val_representable)

lemma rnd_val_ge: "representable b \<Longrightarrow> b \<le> x \<Longrightarrow> b \<le> rnd_val x"
  using rnd_val_mono [of b x] by (simp add: rnd_val_representable)

lemma representable_of_int [simp]: "\<bar>n\<bar> \<le> 2 ^ 53 \<Longrightarrow> representable (of_int n)"
  unfolding representable_def by (intro exI [of _ n] exI [of _ 0]) simp

lemma representable_minus:
  assumes "representable x" shows "representable (- x)"
proof -
  from assms obtain m e where "x = of_int m * 2 powi e" "\<bar>m\<bar> \<le> 2 ^ 53" "- 1074 \<le> e"
    unfolding representable_def by blast
  then have "- x = of_int (- m) * 2 powi e \<and> \<bar>- m\<bar> \<le> 2 ^ 53 \<and> - 1074 \<le> e" by simp
  then show ?thesis unfolding representable_def by blast
qed

lemma ilog2_less: "0 < x \<Longrightarrow> x < 2 powi k \<Longrightarrow> ilog2 x < k"
  using ilog2_bounds [of x] by (metis order.strict_trans1 pow2_less_iff)

text \<open>A result bounded by a representable value is finite and obeys the same bound.\<close>

lemma rnd_bounded:
  assumes "representable b" and "\<bar>x\<bar> \<le> b" and "b < 2 powi 1024"
  shows "rnd x = Fin (rnd_val x) \<and> \<bar>rnd_val x\<bar> \<le> b"
proof -
  have "\<bar>rnd_val x\<bar> \<le> b"
    using rnd_val_le [OF assms(1), of x] rnd_val_ge [OF representable_minus [OF assms(1)], of x] assms(2)
    by linarith
  then have "rnd_val x \<noteq> 0 \<Longrightarrow> ilog2 \<bar>rnd_val x\<bar> < 1024"
    using assms(3) by (intro ilog2_less) auto
  then show ?thesis using \<open>\<bar>rnd_val x\<bar> \<le> b\<close> by (auto simp: rnd_def Let_def)
qed

lemma rnd_small:
  assumes "\<bar>x\<bar> \<le> 2 ^ 53"
  shows "rnd x = Fin (rnd_val x)"
proof -
  have "representable (2 ^ 53)" using representable_of_int [of "2 ^ 53"] by simp
  moreover have "(2 ^ 53 :: rat) < 2 powi 1024" using pow2_less_iff [of 53 1024] by simp
  ultimately show ?thesis using rnd_bounded assms by blast
qed

lemma rnd_of_int [simp]:
  assumes "\<bar>n\<bar> \<le> 2 ^ 53" shows "rnd (of_int n) = Fin (of_int n)"
proof -
  have "(of_int \<bar>n\<bar> :: rat) \<le> of_int (2 ^ 53)" using assms by (simp only: of_int_le_iff)
  then have "\<bar>of_int n :: rat\<bar> \<le> 2 ^ 53" by simp
  from rnd_small [OF this] show ?thesis using assms by (simp add: rnd_val_representable)
qed

lemma rnd_exact: "representable x \<Longrightarrow> \<bar>x\<bar> \<le> 2 ^ 53 \<Longrightarrow> rnd x = Fin x"
  by (simp add: rnd_small rnd_val_representable)

lemma rnd_numeral [simp]: "numeral n \<le> (2 ^ 53 :: int) \<Longrightarrow> rnd (numeral n) = Fin (numeral n)"
  using rnd_of_int [of "numeral n"] by simp

lemma rnd_0 [simp]: "rnd 0 = Fin 0"
  using rnd_of_int [of 0] by simp

lemma rnd_1 [simp]: "rnd 1 = Fin 1"
  using rnd_of_int [of 1] by simp

lemma rnd_half [simp]: "rnd (1 / 2) = Fin (1 / 2)"
proof (rule rnd_exact)
  show "representable (1 / 2)"
    unfolding representable_def by (intro exI [of _ 1] exI [of _ "- 1"]) simp
qed simp

section \<open>Order\<close>

lemma flt_NaN [simp]: "\<not> flt a NaN"
  by (cases a) simp_all

lemma fle_refl [simp]: "fle a a \<longleftrightarrow> a \<noteq> NaN"
  by (cases a) (auto simp: fle_def)

lemma fle_Fin [simp]: "fle (Fin a) (Fin b) \<longleftrightarrow> a \<le> b"
  by (auto simp: fle_def)

lemma flt_trans: "flt a b \<Longrightarrow> flt b c \<Longrightarrow> flt a c"
  by (cases a; cases b; cases c; simp)

lemma fle_trans: "fle a b \<Longrightarrow> fle b c \<Longrightarrow> fle a c"
  by (auto simp: fle_def intro: flt_trans)

lemma not_flt_iff: "a \<noteq> NaN \<Longrightarrow> b \<noteq> NaN \<Longrightarrow> \<not> flt a b \<longleftrightarrow> fle b a"
  by (cases a; cases b) (auto simp: fle_def)

lemma rnd_not_NaN [simp]: "rnd x \<noteq> NaN"
  by (simp add: rnd_def Let_def)

lemma rnd_mono:
  assumes "x \<le> y" shows "fle (rnd x) (rnd y)"
proof -
  have m: "rnd_val x \<le> rnd_val y" using assms by (rule rnd_val_mono)
  have pos: "1024 \<le> ilog2 (rnd_val y)" if "0 < rnd_val x" "1024 \<le> ilog2 (rnd_val x)"
    using ilog2_mono [OF that(1) m] that(2) by linarith
  have neg: "1024 \<le> ilog2 (- rnd_val x)" if "rnd_val y < 0" "1024 \<le> ilog2 (- rnd_val y)"
    using ilog2_mono [of "- rnd_val y" "- rnd_val x"] m that by linarith
  show ?thesis
    using m pos neg by (auto simp: rnd_def Let_def fle_def abs_if split: if_splits)
qed

lemma clamp_not_NaN [simp]: "lo \<noteq> NaN \<Longrightarrow> hi \<noteq> NaN \<Longrightarrow> x \<noteq> NaN \<Longrightarrow> clamp x lo hi \<noteq> NaN"
  by (simp add: clamp_def)

lemma clamp_bounds:
  assumes "x \<noteq> NaN" and "fle lo hi"
  shows "fle lo (clamp x lo hi) \<and> fle (clamp x lo hi) hi"
proof -
  have "lo \<noteq> NaN" "hi \<noteq> NaN" using assms(2) by (auto simp: fle_def elim: flt.elims)
  then show ?thesis using assms by (auto simp: clamp_def not_flt_iff fle_def)
qed

lemma clamp_NaN [simp]: "clamp NaN lo hi = NaN"
  by (simp add: clamp_def)

lemma clamp_Fin:
  "l \<le> h \<Longrightarrow> x \<noteq> NaN \<Longrightarrow> \<exists>r. clamp x (Fin l) (Fin h) = Fin r \<and> l \<le> r \<and> r \<le> h"
  by (cases x) (auto simp: clamp_def)

lemma fmin_fmax_Fin:
  "l \<le> h \<Longrightarrow> \<exists>a. fmin (fmax x (Fin l)) (Fin h) = Fin a \<and> l \<le> a \<and> a \<le> h"
  by (cases x) (auto simp: fmin_def fmax_def)

end
