(* ===== verification/Common.thy ===== *)
theory Common
  imports F64
begin

text \<open>
  The \<^verbatim>\<open>common\<close> crate: the order data every other crate shares, the fixed settlement tiers and the
  fee calculator (\<^verbatim>\<open>crates/common/src/types.rs\<close>, \<^verbatim>\<open>fees.rs\<close>).

  The fee calculator computes in \<^verbatim>\<open>f64\<close>, so \<open>calculate_fee_basis_points\<close> is stated over the type of
  theory \<open>F64\<close>; amounts are 64-bit words and the notional product is taken at 128 bits.
\<close>

section \<open>Orders\<close>

type_synonym node_id = u32

datatype region = UsEast1 | EuWest1 | ApSoutheast1

fun region_name :: "region \<Rightarrow> string" where
  "region_name UsEast1 = ''us-east-1''"
| "region_name EuWest1 = ''eu-west-1''"
| "region_name ApSoutheast1 = ''ap-southeast-1''"

datatype order_side = Buy | Sell

datatype settlement_preference = Standard | Express | Instant

datatype settlement_requester = Seller | Buyer

record order =
  o_id :: bytes32
  o_trader :: bytes32
  o_symbol :: string
  o_side :: order_side
  o_price :: u64
  o_amount :: u64
  o_signature :: bytes
  o_nonce :: u64
  o_expiry :: u64
  o_settlement_preference :: settlement_preference
  o_settlement_requester :: settlement_requester

record flood_message =
  f_order :: order
  f_hop_count :: u8
  f_path :: "node_id list"
  f_timestamp :: f64
  f_source_region :: region

fun fee_basis_points :: "settlement_preference \<Rightarrow> u32" where
  "fee_basis_points Standard = 5"
| "fee_basis_points Express = 15"
| "fee_basis_points Instant = 50"

fun deadline_seconds :: "settlement_preference \<Rightarrow> u64" where
  "deadline_seconds Standard = 86400"
| "deadline_seconds Express = 600"
| "deadline_seconds Instant = 60"

section \<open>The fee calculator\<close>

record fee_calculator =
  base_gas_price :: u64
  batch_utilization :: f64
  volatility_index :: f64

definition BASELINE_GAS_GWEI :: u64 where
  "BASELINE_GAS_GWEI = 50"

definition default_fee_calculator :: fee_calculator where
  "default_fee_calculator =
     \<lparr>base_gas_price = BASELINE_GAS_GWEI, batch_utilization = lit 0, volatility_index = lit 0\<rparr>"

definition new_fee_calculator :: "u64 \<Rightarrow> f64 \<Rightarrow> f64 \<Rightarrow> fee_calculator" where
  "new_fee_calculator gas util vol =
     \<lparr>base_gas_price = gas, batch_utilization = util, volatility_index = vol\<rparr>"

definition default_fee_basis_points :: "settlement_preference \<Rightarrow> u32" where
  "default_fee_basis_points preference = fee_basis_points preference"

definition calculate_fee_basis_points :: "fee_calculator \<Rightarrow> settlement_preference \<Rightarrow> u32" where
  "calculate_fee_basis_points self tier =
     (let base_bps = f64_of_word (fee_basis_points tier);
          gas_multiplier = fdiv (f64_of_word (base_gas_price self)) (f64_of_word BASELINE_GAS_GWEI);
          gas_adjusted = fmul base_bps gas_multiplier;
          batch_adjustment = fsub (lit 1) (fmul (batch_utilization self) (lit (1 / 2)));
          batch_adjusted = fmul gas_adjusted batch_adjustment;
          volatility_adjustment = fadd (lit 1) (fmul (volatility_index self) (lit (1 / 2)));
          final_bps = fmul batch_adjusted volatility_adjustment
      in word_of_f64 (fmin (fmax final_bps (lit 1)) (lit 500)))"

definition compute_fee_amount :: "u64 \<Rightarrow> u64 \<Rightarrow> settlement_preference \<Rightarrow> u64" where
  "compute_fee_amount amount price tier =
     (let bps = ucast (default_fee_basis_points tier) :: u128;
          notional = ucast amount * ucast price;
          fee = notional * bps div 10000
      in ucast fee)"

definition compute_fee_amount_dynamic ::
    "fee_calculator \<Rightarrow> u64 \<Rightarrow> u64 \<Rightarrow> settlement_preference \<Rightarrow> u64" where
  "compute_fee_amount_dynamic self amount price tier =
     (let bps = ucast (calculate_fee_basis_points self tier) :: u128;
          notional = ucast amount * ucast price;
          fee = notional * bps div 10000
      in ucast fee)"

section \<open>Bounds\<close>

lemma clamped_cast_bounds:
  "unat (word_of_f64 (fmin (fmax x (Fin 1)) (Fin 500)) :: u32) \<in> {1..500}"
proof -
  obtain a where a: "fmin (fmax x (Fin 1)) (Fin 500) = Fin a" "1 \<le> a" "a \<le> 500"
    using fmin_fmax_Fin [of 1 500 x] by auto
  have "1 \<le> \<lfloor>a\<rfloor>" "\<lfloor>a\<rfloor> \<le> 500" using a(2,3) by (auto simp: le_floor_iff floor_le_iff)
  then have "unat (word_of_int \<lfloor>a\<rfloor> :: u32) = nat \<lfloor>a\<rfloor>"
    by (simp add: unat_eq_nat_uint uint_word_of_int)
  then show ?thesis
    using a \<open>1 \<le> \<lfloor>a\<rfloor>\<close> \<open>\<lfloor>a\<rfloor> \<le> 500\<close> by (simp add: nat_le_iff le_nat_iff del: one_le_floor)
qed

lemma calculate_fee_basis_points_range:
  "unat (calculate_fee_basis_points c tier) \<in> {1..500}"
  using clamped_cast_bounds by (simp add: calculate_fee_basis_points_def Let_def del: atLeastAtMost_iff)

lemma default_schedule:
  "calculate_fee_basis_points default_fee_calculator tier = fee_basis_points tier"
  by (cases tier)
    (simp_all add: calculate_fee_basis_points_def default_fee_calculator_def BASELINE_GAS_GWEI_def
      f64_of_word_def fsub_def fmin_def fmax_def)

text \<open>The fee amount is the exact quotient whenever the notional itself fits in 64 bits.\<close>

lemma fee_word_arith:
  fixes bps :: u32
  assumes "unat amount * unat price < 2 ^ 64" and "unat bps \<le> 10000"
  shows "unat (ucast (ucast (amount :: u64) * ucast (price :: u64) * ucast bps div (10000 :: u128)) :: u64)
       = unat amount * unat price * unat bps div 10000"
proof -
  let ?n = "unat amount * unat price * unat bps"
  have n: "?n \<le> (2 ^ 64 - 1) * 10000" using assms by (intro mult_mono) auto
  have "unat (ucast amount * ucast price * ucast bps :: u128) = ?n mod 2 ^ 128"
    by (simp add: unat_word_ariths unat_ucast_up mod_mult_left_eq)
  then have "unat (ucast amount * ucast price * ucast bps :: u128) = ?n"
    using n by simp
  moreover have "?n div 10000 < 2 ^ 64" using n by (simp add: div_less_iff_less_mult)
  ultimately show ?thesis by (simp add: unat_div unat_ucast_mod)
qed

lemma unat_compute_fee_amount_dynamic:
  assumes "unat amount * unat price < 2 ^ 64"
  shows "unat (compute_fee_amount_dynamic c amount price tier)
       = unat amount * unat price * unat (calculate_fee_basis_points c tier) div 10000"
  using fee_word_arith [OF assms, of "calculate_fee_basis_points c tier"]
    calculate_fee_basis_points_range [of c tier]
  by (simp add: compute_fee_amount_dynamic_def)

section \<open>Properties\<close>

text \<open>C39. Whatever its configuration, NaN and infinities included, the fee calculator returns between
  1 and 500 basis points; in its default configuration it returns the fixed 5/15/50 schedule.\<close>

theorem fee_basis_points_bounded:
  "unat (calculate_fee_basis_points c tier) \<in> {1..500}
   \<and> calculate_fee_basis_points default_fee_calculator tier = fee_basis_points tier"
  using calculate_fee_basis_points_range default_schedule by blast

text \<open>For a trade whose notional fits in 64 bits the fee is the exact quotient, rounded down, of
  notional times basis points by 10000: neither the 128-bit product nor the cast back to 64 bits
  loses anything, and the fee never exceeds a twentieth of the notional.\<close>

theorem fee_amount_exact:
  assumes "unat amount * unat price < 2 ^ 64"
  shows "unat (compute_fee_amount_dynamic c amount price tier)
           = unat amount * unat price * unat (calculate_fee_basis_points c tier) div 10000
    \<and> 20 * unat (compute_fee_amount_dynamic c amount price tier) \<le> unat amount * unat price"
proof -
  let ?n = "unat amount * unat price" and ?b = "unat (calculate_fee_basis_points c tier)"
  have eq: "unat (compute_fee_amount_dynamic c amount price tier) = ?n * ?b div 10000"
    using assms by (rule unat_compute_fee_amount_dynamic)
  have "?n * ?b \<le> ?n * 500" using calculate_fee_basis_points_range [of c tier] by (intro mult_le_mono2) simp
  then have "20 * (?n * ?b div 10000) \<le> ?n" by linarith
  then show ?thesis using eq by simp
qed

theorem fee_amount_exact_witness:
  "unat (compute_fee_amount_dynamic default_fee_calculator 1000 200 Instant) = 1000"
  using fee_amount_exact [of 1000 200 default_fee_calculator Instant] by (simp add: default_schedule)

end
