(* ===== verification/Engine.thy ===== *)
theory Engine
  imports Common
begin

text \<open>
  The matching engine (\<^verbatim>\<open>crates/engine/src/types.rs\<close>, \<^verbatim>\<open>book.rs\<close>): a price-level order book, the
  matching loops of \<^verbatim>\<open>add_order_at\<close> for both sides, node assignment and cancellation.

  The two matching loops are translated as written: the inner loop walks one level's
  \<^verbatim>\<open>Vec<Order>\<close>, records the indices it filled and removes them afterwards in reverse; the outer
  loop of the buy side iterates the asks in place, the one of the sell side first collects the
  matching bid prices and looks each level up again. Both are then shown equal to one reference
  sweep, and the sweep to an allocation over the makers in price-time priority.
\<close>

section \<open>Model\<close>

record match_rec =
  m_maker_order_id :: bytes32
  m_taker_order_id :: bytes32
  m_maker_trader :: bytes32
  m_taker_trader :: bytes32
  m_price :: u64
  m_amount :: u64
  m_timestamp_us :: u64
  m_settlement_tier :: settlement_preference
  m_fee_basis_points :: u32
  m_seller :: bytes32
  m_fee_payer :: bytes32
  m_settlement_deadline :: u64
  m_symbol :: string
  m_assigned_node :: bytes32

type_synonym levels = "(u64, order list) btree_map"

record order_book =
  symbol :: string
  bids :: levels
  asks :: levels
  node_rewards :: u64
  active_nodes :: "bytes32 list"
  next_node_index :: usize
  fee_calc :: fee_calculator

definition new_book :: "string \<Rightarrow> order_book" where
  "new_book s =
     \<lparr>symbol = s, bids = [], asks = [], node_rewards = 0, active_nodes = [], next_node_index = 0,
      fee_calc = default_fee_calculator\<rparr>"

definition set_fee_calculator :: "fee_calculator \<Rightarrow> order_book \<Rightarrow> order_book" where
  "set_fee_calculator calc self = self\<lparr>fee_calc := calc\<rparr>"

definition set_active_nodes :: "bytes32 list \<Rightarrow> order_book \<Rightarrow> order_book" where
  "set_active_nodes nodes self = self\<lparr>active_nodes := nodes, next_node_index := 0\<rparr>"

definition active_nodes_cursor :: "order_book \<Rightarrow> usize" where
  "active_nodes_cursor self = next_node_index self"

definition restore_active_nodes_cursor :: "usize \<Rightarrow> order_book \<Rightarrow> order_book" where
  "restore_active_nodes_cursor cursor self = self\<lparr>next_node_index := cursor\<rparr>"

text \<open>Returns the node and the advanced cursor.\<close>

definition assign_node :: "bytes32 list \<Rightarrow> usize \<Rightarrow> bytes32 \<times> usize" where
  "assign_node nodes idx =
     (if nodes = [] then (zero32, idx)
      else let len = word_of_nat (length nodes)
           in (nodes ! unat (idx mod len), (idx + 1) mod len))"

definition resolve_settlement_params ::
    "order \<Rightarrow> order \<Rightarrow> u64 \<Rightarrow> fee_calculator \<Rightarrow> settlement_preference \<times> u32 \<times> bytes32 \<times> bytes32 \<times> u64" where
  "resolve_settlement_params taker_order maker_order now_secs calc =
     (let sell_order = (if o_side taker_order = Sell then taker_order else maker_order);
          buy_order = (if o_side taker_order = Buy then taker_order else maker_order);
          (tier, fee_payer) =
            (case o_settlement_requester sell_order of
               Buyer \<Rightarrow> (o_settlement_preference buy_order, o_trader buy_order)
             | Seller \<Rightarrow> (o_settlement_preference sell_order, o_trader sell_order));
          fee_bps = calculate_fee_basis_points calc tier;
          deadline = now_secs + deadline_seconds tier
      in (tier, fee_bps, o_trader sell_order, fee_payer, deadline))"

text \<open>
  The mutable state of a matching loop: the book (its rewards and cursor), the incoming order and
  the matches so far. \<open>fill_maker\<close> is the loop body after its two guards; it returns the maker with
  its reduced amount.
\<close>

type_synonym fill_state = "order_book \<times> order \<times> match_rec list"

definition fill_maker :: "u64 \<Rightarrow> u64 \<Rightarrow> order \<Rightarrow> fill_state \<Rightarrow> order \<times> fill_state" where
  "fill_maker timestamp_us level_price maker st =
     (let (self, order, matches) = st;
          now_secs = timestamp_us div 1000000;
          match_amount = min (o_amount order) (o_amount maker);
          order = order\<lparr>o_amount := o_amount order - match_amount\<rparr>;
          maker = maker\<lparr>o_amount := o_amount maker - match_amount\<rparr>;
          (tier, fee_bps, seller, fee_payer, deadline) =
            resolve_settlement_params order maker now_secs (fee_calc self);
          fee = compute_fee_amount_dynamic (fee_calc self) match_amount level_price tier;
          self = self\<lparr>node_rewards := node_rewards self + fee\<rparr>;
          (node, idx) = assign_node (active_nodes self) (next_node_index self);
          self = self\<lparr>next_node_index := idx\<rparr>;
          m = \<lparr>m_maker_order_id = o_id maker, m_taker_order_id = o_id order,
               m_maker_trader = o_trader maker, m_taker_trader = o_trader order,
               m_price = level_price, m_amount = match_amount, m_timestamp_us = timestamp_us,
               m_settlement_tier = tier, m_fee_basis_points = fee_bps, m_seller = seller,
               m_fee_payer = fee_payer, m_settlement_deadline = deadline,
               m_symbol = symbol self, m_assigned_node = node\<rparr>
      in (maker, self, order, matches @ [m]))"

text \<open>One level: the makers after the loop, the state, and \<^verbatim>\<open>filled_indices\<close>.\<close>

fun fill_level ::
    "u64 \<Rightarrow> u64 \<Rightarrow> nat \<Rightarrow> order list \<Rightarrow> fill_state \<Rightarrow> order list \<times> fill_state \<times> nat list" where
  "fill_level ts p idx [] st = ([], st, [])"
| "fill_level ts p idx (maker # rest) (self, order, matches) =
     (if o_amount order = 0 then (maker # rest, (self, order, matches), [])
      else if o_trader maker = o_trader order
      then let (rest', st', filled) = fill_level ts p (idx + 1) rest (self, order, matches)
           in (maker # rest', st', filled)
      else let (maker', st1) = fill_maker ts p maker (self, order, matches);
               (rest', st', filled) = fill_level ts p (idx + 1) rest st1
           in (maker' # rest', st', if o_amount maker' = 0 then idx # filled else filled))"

definition remove_at :: "nat \<Rightarrow> 'a list \<Rightarrow> 'a list" where
  "remove_at i xs = take i xs @ drop (Suc i) xs"

definition remove_filled :: "nat list \<Rightarrow> 'a list \<Rightarrow> 'a list" where
  "remove_filled filled orders = fold remove_at (rev filled) orders"

text \<open>The buy side: asks in ascending price order, in place; also returns \<^verbatim>\<open>empty_levels\<close>.\<close>

fun fill_asks :: "u64 \<Rightarrow> levels \<Rightarrow> fill_state \<Rightarrow> levels \<times> fill_state \<times> u64 list" where
  "fill_asks ts [] st = ([], st, [])"
| "fill_asks ts ((ask_price, orders) # ls) (self, order, matches) =
     (if o_price order < ask_price \<or> o_amount order = 0
      then ((ask_price, orders) # ls, (self, order, matches), [])
      else let (orders1, st1, filled) = fill_level ts ask_price 0 orders (self, order, matches);
               orders2 = remove_filled filled orders1;
               (ls', st', empties) = fill_asks ts ls st1
           in ((ask_price, orders2) # ls', st',
               if orders2 = [] then ask_price # empties else empties))"

text \<open>The sell side: the bids at the collected prices, each looked up again.\<close>

fun fill_bids :: "u64 \<Rightarrow> u64 list \<Rightarrow> levels \<Rightarrow> fill_state \<Rightarrow> levels \<times> fill_state \<times> u64 list" where
  "fill_bids ts [] bs st = (bs, st, [])"
| "fill_bids ts (bid_price # ps) bs (self, order, matches) =
     (if o_amount order = 0 then (bs, (self, order, matches), [])
      else case map_of bs bid_price of
        None \<Rightarrow> fill_bids ts ps bs (self, order, matches)
      | Some orders \<Rightarrow>
          let (orders1, st1, filled) = fill_level ts bid_price 0 orders (self, order, matches);
              orders2 = remove_filled filled orders1;
              (bs', st', empties) = fill_bids ts ps (bt_insert bid_price orders2 bs) st1
          in (bs', st', if orders2 = [] then bid_price # empties else empties))"

definition add_order_at :: "order \<Rightarrow> u64 \<Rightarrow> order_book \<Rightarrow> order_book \<times> match_rec list" where
  "add_order_at order timestamp_us self =
     (if o_amount order = 0 then (self, [])
      else if o_price order = 0 \<or> 1000000000000 < o_price order then (self, [])
      else if (ucast (- 1 :: u64) :: u128) < ucast (o_amount order) * ucast (o_price order)
      then (self, [])
      else case o_side order of
        Buy \<Rightarrow>
          let (as, (self, order, matches), empties) = fill_asks timestamp_us (asks self) (self, order, []);
              self = self\<lparr>asks := fold bt_remove empties as\<rparr>;
              self = (if 0 < o_amount order
                      then self\<lparr>bids := bt_push (o_price order) order (bids self)\<rparr> else self)
          in (self, matches)
      | Sell \<Rightarrow>
          let matching_prices = takeWhile (\<lambda>p. o_price order \<le> p) (rev (map fst (bids self)));
              (bs, (self, order, matches), empties) =
                fill_bids timestamp_us matching_prices (bids self) (self, order, []);
              self = self\<lparr>bids := fold bt_remove empties bs\<rparr>;
              self = (if 0 < o_amount order
                      then self\<lparr>asks := bt_push (o_price order) order (asks self)\<rparr> else self)
          in (self, matches))"

text \<open>\<^verbatim>\<open>add_order\<close> stamps the wall clock, here an argument.\<close>

definition add_order :: "u64 \<Rightarrow> order \<Rightarrow> order_book \<Rightarrow> order_book \<times> match_rec list" where
  "add_order clock_us order self = add_order_at order clock_us self"

text \<open>Removes the first order with the id from the first level that has one.\<close>

fun cancel_in :: "bytes32 \<Rightarrow> levels \<Rightarrow> levels option" where
  "cancel_in oid [] = None"
| "cancel_in oid ((p, orders) # ls) =
     (if oid \<in> o_id ` set orders
      then Some ((p, remove_at (length (takeWhile (\<lambda>o'. o_id o' \<noteq> oid) orders)) orders) # ls)
      else map_option (\<lambda>ls'. (p, orders) # ls') (cancel_in oid ls))"

definition cancel_order :: "bytes32 \<Rightarrow> order_book \<Rightarrow> order_book \<times> bool" where
  "cancel_order oid self =
     (case cancel_in oid (bids self) of
        Some bs \<Rightarrow> (self\<lparr>bids := bs\<rparr>, True)
      | None \<Rightarrow>
          (case cancel_in oid (asks self) of
             Some as \<Rightarrow> (self\<lparr>asks := as\<rparr>, True)
           | None \<Rightarrow> (self, False)))"

section \<open>Specification: allocation in priority order\<close>

text \<open>
  What matching means, on the list of makers in priority order: a maker of the taker's own trader
  is skipped, every other one is taken whole while the taker still wants that much, and the last
  one in part.
\<close>

fun alloc :: "bytes32 \<Rightarrow> u64 \<Rightarrow> order list \<Rightarrow> (order \<times> u64) list" where
  "alloc t n [] = []"
| "alloc t n (m # ms) =
     (if n = 0 then [] else if o_trader m = t then alloc t n ms
      else if o_amount m \<le> n then (m, o_amount m) # alloc t (n - o_amount m) ms
      else [(m, n)])"

fun left_over :: "bytes32 \<Rightarrow> u64 \<Rightarrow> order list \<Rightarrow> u64" where
  "left_over t n [] = n"
| "left_over t n (m # ms) =
     (if n = 0 then 0 else if o_trader m = t then left_over t n ms
      else if o_amount m \<le> n then left_over t (n - o_amount m) ms
      else 0)"

fun remaining :: "bytes32 \<Rightarrow> u64 \<Rightarrow> order list \<Rightarrow> order list" where
  "remaining t n [] = []"
| "remaining t n (m # ms) =
     (if n = 0 then m # ms else if o_trader m = t then m # remaining t n ms
      else if o_amount m \<le> n then remaining t (n - o_amount m) ms
      else m\<lparr>o_amount := o_amount m - n\<rparr> # ms)"

definition eligible :: "(u64 \<Rightarrow> bool) \<Rightarrow> levels \<Rightarrow> order list" where
  "eligible ok ls = concat (map snd (takeWhile (\<lambda>l. ok (fst l)) ls))"

fun remaining_levels :: "bytes32 \<Rightarrow> u64 \<Rightarrow> (u64 \<Rightarrow> bool) \<Rightarrow> levels \<Rightarrow> levels" where
  "remaining_levels t n ok [] = []"
| "remaining_levels t n ok ((p, os) # ls) =
     (if \<not> ok p \<or> n = 0 then (p, os) # ls
      else let os' = remaining t n os; ls' = remaining_levels t (left_over t n os) ok ls
           in if os' = [] then ls' else (p, os') # ls')"

text \<open>The record of one allocation, and the book-keeping it causes.\<close>

definition match_of :: "u64 \<Rightarrow> order_book \<Rightarrow> order \<Rightarrow> order \<Rightarrow> u64 \<Rightarrow> match_rec" where
  "match_of ts self taker maker k =
     (let (tier, fee_bps, seller, fee_payer, deadline) =
            resolve_settlement_params taker maker (ts div 1000000) (fee_calc self)
      in \<lparr>m_maker_order_id = o_id maker, m_taker_order_id = o_id taker,
          m_maker_trader = o_trader maker, m_taker_trader = o_trader taker,
          m_price = o_price maker, m_amount = k, m_timestamp_us = ts,
          m_settlement_tier = tier, m_fee_basis_points = fee_bps, m_seller = seller,
          m_fee_payer = fee_payer, m_settlement_deadline = deadline, m_symbol = symbol self,
          m_assigned_node = fst (assign_node (active_nodes self) (next_node_index self))\<rparr>)"

definition account :: "order \<Rightarrow> order \<times> u64 \<Rightarrow> order_book \<Rightarrow> order_book" where
  "account taker mk self = (case mk of (maker, k) \<Rightarrow>
     let tier = fst (resolve_settlement_params taker maker 0 (fee_calc self))
     in self\<lparr>node_rewards := node_rewards self
               + compute_fee_amount_dynamic (fee_calc self) k (o_price maker) tier,
             next_node_index := snd (assign_node (active_nodes self) (next_node_index self))\<rparr>)"

fun stamp :: "u64 \<Rightarrow> order_book \<Rightarrow> order \<Rightarrow> (order \<times> u64) list \<Rightarrow> match_rec list" where
  "stamp ts self taker [] = []"
| "stamp ts self taker ((m, k) # ak) =
     match_of ts self taker m k # stamp ts (account taker (m, k) self) taker ak"

section \<open>The loops implement the specification\<close>

lemma resolve_amount_irrelevant [simp]:
  "resolve_settlement_params (t\<lparr>o_amount := x\<rparr>) m s c = resolve_settlement_params t m s c"
  "resolve_settlement_params t (m\<lparr>o_amount := x\<rparr>) s c = resolve_settlement_params t m s c"
  by (auto simp: resolve_settlement_params_def Let_def split: settlement_requester.splits)

lemma fst_resolve_time: "fst (resolve_settlement_params t m s c) = fst (resolve_settlement_params t m 0 c)"
  by (auto simp: resolve_settlement_params_def Let_def split: settlement_requester.splits)

lemma match_of_amount [simp]: "match_of ts b (t\<lparr>o_amount := x\<rparr>) m k = match_of ts b t m k"
  by (simp add: match_of_def)

lemma account_amount [simp]: "account (t\<lparr>o_amount := x\<rparr>) mk b = account t mk b"
  by (simp add: account_def)

lemma stamp_amount [simp]: "stamp ts b (t\<lparr>o_amount := x\<rparr>) ak = stamp ts b t ak"
  by (induction ak arbitrary: b) auto

lemma fold_account_amount [simp]: "fold (account (t\<lparr>o_amount := x\<rparr>)) ak b = fold (account t) ak b"
  by (induction ak arbitrary: b) simp_all

lemma fill_maker_eq:
  assumes "o_price maker = p"
  shows "fill_maker ts p maker (b, t, ms) =
    (let k = min (o_amount t) (o_amount maker)
     in (maker\<lparr>o_amount := o_amount maker - k\<rparr>,
         account t (maker, k) b, t\<lparr>o_amount := o_amount t - k\<rparr>, ms @ [match_of ts b t maker k]))"
  using assms fst_resolve_time [of t maker "ts div 1000000" "fee_calc b"]
  by (auto simp: fill_maker_def match_of_def account_def Let_def split: prod.splits)

lemma left_over_0 [simp]: "left_over t 0 xs = 0"
  by (cases xs) simp_all

lemma alloc_0 [simp]: "alloc t 0 xs = []"
  by (cases xs) simp_all

lemma remaining_0 [simp]: "remaining t 0 xs = xs"
  by (cases xs) simp_all

lemma alloc_append: "alloc t n (xs @ ys) = alloc t n xs @ alloc t (left_over t n xs) ys"
  by (induction t n xs rule: alloc.induct) simp_all

lemma remaining_append: "remaining t n (xs @ ys) = remaining t n xs @ remaining t (left_over t n xs) ys"
  by (induction t n xs rule: alloc.induct) simp_all

lemma left_over_append: "left_over t n (xs @ ys) = left_over t (left_over t n xs) ys"
  by (induction t n xs rule: alloc.induct) simp_all

lemma stamp_append: "stamp ts b t (xs @ ys) = stamp ts b t xs @ stamp ts (fold (account t) xs b) t ys"
  by (induction xs arbitrary: b) auto

lemma fold_Cons_remove: "fold remove_at (rev (i # f)) xs = remove_at i (fold remove_at (rev f) xs)"
  by simp

lemma remove_at_length [simp]: "remove_at (length pre) (pre @ x # xs) = pre @ xs"
  by (simp add: remove_at_def)

text \<open>
  One level: removing the recorded indices in reverse leaves exactly the makers that were not
  filled, in their order.
\<close>

lemma fill_level_spec:
  assumes "\<forall>m \<in> set os. o_price m = p"
    and "fill_level ts p (length pre) os (b, t, ms) = (os', st', filled)"
  shows "remove_filled filled (pre @ os') = pre @ remaining (o_trader t) (o_amount t) os
    \<and> st' = (fold (account t) (alloc (o_trader t) (o_amount t) os) b,
             t\<lparr>o_amount := left_over (o_trader t) (o_amount t) os\<rparr>,
             ms @ stamp ts b t (alloc (o_trader t) (o_amount t) os))"
  using assms
proof (induction os arbitrary: pre b t ms os' st' filled)
  case Nil
  then show ?case by (simp add: remove_filled_def)
next
  case (Cons m os)
  let ?k = "min (o_amount t) (o_amount m)"
  consider (finished) "o_amount t = 0" | (self) "o_amount t \<noteq> 0" "o_trader m = o_trader t"
    | (fill) "o_amount t \<noteq> 0" "o_trader m \<noteq> o_trader t" by blast
  then show ?case
  proof cases
    case finished
    then show ?thesis using Cons.prems by (auto simp: remove_filled_def)
  next
    case self
    obtain os1 f where rec: "fill_level ts p (length (pre @ [m])) os (b, t, ms) = (os1, st', f)"
      "os' = m # os1" "filled = f"
      using Cons.prems(2) self by (auto split: prod.splits)
    show ?thesis
      using Cons.IH [OF _ rec(1)] Cons.prems(1) self rec(2,3) by simp
  next
    case fill
    obtain os1 f where rec:
      "fill_level ts p (length (pre @ [m\<lparr>o_amount := o_amount m - ?k\<rparr>])) os
         (account t (m, ?k) b, t\<lparr>o_amount := o_amount t - ?k\<rparr>, ms @ [match_of ts b t m ?k]) = (os1, st', f)"
      "os' = m\<lparr>o_amount := o_amount m - ?k\<rparr> # os1"
      "filled = (if o_amount m = ?k then length pre # f else f)"
      using Cons.prems fill by (auto simp: fill_maker_eq Let_def split: prod.splits)
    note IH = Cons.IH [OF _ rec(1)]
    show ?thesis
    proof (cases "o_amount m \<le> o_amount t")
      case True
      then have "?k = o_amount m" by (simp add: min_def)
      then show ?thesis
        using IH Cons.prems(1) fill True rec(2,3)
        by (auto simp: remove_filled_def fold_Cons_remove simp del: rev.simps)
    next
      case False
      then have "?k = o_amount t" "o_amount m \<noteq> o_amount t" by (auto simp: min_def)
      then show ?thesis
        using IH Cons.prems(1) fill False rec(2,3) by auto
    qed
  qed
qed

lemma remove_filled_level:
  assumes "\<forall>m \<in> set os. o_price m = p" and "fill_level ts p 0 os (b, t, ms) = (os', st', filled)"
  shows "remove_filled filled os' = remaining (o_trader t) (o_amount t) os"
    and "st' = (fold (account t) (alloc (o_trader t) (o_amount t) os) b,
             t\<lparr>o_amount := left_over (o_trader t) (o_amount t) os\<rparr>,
             ms @ stamp ts b t (alloc (o_trader t) (o_amount t) os))"
  using fill_level_spec [of os p ts "[]"] assms by simp_all

text \<open>Every resting order sits at the level of its own price.\<close>

definition levels_ok :: "levels \<Rightarrow> bool" where
  "levels_ok ls = (\<forall>(p, os) \<in> set ls. \<forall>m \<in> set os. o_price m = p)"

lemma levels_ok_Cons [simp]:
  "levels_ok ((p, os) # ls) \<longleftrightarrow> (\<forall>m \<in> set os. o_price m = p) \<and> levels_ok ls"
  by (simp add: levels_ok_def)

definition fill_result :: "u64 \<Rightarrow> order_book \<Rightarrow> order \<Rightarrow> match_rec list \<Rightarrow> order list \<Rightarrow> fill_state" where
  "fill_result ts b t ms makers =
     (fold (account t) (alloc (o_trader t) (o_amount t) makers) b,
      t\<lparr>o_amount := left_over (o_trader t) (o_amount t) makers\<rparr>,
      ms @ stamp ts b t (alloc (o_trader t) (o_amount t) makers))"

lemma fill_result_append:
  "fill_result ts b t ms (xs @ ys) =
     (let (b', t', ms') = fill_result ts b t ms xs in fill_result ts b' t' ms' ys)"
  by (simp add: fill_result_def alloc_append left_over_append stamp_append)

lemma fill_result_exhausted [simp]:
  "o_amount t = 0 \<Longrightarrow> fill_result ts b t ms xs = (b, t, ms)"
  by (simp add: fill_result_def)

lemma fill_result_Nil [simp]: "fill_result ts b t ms [] = (b, t, ms)"
  by (simp add: fill_result_def)

lemma eligible_Nil [simp]: "eligible ok [] = []"
  by (simp add: eligible_def)

lemma eligible_Cons [simp]:
  "eligible ok ((p, os) # ls) = (if ok p then os @ eligible ok ls else [])"
  by (simp add: eligible_def)

lemma fold_bt_remove: "fold bt_remove es m = filter (\<lambda>l. fst l \<notin> set es) m"
  by (induction es arbitrary: m) (auto simp: bt_remove_def intro: filter_cong)

lemma fill_asks_spec:
  assumes "fill_asks ts ls (b, t, ms) = (ls', st', es)"
    and "levels_ok ls" and "distinct (map fst ls)"
  shows "filter (\<lambda>l. fst l \<notin> set es) ls' =
           remaining_levels (o_trader t) (o_amount t) (\<lambda>p. p \<le> o_price t) ls
    \<and> st' = fill_result ts b t ms (eligible (\<lambda>p. p \<le> o_price t) ls)
    \<and> set es \<subseteq> fst ` set ls \<and> map fst ls' = map fst ls"
  using assms
proof (induction ls arbitrary: b t ms ls' st' es)
  case Nil
  then show ?case by simp
next
  case (Cons l ls)
  obtain p os where l: "l = (p, os)" by (cases l)
  show ?case
  proof (cases "o_price t < p \<or> o_amount t = 0")
    case True
    then show ?thesis using Cons.prems l by (auto simp: not_le)
  next
    case False
    obtain os1 st1 f where lev: "fill_level ts p 0 os (b, t, ms) = (os1, st1, f)"
      by (metis prod_cases3)
    have os: "\<forall>m \<in> set os. o_price m = p" using Cons.prems(2) l by simp
    note rem = remove_filled_level(1) [OF os lev]
    obtain b' t' ms' where r: "fill_result ts b t ms os = (b', t', ms')"
      by (metis prod_cases3)
    have st1: "st1 = (b', t', ms')"
      using remove_filled_level(2) [OF os lev] r by (simp add: fill_result_def)
    obtain ls1 st2 es1 where rec: "fill_asks ts ls (b', t', ms') = (ls1, st2, es1)"
      by (metis prod_cases3)
    have ls': "ls' = (p, remaining (o_trader t) (o_amount t) os) # ls1"
      and es: "es = (if remaining (o_trader t) (o_amount t) os = [] then p # es1 else es1)"
      and st': "st' = st2"
      using Cons.prems(1) False by (simp_all add: l lev rem rec st1 Let_def split: if_splits)
    have t': "t' = t\<lparr>o_amount := left_over (o_trader t) (o_amount t) os\<rparr>"
      using r by (simp add: fill_result_def)
    have "levels_ok ls" "distinct (map fst ls)" and p: "p \<notin> fst ` set ls"
      using Cons.prems l by simp_all
    note IH = Cons.IH [OF rec this(1,2)]
    have "fst ` set ls1 = fst ` set ls" using IH by (metis set_map)
    with p have "p \<notin> fst ` set ls1" by simp
    moreover have "p \<notin> set es1" using IH p by blast
    ultimately have f: "filter (\<lambda>l. fst l \<notin> set es) ls' =
        (let os' = remaining (o_trader t) (o_amount t) os; m = filter (\<lambda>l. fst l \<notin> set es1) ls1
         in if os' = [] then m else (p, os') # m)"
      unfolding ls' es by (auto simp: Let_def intro!: filter_cong)
    show ?thesis
      unfolding f using IH Cons.prems False l t' r ls' es st'
      by (auto simp: fill_result_append not_less)
  qed
qed

lemma bt_insert_present:
  "bt_ok (xs @ (p, u) # ys) \<Longrightarrow> bt_insert p v (xs @ (p, u) # ys) = xs @ (p, v) # ys"
  by (induction xs) (auto simp: bt_insert_def)

lemma bt_ok_distinct: "bt_ok m \<Longrightarrow> distinct (map fst m)"
  using strict_sorted_iff by blast

lemma keys_remaining_levels: "fst ` set (remaining_levels t n ok ls) \<subseteq> fst ` set ls"
  by (induction t n ok ls rule: remaining_levels.induct) (auto simp: Let_def)

lemma filter_other_keys: "p \<notin> fst ` set xs \<Longrightarrow> filter (\<lambda>l. fst l \<noteq> p) xs = xs"
  by (induction xs) auto

lemma fill_bids_spec:
  assumes "fill_bids ts (takeWhile ok (map fst ls)) (rev (D @ ls)) (b, t, ms) = (bs', st', es)"
    and "levels_ok ls" and "bt_ok (rev (D @ ls))"
  shows "filter (\<lambda>l. fst l \<notin> set es) bs' = rev (D @ remaining_levels (o_trader t) (o_amount t) ok ls)
    \<and> st' = fill_result ts b t ms (eligible ok ls)
    \<and> set es \<subseteq> fst ` set ls"
  using assms
proof (induction ls arbitrary: D b t ms bs' st' es)
  case Nil
  then show ?case by simp
next
  case (Cons l ls)
  obtain p os where l: "l = (p, os)" by (cases l)
  show ?case
  proof (cases "ok p \<and> o_amount t \<noteq> 0")
    case False
    then show ?thesis using Cons.prems l by (cases "ok p") auto
  next
    case True
    let ?rem = "remaining (o_trader t) (o_amount t) os"
    obtain os1 st1 f where lev: "fill_level ts p 0 os (b, t, ms) = (os1, st1, f)"
      by (metis prod_cases3)
    have os: "\<forall>m \<in> set os. o_price m = p" using Cons.prems(2) l by simp
    note rem = remove_filled_level(1) [OF os lev]
    obtain b' t' ms' where r: "fill_result ts b t ms os = (b', t', ms')"
      by (metis prod_cases3)
    have st1: "st1 = (b', t', ms')"
      using remove_filled_level(2) [OF os lev] r by (simp add: fill_result_def)
    have look: "map_of (rev (D @ l # ls)) p = Some os"
      by (rule map_of_is_SomeI [OF bt_ok_distinct [OF Cons.prems(3)]]) (simp add: l)
    have ins: "bt_insert p ?rem (rev (D @ l # ls)) = rev ((D @ [(p, ?rem)]) @ ls)"
      using Cons.prems(3) l bt_insert_present [of "rev ls" p os "rev D"] by simp
    obtain bs2 st2 es1 where rec:
      "fill_bids ts (takeWhile ok (map fst ls)) (rev ((D @ [(p, ?rem)]) @ ls)) (b', t', ms') = (bs2, st2, es1)"
      by (metis prod_cases3)
    have bs': "bs' = bs2" and es: "es = (if ?rem = [] then p # es1 else es1)" and st': "st' = st2"
      using Cons.prems(1) True look ins
      by (simp_all add: l lev rem rec [simplified] st1 Let_def split: if_splits)
    have t': "t' = t\<lparr>o_amount := left_over (o_trader t) (o_amount t) os\<rparr>"
      using r by (simp add: fill_result_def)
    have "bt_ok (rev ((D @ [(p, ?rem)]) @ ls))" and "levels_ok ls"
      using Cons.prems l by simp_all
    note IH = Cons.IH [OF rec this(2,1)]
    have p: "p \<notin> fst ` set ls" "p \<notin> fst ` set D"
      using bt_ok_distinct [OF Cons.prems(3)] l by auto
    have p': "p \<notin> fst ` set (remaining_levels (o_trader t) (o_amount t') ok ls)"
      using p keys_remaining_levels by blast
    have "filter (\<lambda>l. fst l \<notin> set es) bs' =
        (if ?rem = [] then filter (\<lambda>l. fst l \<noteq> p) (filter (\<lambda>l. fst l \<notin> set es1) bs2)
         else filter (\<lambda>l. fst l \<notin> set es1) bs2)"
      unfolding bs' es by (auto intro!: filter_cong)
    also have "\<dots> = rev (D @ (if ?rem = [] then [] else [(p, ?rem)])
        @ remaining_levels (o_trader t) (o_amount t') ok ls)"
      using IH p p' t' by (auto simp: filter_other_keys)
    finally show ?thesis
      using IH True l t' r es st' by (auto simp: fill_result_append)
  qed
qed

text \<open>What an order meets: the opposite side in priority order, down to its limit price.\<close>

definition opposite :: "order \<Rightarrow> order_book \<Rightarrow> levels" where
  "opposite order b = (case o_side order of Buy \<Rightarrow> asks b | Sell \<Rightarrow> rev (bids b))"

definition crosses :: "order \<Rightarrow> u64 \<Rightarrow> bool" where
  "crosses order p = (case o_side order of Buy \<Rightarrow> p \<le> o_price order | Sell \<Rightarrow> o_price order \<le> p)"

definition makers :: "order \<Rightarrow> order_book \<Rightarrow> order list" where
  "makers order b = eligible (crosses order) (opposite order b)"

definition fills :: "order \<Rightarrow> order_book \<Rightarrow> (order \<times> u64) list" where
  "fills order b = alloc (o_trader order) (o_amount order) (makers order b)"

definition unfilled :: "order \<Rightarrow> order_book \<Rightarrow> u64" where
  "unfilled order b = left_over (o_trader order) (o_amount order) (makers order b)"

definition opposite_after :: "order \<Rightarrow> order_book \<Rightarrow> levels" where
  "opposite_after order b =
     remaining_levels (o_trader order) (o_amount order) (crosses order) (opposite order b)"

definition spec_book :: "order \<Rightarrow> order_book \<Rightarrow> order_book" where
  "spec_book order b =
     (let b' = fold (account order) (fills order b) b;
          rest = (\<lambda>ls. if unfilled order b = 0 then ls
                      else bt_push (o_price order) (order\<lparr>o_amount := unfilled order b\<rparr>) ls)
      in case o_side order of
           Buy \<Rightarrow> b'\<lparr>asks := opposite_after order b, bids := rest (bids b)\<rparr>
         | Sell \<Rightarrow> b'\<lparr>bids := rev (opposite_after order b), asks := rest (asks b)\<rparr>)"

text \<open>The three guards of \<^verbatim>\<open>add_order_at\<close>.\<close>

definition valid_order :: "order \<Rightarrow> bool" where
  "valid_order order = (o_amount order \<noteq> 0 \<and> o_price order \<noteq> 0 \<and> o_price order \<le> 1000000000000
     \<and> unat (o_amount order) * unat (o_price order) < 2 ^ 64)"

definition side_ok :: "order_side \<Rightarrow> levels \<Rightarrow> bool" where
  "side_ok s ls = (bt_ok ls \<and> (\<forall>(p, os) \<in> set ls. \<forall>m \<in> set os. o_price m = p \<and> o_side m = s \<and> valid_order m))"

definition resting :: "levels \<Rightarrow> order list" where
  "resting ls = concat (map snd ls)"

text \<open>No bid meets an ask, except that one trader's own orders may cross.\<close>

definition uncrossed :: "order_book \<Rightarrow> bool" where
  "uncrossed b = (\<forall>x \<in> set (resting (bids b)). \<forall>y \<in> set (resting (asks b)).
     o_price y \<le> o_price x \<longrightarrow> o_trader x = o_trader y)"

definition book_ok :: "order_book \<Rightarrow> bool" where
  "book_ok b = (side_ok Buy (bids b) \<and> side_ok Sell (asks b) \<and> uncrossed b)"

lemma unat_less_pow: "unat (w :: 'a::len word) < 2 ^ LENGTH('a)"
  by (rule unsigned_less)

lemma notional_guard:
  "(ucast (- 1 :: u64) :: u128) < ucast (a :: u64) * ucast (p :: u64) \<longleftrightarrow> 2 ^ 64 \<le> unat a * unat p"
proof -
  have "unat a * unat p \<le> (2 ^ 64 - 1) * (2 ^ 64 - 1)"
    using unat_less_pow [of a] unat_less_pow [of p] by (intro mult_mono) auto
  then have "unat (ucast a * ucast p :: u128) = unat a * unat p"
    by (simp add: unat_word_ariths unat_ucast_up)
  moreover have "unat (ucast (- 1 :: u64) :: u128) = 2 ^ 64 - 1"
    by (simp add: unat_ucast_up unsigned_minus_1_eq_mask mask_eq_exp_minus_1)
  ultimately show ?thesis by (simp add: word_less_nat_alt) linarith
qed

lemma account_fields [simp]:
  "bids (account t mk b) = bids b" "asks (account t mk b) = asks b" "symbol (account t mk b) = symbol b"
  "active_nodes (account t mk b) = active_nodes b" "fee_calc (account t mk b) = fee_calc b"
  by (simp_all add: account_def Let_def split: prod.splits)

lemma fold_account_fields [simp]:
  "bids (fold (account t) ak b) = bids b" "asks (fold (account t) ak b) = asks b"
  "symbol (fold (account t) ak b) = symbol b" "active_nodes (fold (account t) ak b) = active_nodes b"
  "fee_calc (fold (account t) ak b) = fee_calc b"
  by (induction ak arbitrary: b) simp_all

lemma side_ok_levels_ok: "side_ok s ls \<Longrightarrow> levels_ok ls"
  by (fastforce simp: side_ok_def levels_ok_def)

lemma levels_ok_rev [simp]: "levels_ok (rev ls) = levels_ok ls"
  by (simp add: levels_ok_def)

lemma add_order_at_rejected: "\<not> valid_order order \<Longrightarrow> add_order_at order ts b = (b, [])"
  by (auto simp: add_order_at_def valid_order_def notional_guard not_less)

lemma add_order_at_buy_accepted:
  assumes "valid_order order" and "o_side order = Buy"
    and "fill_asks ts (asks b) (b, order, []) = (as, (b', order', ms), es)"
  shows "add_order_at order ts b =
    (let b1 = b'\<lparr>asks := fold bt_remove es as\<rparr>
     in if o_amount order' = 0 then b1
        else b1\<lparr>bids := bt_push (o_price order') order' (bids b1)\<rparr>, ms)"
  using assms
  by (auto simp: add_order_at_def notional_guard valid_order_def Let_def word_neq_0_conv)

lemma add_order_at_sell_accepted:
  assumes "valid_order order" and "o_side order = Sell"
    and "fill_bids ts (takeWhile (\<lambda>p. o_price order \<le> p) (rev (map fst (bids b)))) (bids b) (b, order, [])
       = (bs, (b', order', ms), es)"
  shows "add_order_at order ts b =
    (let b1 = b'\<lparr>bids := fold bt_remove es bs\<rparr>
     in if o_amount order' = 0 then b1
        else b1\<lparr>asks := bt_push (o_price order') order' (asks b1)\<rparr>, ms)"
  using assms
  by (auto simp: add_order_at_def notional_guard valid_order_def Let_def word_neq_0_conv)

lemmas spec_defs = spec_book_def fill_result_def fold_bt_remove opposite_def opposite_after_def
  makers_def fills_def unfilled_def Let_def

lemma add_order_at_Buy:
  assumes "side_ok Sell (asks b)" and "valid_order order" and "o_side order = Buy"
  shows "add_order_at order ts b = (spec_book order b, stamp ts b order (fills order b))"
proof -
  obtain ls' b' order' ms es where
    f: "fill_asks ts (asks b) (b, order, []) = (ls', (b', order', ms), es)"
    by (metis prod_cases3)
  have c: "crosses order = (\<lambda>p. p \<le> o_price order)" using assms(3) by (auto simp: crosses_def)
  have "distinct (map fst (asks b))" using assms(1) by (simp add: side_ok_def bt_ok_distinct)
  note fill_asks_spec [OF f side_ok_levels_ok [OF assms(1)] this]
  then show ?thesis
    using add_order_at_buy_accepted [OF assms(2,3) f] assms(3) by (simp add: spec_defs c)
qed

lemma add_order_at_Sell:
  assumes "side_ok Buy (bids b)" and "valid_order order" and "o_side order = Sell"
  shows "add_order_at order ts b = (spec_book order b, stamp ts b order (fills order b))"
proof -
  have c: "crosses order = (\<lambda>p. o_price order \<le> p)" using assms(3) by (auto simp: crosses_def)
  obtain bs b' order' ms es where f:
    "fill_bids ts (takeWhile (crosses order) (map fst (rev (bids b)))) (rev ([] @ rev (bids b))) (b, order, [])
     = (bs, (b', order', ms), es)"
    by (metis prod_cases3)
  have "levels_ok (rev (bids b))" "bt_ok (rev ([] @ rev (bids b)))"
    using assms(1) side_ok_levels_ok by (auto simp: side_ok_def)
  note spec = fill_bids_spec [OF f this]
  have "fill_bids ts (takeWhile (\<lambda>p. o_price order \<le> p) (rev (map fst (bids b)))) (bids b) (b, order, [])
       = (bs, (b', order', ms), es)"
    using f by (simp add: c rev_map)
  from add_order_at_sell_accepted [OF assms(2,3) this] show ?thesis
    using spec assms(3) by (simp add: spec_defs c)
qed

lemma add_order_at_spec:
  assumes "book_ok b" and "valid_order order"
  shows "add_order_at order ts b = (spec_book order b, stamp ts b order (fills order b))"
  using assms add_order_at_Buy add_order_at_Sell by (cases "o_side order") (auto simp: book_ok_def)

section \<open>Facts about the allocation\<close>

definition volume :: "order list \<Rightarrow> nat" where
  "volume os = (\<Sum>m \<leftarrow> os. unat (o_amount m))"

definition filled_volume :: "(order \<times> u64) list \<Rightarrow> nat" where
  "filled_volume ak = (\<Sum>(m, k) \<leftarrow> ak. unat k)"

lemma filled_volume_simps [simp]:
  "filled_volume [] = 0" "filled_volume ((m, k) # ak) = unat k + filled_volume ak"
  by (simp_all add: filled_volume_def)

lemma volume_simps [simp]: "volume [] = 0" "volume (m # ms) = unat (o_amount m) + volume ms"
  "volume (xs @ ys) = volume xs + volume ys"
  by (simp_all add: volume_def)

lemma unat_minus_le: "b \<le> a \<Longrightarrow> unat (a - b) + unat b = unat (a :: u64)"
  by (simp add: unat_sub word_le_nat_alt)

lemma alloc_left_over: "filled_volume (alloc t n ms) + unat (left_over t n ms) = unat n"
proof (induction t n ms rule: alloc.induct)
  case (2 t n m ms)
  then show ?case using unat_minus_le [of "o_amount m" n] by auto
qed simp

lemma volume_remaining: "filled_volume (alloc t n ms) + volume (remaining t n ms) = volume ms"
proof (induction t n ms rule: alloc.induct)
  case (2 t n m ms)
  then show ?case using unat_minus_le [of n "o_amount m"] by (auto simp: not_le order.strict_implies_order)
qed simp

lemma alloc_member:
  assumes "(m, k) \<in> set (alloc t n ms)" and "\<forall>m \<in> set ms. o_amount m \<noteq> 0"
  shows "m \<in> set ms \<and> o_trader m \<noteq> t \<and> k \<noteq> 0 \<and> k \<le> o_amount m"
  using assms
  by (induction t n ms rule: alloc.induct) (auto simp: not_le split: if_splits)

lemma alloc_prefix:
  "\<exists>j. map fst (alloc t n ms) = take j (filter (\<lambda>m. o_trader m \<noteq> t) ms)"
proof (induction t n ms rule: alloc.induct)
  case (2 t n m ms)
  consider "n = 0" | "n \<noteq> 0" "o_trader m = t" | "n \<noteq> 0" "o_trader m \<noteq> t" "o_amount m \<le> n"
    | "n \<noteq> 0" "o_trader m \<noteq> t" "\<not> o_amount m \<le> n" by blast
  then show ?case
  proof cases
    case 1
    then show ?thesis by (auto intro: exI [of _ 0])
  next
    case 3
    with 2 obtain j where "map fst (alloc t (n - o_amount m) ms) = take j (filter (\<lambda>m. o_trader m \<noteq> t) ms)"
      by auto
    with 3 show ?thesis by (intro exI [of _ "Suc j"]) simp
  next
    case 4
    then show ?thesis by (intro exI [of _ 1]) simp
  qed (use 2 in auto)
qed simp

lemma alloc_complete: "left_over t n ms \<noteq> 0 \<Longrightarrow> alloc t n ms
    = map (\<lambda>m. (m, o_amount m)) (filter (\<lambda>m. o_trader m \<noteq> t) ms)"
  by (induction t n ms rule: alloc.induct) (auto split: if_splits)

lemma alloc_butlast_full: "(m, k) \<in> set (butlast (alloc t n ms)) \<Longrightarrow> k = o_amount m"
  by (induction t n ms rule: alloc.induct) (auto split: if_splits)

lemma remaining_member:
  assumes "m' \<in> set (remaining t n ms)" and "\<forall>m \<in> set ms. o_amount m \<noteq> 0"
  shows "\<exists>m \<in> set ms. \<exists>a. m' = m\<lparr>o_amount := a\<rparr> \<and> a \<noteq> 0 \<and> a \<le> o_amount m"
  using assms
proof (induction t n ms rule: alloc.induct)
  case (2 t n m ms)
  have same: "\<exists>y \<in> set (m # ms). \<exists>a. x = y\<lparr>o_amount := a\<rparr> \<and> a \<noteq> 0 \<and> a \<le> o_amount y"
    if "x \<in> set (m # ms)" for x
    using 2(4) that by (intro bexI [of _ x] exI [of _ "o_amount x"]) auto
  consider (stop) "n = 0" | (skip) "n \<noteq> 0" "o_trader m = t"
    | (whole) "n \<noteq> 0" "o_trader m \<noteq> t" "o_amount m \<le> n"
    | (part) "n \<noteq> 0" "o_trader m \<noteq> t" "\<not> o_amount m \<le> n" by blast
  then show ?case
  proof cases
    case stop
    then show ?thesis using 2(3) same by simp
  next
    case skip
    then have "m' = m \<or> m' \<in> set (remaining t n ms)" using 2(3) by simp
    then show ?thesis using 2(1) [OF skip] 2(4) same [of m] by auto
  next
    case whole
    then show ?thesis using 2(2) [OF whole] 2(3,4) by auto
  next
    case part
    then have "m' = m\<lparr>o_amount := o_amount m - n\<rparr> \<or> m' \<in> set ms" using 2(3) by simp
    then show ?thesis
    proof
      assume "m' = m\<lparr>o_amount := o_amount m - n\<rparr>"
      then show ?thesis
        using part by (intro bexI [of _ m] exI [of _ "o_amount m - n"]) (auto simp: word_sub_le)
    qed (use same in simp)
  qed
qed simp

lemma remaining_self:
  "left_over t n ms \<noteq> 0 \<Longrightarrow> remaining t n ms = filter (\<lambda>m. o_trader m = t) ms"
  by (induction t n ms rule: alloc.induct) (auto split: if_splits)

lemma resting_simps [simp]:
  "resting [] = []" "resting ((p, os) # ls) = os @ resting ls" "resting (xs @ ys) = resting xs @ resting ys"
  by (simp_all add: resting_def)

lemma resting_split: "resting ls = eligible ok ls @ resting (dropWhile (\<lambda>l. ok (fst l)) ls)"
  by (simp add: resting_def eligible_def flip: concat_append map_append)

lemma resting_remaining_levels:
  "resting (remaining_levels t n ok ls) =
     remaining t n (eligible ok ls) @ resting (dropWhile (\<lambda>l. ok (fst l)) ls)"
proof (induction t n ok ls rule: remaining_levels.induct)
  case (2 t n ok p os ls)
  then show ?case
    using resting_split [of ls ok] by (auto simp: remaining_append Let_def)
qed simp

lemma set_resting_rev [simp]: "set (resting (rev ls)) = set (resting ls)"
  by (auto simp: resting_def)

lemma volume_resting_rev [simp]: "volume (resting (rev ls)) = volume (resting ls)"
  by (induction ls) (auto simp: volume_def)

lemma mset_resting_push: "mset (resting (bt_push p x ls)) = add_mset x (mset (resting ls))"
proof -
  have "mset (resting (bt_alter p (\<lambda>old. case old of None \<Rightarrow> [x] | Some xs \<Rightarrow> xs @ [x]) ls))
      = add_mset x (mset (resting ls))"
    by (induction p "\<lambda>old. case old of None \<Rightarrow> [x] | Some xs \<Rightarrow> xs @ [x]" ls rule: bt_alter.induct) auto
  then show ?thesis by (simp add: bt_push_def)
qed

lemma set_resting_push [simp]: "set (resting (bt_push p x ls)) = insert x (set (resting ls))"
  by (metis mset_resting_push set_mset_add_mset_insert set_mset_mset)

lemma volume_mset: "volume os = (\<Sum>m \<in># mset os. unat (o_amount m))"
  by (simp add: volume_def sum_mset_sum_list flip: mset_map)

lemma volume_push: "volume (resting (bt_push p x ls)) = unat (o_amount x) + volume (resting ls)"
  by (simp add: volume_mset mset_resting_push)

lemma sorted_remaining_levels:
  "sorted_wrt R (map fst ls) \<Longrightarrow> sorted_wrt R (map fst (remaining_levels t n ok ls))"
proof (induction t n ok ls rule: remaining_levels.induct)
  case (2 t n ok p os ls)
  have "\<forall>q \<in> fst ` set ls. R p q" using 2(2) by simp
  then have "\<forall>l \<in> set (remaining_levels t (left_over t n os) ok ls). R p (fst l)"
    using keys_remaining_levels [of t "left_over t n os" ok ls] by blast
  then show ?case
    using 2(1) [OF _ refl] 2(2) by (cases "\<not> ok p \<or> n = 0") (simp_all add: Let_def)
qed simp

text \<open>A predicate on resting orders that survives a partial fill survives the sweep.\<close>

lemma remaining_levels_all:
  assumes "\<And>p m a. P p m \<Longrightarrow> a \<noteq> 0 \<Longrightarrow> a \<le> o_amount m \<Longrightarrow> P p (m\<lparr>o_amount := a\<rparr>)"
    and "\<And>p m. P p m \<Longrightarrow> o_amount m \<noteq> 0"
  shows "\<forall>(p, os) \<in> set ls. \<forall>m \<in> set os. P p m \<Longrightarrow>
    \<forall>(p, os) \<in> set (remaining_levels t n ok ls). \<forall>m \<in> set os. P p m"
proof (induction t n ok ls rule: remaining_levels.induct)
  case (2 t n ok p os ls)
  have "P p m'" if m': "m' \<in> set (remaining t n os)" for m'
  proof -
    have "\<forall>m \<in> set os. o_amount m \<noteq> 0" using 2(2) assms(2) by fastforce
    from remaining_member [OF m' this] obtain m a
      where "m \<in> set os" "m' = m\<lparr>o_amount := a\<rparr>" "a \<noteq> 0" "a \<le> o_amount m" by blast
    then show ?thesis using 2(2) assms(1) by auto
  qed
  then show ?case
    using 2(1) [OF _ refl] 2(2) by (cases "\<not> ok p \<or> n = 0") (auto simp: Let_def)
qed simp

definition order_ok :: "order_side \<Rightarrow> u64 \<Rightarrow> order \<Rightarrow> bool" where
  "order_ok s p m = (o_price m = p \<and> o_side m = s \<and> valid_order m)"

lemma side_ok_alt: "side_ok s ls \<longleftrightarrow> bt_ok ls \<and> (\<forall>(p, os) \<in> set ls. \<forall>m \<in> set os. order_ok s p m)"
  by (simp add: side_ok_def order_ok_def)

lemma order_ok_reduce: "order_ok s p m \<Longrightarrow> a \<noteq> 0 \<Longrightarrow> a \<le> o_amount m \<Longrightarrow> order_ok s p (m\<lparr>o_amount := a\<rparr>)"
  unfolding order_ok_def valid_order_def
  by (auto simp: word_le_nat_alt intro: le_less_trans [OF mult_le_mono1])

lemma side_ok_push:
  assumes "side_ok s ls" and "order_ok s p x" shows "side_ok s (bt_push p x ls)"
proof -
  have "\<forall>(q, os) \<in> set (bt_alter p f ls). \<forall>m \<in> set os. order_ok s q m"
    if "\<forall>(q, os) \<in> set ls. \<forall>m \<in> set os. order_ok s q m"
      and "f = (\<lambda>old. case old of None \<Rightarrow> [x] | Some xs \<Rightarrow> xs @ [x])" for f
    using that assms(2) by (induction p f ls rule: bt_alter.induct) auto
  then show ?thesis using assms(1) by (simp add: side_ok_alt bt_push_def bt_ok_alter)
qed

lemma side_ok_remaining:
  "side_ok s ls \<Longrightarrow> side_ok s (remaining_levels t n ok ls)"
  "side_ok s (rev ls) \<Longrightarrow> side_ok s (rev (remaining_levels t n ok ls))"
  using remaining_levels_all [of "order_ok s" ls t n ok] order_ok_reduce sorted_remaining_levels
  by (auto simp: side_ok_alt rev_map [symmetric] sorted_wrt_rev order_ok_def valid_order_def)

section \<open>The book invariant\<close>

lemma side_ok_member: "side_ok s ls \<Longrightarrow> m \<in> set (resting ls) \<Longrightarrow> o_side m = s \<and> valid_order m"
  by (fastforce simp: side_ok_def resting_def)

lemma opposite_members: "book_ok b \<Longrightarrow> m \<in> set (resting (opposite order b)) \<Longrightarrow> valid_order m"
  by (auto simp: book_ok_def opposite_def dest: side_ok_member split: order_side.splits)

lemma makers_members:
  assumes "book_ok b" and "m \<in> set (makers order b)"
  shows "m \<in> set (resting (opposite order b)) \<and> crosses order (o_price m) \<and> valid_order m"
proof -
  from assms(2) obtain p os where l: "(p, os) \<in> set (takeWhile (\<lambda>l. crosses order (fst l)) (opposite order b))"
    and m: "m \<in> set os" by (auto simp: makers_def eligible_def)
  have "levels_ok (opposite order b)"
    using assms(1) side_ok_levels_ok by (auto simp: book_ok_def opposite_def split: order_side.splits)
  then have "o_price m = p" using l m by (fastforce simp: levels_ok_def dest: set_takeWhileD)
  moreover have "m \<in> set (resting (opposite order b))"
    using set_takeWhileD [OF l] m by (force simp: resting_def)
  ultimately show ?thesis
    using l assms(1) opposite_members by (auto dest: set_takeWhileD)
qed

lemma fills_member:
  assumes "book_ok b" and "(m, k) \<in> set (fills order b)"
  shows "m \<in> set (makers order b) \<and> o_trader m \<noteq> o_trader order \<and> k \<noteq> 0 \<and> k \<le> o_amount m"
  using alloc_member assms(2) makers_members [OF assms(1)]
  unfolding fills_def valid_order_def by blast

lemma opposite_after_resting:
  "resting (opposite_after order b) =
     remaining (o_trader order) (o_amount order) (makers order b)
     @ resting (dropWhile (\<lambda>l. crosses order (fst l)) (opposite order b))"
  by (simp add: opposite_after_def resting_remaining_levels makers_def)

lemma opposite_after_member:
  assumes "book_ok b" and "m' \<in> set (resting (opposite_after order b))"
  shows "\<exists>m \<in> set (resting (opposite order b)). o_price m' = o_price m \<and> o_trader m' = o_trader m"
proof -
  have "\<forall>m \<in> set (makers order b). o_amount m \<noteq> 0"
    using makers_members [OF assms(1)] by (auto simp: valid_order_def)
  then have "\<exists>m \<in> set (makers order b). o_price m' = o_price m \<and> o_trader m' = o_trader m"
    if "m' \<in> set (remaining (o_trader order) (o_amount order) (makers order b))"
    using remaining_member [OF that] by auto
  moreover have "set (resting (opposite order b)) = set (makers order b)
      \<union> set (resting (dropWhile (\<lambda>l. crosses order (fst l)) (opposite order b)))"
    using resting_split [of "opposite order b" "crosses order"] by (simp add: makers_def)
  ultimately show ?thesis
    using assms(2) by (auto simp: opposite_after_resting)
qed

lemma dropWhile_none:
  "sorted_wrt R xs \<Longrightarrow> (\<And>x y. R x y \<Longrightarrow> P y \<Longrightarrow> P x) \<Longrightarrow> y \<in> set (dropWhile P xs) \<Longrightarrow> \<not> P y"
  by (induction xs) (auto split: if_splits)

lemma beyond_limit:
  assumes "book_ok b" and "(p, os) \<in> set (dropWhile (\<lambda>l. crosses order (fst l)) (opposite order b))"
  shows "\<not> crosses order p"
proof (cases "o_side order")
  case Buy
  have "sorted_wrt (\<lambda>l l'. fst l < fst l') (asks b)"
    using assms(1) by (simp add: book_ok_def side_ok_def sorted_wrt_map)
  from dropWhile_none [OF this, of "\<lambda>l. crosses order (fst l)" "(p, os)"] show ?thesis
    using assms(2) Buy by (auto simp: opposite_def crosses_def)
next
  case Sell
  have "sorted_wrt (\<lambda>l l'. fst l' < fst l) (rev (bids b))"
    using assms(1) by (simp add: book_ok_def side_ok_def sorted_wrt_map sorted_wrt_rev)
  from dropWhile_none [OF this, of "\<lambda>l. crosses order (fst l)" "(p, os)"] show ?thesis
    using assms(2) Sell by (auto simp: opposite_def crosses_def)
qed

text \<open>If anything of the order is left, only the trader's own orders are left within its limit.\<close>

lemma opposite_after_self:
  assumes "book_ok b" and "unfilled order b \<noteq> 0" and "m' \<in> set (resting (opposite_after order b))"
    and "crosses order (o_price m')"
  shows "o_trader m' = o_trader order"
proof -
  have lv: "levels_ok (opposite order b)"
    using assms(1) side_ok_levels_ok by (auto simp: book_ok_def opposite_def split: order_side.splits)
  have "m' \<notin> set (resting (dropWhile (\<lambda>l. crosses order (fst l)) (opposite order b)))"
  proof
    assume "m' \<in> set (resting (dropWhile (\<lambda>l. crosses order (fst l)) (opposite order b)))"
    then obtain p os where l: "(p, os) \<in> set (dropWhile (\<lambda>l. crosses order (fst l)) (opposite order b))"
      and "m' \<in> set os" by (auto simp: resting_def)
    then have "o_price m' = p" using lv by (fastforce simp: levels_ok_def dest: set_dropWhileD)
    with beyond_limit [OF assms(1) l] assms(4) show False by simp
  qed
  then show ?thesis
    using assms(2,3) remaining_self by (auto simp: opposite_after_resting unfilled_def)
qed

lemma side_ok_opposite_after:
  assumes "book_ok b"
  shows "o_side order = Buy \<Longrightarrow> side_ok Sell (opposite_after order b)"
    and "o_side order = Sell \<Longrightarrow> side_ok Buy (rev (opposite_after order b))"
  using assms side_ok_remaining by (auto simp: book_ok_def opposite_after_def opposite_def)

lemma order_ok_rest:
  assumes "valid_order order" and "unfilled order b \<noteq> 0"
  shows "order_ok (o_side order) (o_price order) (order\<lparr>o_amount := unfilled order b\<rparr>)"
proof (rule order_ok_reduce)
  show "unfilled order b \<le> o_amount order"
    using alloc_left_over [of "o_trader order" "o_amount order" "makers order b"]
    by (simp add: unfilled_def word_le_nat_alt)
qed (use assms in \<open>simp_all add: order_ok_def\<close>)

lemma uncrossedD: "book_ok b \<Longrightarrow> x \<in> set (resting (bids b)) \<Longrightarrow> y \<in> set (resting (asks b)) \<Longrightarrow>
    o_price y \<le> o_price x \<Longrightarrow> o_trader x = o_trader y"
  by (auto simp: book_ok_def uncrossed_def)

lemma book_ok_spec_book:
  assumes "book_ok b" and "valid_order order"
  shows "book_ok (spec_book order b)"
proof (cases "o_side order")
  case Buy
  note after = opposite_after_member [OF assms(1), of _ order]
    and self = opposite_after_self [OF assms(1), of order]
  have opp: "opposite order b = asks b" and cr: "crosses order p = (p \<le> o_price order)" for p
    using Buy by (simp_all add: opposite_def crosses_def)
  have "o_trader x = o_trader y"
    if x: "x \<in> set (resting (bids (spec_book order b)))" and y: "y \<in> set (resting (asks (spec_book order b)))"
      and le: "o_price y \<le> o_price x" for x y
  proof -
    have y': "y \<in> set (resting (opposite_after order b))" using y by (simp add: spec_book_def Buy Let_def)
    have "x \<in> set (resting (bids b)) \<or> (unfilled order b \<noteq> 0 \<and> x = order\<lparr>o_amount := unfilled order b\<rparr>)"
      using x by (auto simp: spec_book_def Buy Let_def split: if_splits)
    then show ?thesis
      using after [OF y'] self [OF _ y'] uncrossedD [OF assms(1), of x] le unfolding opp cr by auto
  qed
  then have "uncrossed (spec_book order b)" by (simp add: uncrossed_def)
  then show ?thesis
    using assms side_ok_opposite_after(1) [OF assms(1) Buy] order_ok_rest [OF assms(2), of b] side_ok_push
    by (auto simp: book_ok_def spec_book_def Buy Let_def)
next
  case Sell
  note after = opposite_after_member [OF assms(1), of _ order]
    and self = opposite_after_self [OF assms(1), of order]
  have opp: "opposite order b = rev (bids b)" and cr: "crosses order p = (o_price order \<le> p)" for p
    using Sell by (simp_all add: opposite_def crosses_def)
  have "o_trader x = o_trader y"
    if x: "x \<in> set (resting (bids (spec_book order b)))" and y: "y \<in> set (resting (asks (spec_book order b)))"
      and le: "o_price y \<le> o_price x" for x y
  proof -
    have x': "x \<in> set (resting (opposite_after order b))" using x by (simp add: spec_book_def Sell Let_def)
    have "y \<in> set (resting (asks b)) \<or> (unfilled order b \<noteq> 0 \<and> y = order\<lparr>o_amount := unfilled order b\<rparr>)"
      using y by (auto simp: spec_book_def Sell Let_def split: if_splits)
    then show ?thesis
      using after [OF x'] self [OF _ x'] uncrossedD [OF assms(1), of _ y] le unfolding opp cr by auto
  qed
  then have "uncrossed (spec_book order b)" by (simp add: uncrossed_def)
  then show ?thesis
    using assms side_ok_opposite_after(2) [OF assms(1) Sell] order_ok_rest [OF assms(2), of b] side_ok_push
    by (auto simp: book_ok_def spec_book_def Sell Let_def)
qed

lemma book_ok_add_order_at: "book_ok b \<Longrightarrow> book_ok (fst (add_order_at order ts b))"
  using book_ok_spec_book add_order_at_spec add_order_at_rejected by (cases "valid_order order") auto

section \<open>Cancellation and reachable books\<close>

lemma remove_first:
  assumes "x \<in> f ` set xs"
  shows "\<exists>us y vs. xs = us @ y # vs \<and> f y = x \<and> x \<notin> f ` set us
    \<and> remove_at (length (takeWhile (\<lambda>z. f z \<noteq> x) xs)) xs = us @ vs"
  using assms
proof (induction xs)
  case (Cons a xs)
  show ?case
  proof (cases "f a = x")
    case True
    then show ?thesis by (intro exI [of _ "[]"] exI [of _ a] exI [of _ xs]) (simp add: remove_at_def)
  next
    case False
    with Cons obtain us y vs where "xs = us @ y # vs" "f y = x" "x \<notin> f ` set us"
      "remove_at (length (takeWhile (\<lambda>z. f z \<noteq> x) xs)) xs = us @ vs" by auto
    with False show ?thesis
      by (intro exI [of _ "a # us"] exI [of _ y] exI [of _ vs]) (simp add: remove_at_def)
  qed
qed simp

lemma cancel_in_None: "cancel_in oid ls = None \<longleftrightarrow> oid \<notin> o_id ` set (resting ls)"
  by (induction oid ls rule: cancel_in.induct) auto

lemma cancel_in_Some:
  "cancel_in oid ls = Some ls' \<Longrightarrow>
     (\<exists>us y vs. resting ls = us @ y # vs \<and> o_id y = oid \<and> oid \<notin> o_id ` set us \<and> resting ls' = us @ vs)
     \<and> map fst ls' = map fst ls"
proof (induction oid ls arbitrary: ls' rule: cancel_in.induct)
  case (2 oid p os ls)
  show ?case
  proof (cases "oid \<in> o_id ` set os")
    case True
    from remove_first [OF this] obtain us y vs where "os = us @ y # vs" "o_id y = oid" "oid \<notin> o_id ` set us"
      "remove_at (length (takeWhile (\<lambda>z. o_id z \<noteq> oid) os)) os = us @ vs" by blast
    with True 2(2) show ?thesis
      by (intro conjI exI [of _ us] exI [of _ y] exI [of _ "vs @ resting ls"]) auto
  next
    case False
    with 2(2) obtain l1 where l1: "cancel_in oid ls = Some l1" "ls' = (p, os) # l1" by auto
    with 2(1) [OF False l1(1)] obtain us y vs where
      "resting ls = us @ y # vs" "o_id y = oid" "oid \<notin> o_id ` set us" "resting l1 = us @ vs"
      "map fst l1 = map fst ls" by blast
    with False l1 show ?thesis
      by (intro conjI exI [of _ "os @ us"] exI [of _ y] exI [of _ vs]) auto
  qed
qed simp

lemma set_remove_at: "set (remove_at i xs) \<subseteq> set xs"
  using set_take_subset set_drop_subset by (fastforce simp: remove_at_def)

lemma cancel_in_all:
  "cancel_in oid ls = Some ls' \<Longrightarrow> \<forall>(p, os) \<in> set ls. \<forall>m \<in> set os. P p m \<Longrightarrow>
     \<forall>(p, os) \<in> set ls'. \<forall>m \<in> set os. P p m"
proof (induction oid ls arbitrary: ls' rule: cancel_in.induct)
  case (2 oid p os ls)
  then show ?case
    by (auto split: if_splits dest!: subsetD [OF set_remove_at]) fastforce+
qed simp

lemma side_ok_cancel: "cancel_in oid ls = Some ls' \<Longrightarrow> side_ok s ls \<Longrightarrow> side_ok s ls'"
  using cancel_in_Some [of oid ls ls'] cancel_in_all [of oid ls ls' "order_ok s"]
  by (simp add: side_ok_alt)

lemma book_ok_cancel_order: "book_ok b \<Longrightarrow> book_ok (fst (cancel_order oid b))"
proof -
  assume ok: "book_ok b"
  have sub: "set (resting ls') \<subseteq> set (resting ls)" if "cancel_in oid ls = Some ls'" for ls ls'
    using cancel_in_Some [OF that] by auto
  show ?thesis
    using ok sub [of "bids b"] sub [of "asks b"] side_ok_cancel
    by (auto simp: cancel_order_def book_ok_def uncrossed_def split: option.splits) blast+
qed

text \<open>The books a program can reach through the public operations.\<close>

inductive book_reach :: "order_book \<Rightarrow> bool" where
  new: "book_reach (new_book s)"
| add: "book_reach b \<Longrightarrow> book_reach (fst (add_order_at order ts b))"
| cancel: "book_reach b \<Longrightarrow> book_reach (fst (cancel_order oid b))"
| nodes: "book_reach b \<Longrightarrow> book_reach (set_active_nodes ns b)"
| fees: "book_reach b \<Longrightarrow> book_reach (set_fee_calculator c b)"
| cursor: "book_reach b \<Longrightarrow> book_reach (restore_active_nodes_cursor i b)"

lemma book_ok_reach: "book_reach b \<Longrightarrow> book_ok b"
proof (induction rule: book_reach.induct)
  case (new s)
  then show ?case by (simp add: book_ok_def side_ok_def uncrossed_def new_book_def)
qed (simp_all add: book_ok_add_order_at book_ok_cancel_order,
     simp_all add: book_ok_def uncrossed_def set_active_nodes_def set_fee_calculator_def
       restore_active_nodes_cursor_def)

section \<open>Facts about the matches\<close>

lemma stamp_member:
  "x \<in> set (stamp ts b t ak) \<Longrightarrow> \<exists>m k b'. (m, k) \<in> set ak \<and> x = match_of ts b' t m k
     \<and> symbol b' = symbol b \<and> fee_calc b' = fee_calc b \<and> active_nodes b' = active_nodes b"
proof (induction ak arbitrary: b)
  case (Cons mk ak)
  obtain m k where mk: "mk = (m, k)" by (cases mk)
  from Cons.prems mk consider "x = match_of ts b t m k"
    | "x \<in> set (stamp ts (account t (m, k) b) t ak)" by auto
  then show ?case
  proof cases
    case 1
    then show ?thesis using mk by auto
  next
    case 2
    from Cons.IH [OF this] show ?thesis by auto
  qed
qed simp

lemma length_stamp [simp]: "length (stamp ts b t ak) = length ak"
  by (induction ak arbitrary: b) auto

lemma stamp_amounts: "map (\<lambda>x. (m_maker_order_id x, m_price x, m_amount x)) (stamp ts b t ak)
    = map (\<lambda>(m, k). (o_id m, o_price m, k)) ak"
  by (induction ak arbitrary: b) (auto simp: match_of_def split: prod.splits)

lemma deadline_no_wrap:
  "unat (ts div 1000000 + deadline_seconds tier) = unat (ts :: u64) div 1000000 + unat (deadline_seconds tier)"
proof -
  have "unat ts div 1000000 \<le> 18446744073709"
    using unat_less_pow [of ts] by simp
  moreover have "unat (deadline_seconds tier) \<le> 86400" by (cases tier) simp_all
  ultimately show ?thesis by (simp add: unat_word_ariths unat_div)
qed

lemma resolve_cases:
  assumes "resolve_settlement_params t m s c = (tier, bps, seller, payer, dl)"
  shows "bps = calculate_fee_basis_points c tier \<and> dl = s + deadline_seconds tier
    \<and> seller \<in> {o_trader t, o_trader m} \<and> payer \<in> {o_trader t, o_trader m}
    \<and> (o_side t \<noteq> o_side m \<longrightarrow> seller = (if o_side t = Sell then o_trader t else o_trader m))"
  using assms
  by (auto simp: resolve_settlement_params_def Let_def split: settlement_requester.splits if_splits)

definition node_at :: "order_book \<Rightarrow> nat \<Rightarrow> bytes32" where
  "node_at b i = active_nodes b ! ((unat (next_node_index b) + i) mod length (active_nodes b))"

definition cursor_ok :: "order_book \<Rightarrow> bool" where
  "cursor_ok b = (active_nodes b \<noteq> [] \<and> length (active_nodes b) < 2 ^ 64
     \<and> unat (next_node_index b) < length (active_nodes b))"

lemma assign_node_eq:
  assumes "cursor_ok b"
  shows "fst (assign_node (active_nodes b) (next_node_index b)) = node_at b 0"
    and "unat (snd (assign_node (active_nodes b) (next_node_index b)))
       = (unat (next_node_index b) + 1) mod length (active_nodes b)"
proof -
  let ?n = "length (active_nodes b)" and ?c = "next_node_index b"
  have len: "unat (word_of_nat ?n :: u64) = ?n" using assms by (simp add: cursor_ok_def unat_of_nat)
  have "unat (?c + 1) = unat ?c + 1" using assms by (simp add: cursor_ok_def unat_word_ariths)
  then show "unat (snd (assign_node (active_nodes b) ?c)) = (unat ?c + 1) mod ?n"
    using assms by (simp add: assign_node_def Let_def unat_mod len cursor_ok_def)
  show "fst (assign_node (active_nodes b) ?c) = node_at b 0"
    using assms by (simp add: assign_node_def Let_def unat_mod len cursor_ok_def node_at_def)
qed

lemma account_cursor:
  assumes "cursor_ok b"
  shows "cursor_ok (account t mk b) \<and> node_at (account t mk b) i = node_at b (Suc i)"
proof -
  have n: "unat (next_node_index (account t mk b))
      = (unat (next_node_index b) + 1) mod length (active_nodes b)"
    using assign_node_eq(2) [OF assms] by (simp add: account_def Let_def split: prod.splits)
  then show ?thesis using assms by (simp add: cursor_ok_def node_at_def mod_add_left_eq)
qed

lemma stamp_nodes: "cursor_ok b \<Longrightarrow> i < length ak \<Longrightarrow> m_assigned_node (stamp ts b t ak ! i) = node_at b i"
proof (induction ak arbitrary: b i)
  case (Cons mk ak)
  obtain m k where "mk = (m, k)" by (cases mk)
  then show ?case
    using Cons account_cursor [OF Cons.prems(1)] assign_node_eq(1) [OF Cons.prems(1)]
    by (cases i) (auto simp: match_of_def split: prod.splits)
qed simp

lemma stamp_rewards:
  "node_rewards (fold (account t) ak b) = node_rewards b +
     (\<Sum>x \<leftarrow> stamp ts b t ak. compute_fee_amount_dynamic (fee_calc b) (m_amount x) (m_price x) (m_settlement_tier x))"
proof (induction ak arbitrary: b)
  case (Cons mk ak)
  obtain m k where mk: "mk = (m, k)" by (cases mk)
  have "m_settlement_tier (match_of ts b t m k) = fst (resolve_settlement_params t m 0 (fee_calc b))"
    using fst_resolve_time [of t m "ts div 1000000" "fee_calc b"]
    by (auto simp: match_of_def split: prod.splits)
  then show ?case
    using Cons [of "account t (m, k) b"] mk
    by (auto simp: account_def match_of_def Let_def split: prod.splits)
qed simp

section \<open>Sequences of submissions\<close>

text \<open>
  A matcher as its clients see it: an invariant that every submission keeps and a promise about
  every match it emits. Clients that feed a whole sequence of orders (replay, batch application)
  rely on nothing else.
\<close>

fun run_orders :: "('o \<Rightarrow> 't \<Rightarrow> 's \<Rightarrow> 's \<times> 'm list) \<Rightarrow> ('o \<times> 't) list \<Rightarrow> 's \<Rightarrow> 's \<times> 'm list" where
  "run_orders submit [] s = (s, [])"
| "run_orders submit ((x, t) # xs) s =
     (let (s1, ms) = submit x t s; (s2, ms') = run_orders submit xs s1 in (s2, ms @ ms'))"

locale matcher =
  fixes submit :: "'o \<Rightarrow> 't \<Rightarrow> 's \<Rightarrow> 's \<times> 'm list"
    and inv :: "'s \<Rightarrow> bool"
    and good :: "'m \<Rightarrow> bool"
  assumes inv_submit: "inv s \<Longrightarrow> inv (fst (submit x t s))"
    and good_submit: "inv s \<Longrightarrow> m \<in> set (snd (submit x t s)) \<Longrightarrow> good m"
begin

lemma run_inv: "inv s \<Longrightarrow> inv (fst (run_orders submit xs s))"
proof (induction xs arbitrary: s)
  case (Cons xt xs)
  then show ?case
    using inv_submit [of s "fst xt" "snd xt"] by (cases xt) (fastforce split: prod.splits)
qed simp

lemma run_good: "inv s \<Longrightarrow> m \<in> set (snd (run_orders submit xs s)) \<Longrightarrow> good m"
proof (induction xs arbitrary: s)
  case (Cons xt xs)
  obtain x t where xt: "xt = (x, t)" by (cases xt)
  obtain s1 ms s2 ms' where r: "submit x t s = (s1, ms)" "run_orders submit xs s1 = (s2, ms')"
    by (cases "submit x t s"; cases "run_orders submit xs (fst (submit x t s))") auto
  then show ?case
    using Cons.IH [of s1] Cons.prems xt inv_submit [of s x t] good_submit [of s m x t] by auto
qed simp

lemma run_append: "run_orders submit (xs @ ys) s =
    (let (s1, ms) = run_orders submit xs s; (s2, ms') = run_orders submit ys s1 in (s2, ms @ ms'))"
  by (induction submit xs s rule: run_orders.induct) (auto split: prod.splits)

end

text \<open>What every consumer of a match may rely on.\<close>

definition sane_match :: "match_rec \<Rightarrow> bool" where
  "sane_match m = (m_maker_trader m \<noteq> m_taker_trader m \<and> m_amount m \<noteq> 0 \<and> m_price m \<noteq> 0
     \<and> unat (m_price m) * unat (m_amount m) < 2 ^ 64
     \<and> unat (m_fee_basis_points m) \<in> {1..500}
     \<and> m_seller m \<in> {m_maker_trader m, m_taker_trader m}
     \<and> m_fee_payer m \<in> {m_maker_trader m, m_taker_trader m}
     \<and> unat (m_settlement_deadline m)
         = unat (m_timestamp_us m) div 1000000 + unat (deadline_seconds (m_settlement_tier m)))"

lemma sane_match_of:
  assumes "valid_order m" and "o_trader m \<noteq> o_trader t" and "k \<noteq> 0" and "k \<le> o_amount m"
  shows "sane_match (match_of ts b t m k)"
proof -
  obtain tier bps seller payer dl where r:
    "resolve_settlement_params t m (ts div 1000000) (fee_calc b) = (tier, bps, seller, payer, dl)"
    by (metis prod_cases5)
  have le: "unat (o_price m) * unat k \<le> unat (o_amount m) * unat (o_price m)"
    using assms(4) by (simp add: word_le_nat_alt mult.commute)
  have "unat (o_price m) * unat k < 2 ^ 64"
    using le_less_trans [OF le] assms(1) unfolding valid_order_def by blast
  then show ?thesis
    using assms resolve_cases [OF r] calculate_fee_basis_points_range [of "fee_calc b" tier]
      deadline_no_wrap [of ts tier]
    by (auto simp: sane_match_def match_of_def r valid_order_def)
qed

lemma sane_match_add_order_at:
  assumes "book_ok b" and "x \<in> set (snd (add_order_at order ts b))"
  shows "sane_match x"
proof -
  have v: "valid_order order" using assms(2) add_order_at_rejected by fastforce
  have "x \<in> set (stamp ts b order (fills order b))" using assms add_order_at_spec [OF assms(1) v] by simp
  from stamp_member [OF this] obtain m k b' where
    mk: "(m, k) \<in> set (fills order b)" "x = match_of ts b' order m k" by blast
  from fills_member [OF assms(1) mk(1)] makers_members [OF assms(1), of m order] mk(2) show ?thesis
    by (auto intro: sane_match_of)
qed

interpretation book: matcher add_order_at book_ok sane_match
  by unfold_locales (auto intro: book_ok_add_order_at sane_match_add_order_at)

lemma filled_volume_stamp: "(\<Sum>x \<leftarrow> stamp ts b t ak. unat (m_amount x)) = filled_volume ak"
  by (induction ak arbitrary: b) (auto simp: match_of_def split: prod.splits)

lemma volume_opposite_after:
  "filled_volume (fills order b) + volume (resting (opposite_after order b)) = volume (resting (opposite order b))"
proof -
  have "resting (opposite order b) =
      makers order b @ resting (dropWhile (\<lambda>l. crosses order (fst l)) (opposite order b))"
    unfolding makers_def by (rule resting_split)
  then show ?thesis
    using volume_remaining [of "o_trader order" "o_amount order" "makers order b"]
    by (simp add: opposite_after_resting fills_def)
qed

lemma levels_flat_sorted:
  fixes R :: "order \<Rightarrow> order \<Rightarrow> bool"
  assumes across: "\<And>x y. R' (o_price x) (o_price y) \<Longrightarrow> R x y"
    and within: "\<And>x y. o_price x = o_price y \<Longrightarrow> R x y"
  shows "sorted_wrt (\<lambda>l l'. R' (fst l) (fst l')) ls \<Longrightarrow> levels_ok ls \<Longrightarrow> sorted_wrt R (concat (map snd ls))"
proof (induction ls)
  case (Cons l ls)
  obtain p os where l: "l = (p, os)" by (cases l)
  have "sorted_wrt R os" using Cons.prems(2) l within by (auto simp: sorted_wrt_iff_nth_less)
  moreover have "R x y" if "x \<in> set os" "l' \<in> set ls" "y \<in> set (snd l')" for x l' y
  proof -
    have "o_price x = p" "o_price y = fst l'" using Cons.prems(2) l that by (auto simp: levels_ok_def)
    then show ?thesis using Cons.prems(1) l that across by auto
  qed
  ultimately show ?case using Cons l by (auto simp: sorted_wrt_append)
qed simp

lemma makers_sorted:
  assumes "book_ok b"
  shows "sorted_wrt (\<lambda>x y. case o_side order of Buy \<Rightarrow> o_price x \<le> o_price y
                                            | Sell \<Rightarrow> o_price y \<le> o_price x) (makers order b)"
proof -
  have tw: "sorted_wrt P (takeWhile Q xs)" if "sorted_wrt P xs" for P Q and xs :: levels
    using that by (induction xs) (auto dest: set_takeWhileD)
  have lt: "levels_ok (takeWhile Q ls)" if "levels_ok ls" for Q ls
    using that by (auto simp: levels_ok_def dest!: set_takeWhileD)
  show ?thesis
  proof (cases "o_side order")
    case Buy
    have "sorted_wrt (\<lambda>l l'. fst l < fst l') (asks b)" "levels_ok (asks b)"
      using assms side_ok_levels_ok by (auto simp: book_ok_def side_ok_def sorted_wrt_map)
    then show ?thesis
      unfolding makers_def eligible_def opposite_def Buy order_side.case
      by (intro levels_flat_sorted [where R' = "(<)"] tw lt) auto
  next
    case Sell
    have "sorted_wrt (\<lambda>l l'. fst l' < fst l) (rev (bids b))" "levels_ok (rev (bids b))"
      using assms side_ok_levels_ok
      by (auto simp: book_ok_def side_ok_def sorted_wrt_map sorted_wrt_rev)
    then show ?thesis
      unfolding makers_def eligible_def opposite_def Sell order_side.case
      by (intro levels_flat_sorted [where R' = "\<lambda>p q. q < p"] tw lt) auto
  qed
qed

section \<open>Properties\<close>

definition demo_order :: "order_side \<Rightarrow> u8 \<Rightarrow> u8 \<Rightarrow> u64 \<Rightarrow> u64 \<Rightarrow> order" where
  "demo_order side oid trader price amount =
     \<lparr>o_id = replicate 32 oid, o_trader = replicate 32 trader, o_symbol = ''BTC-USD'', o_side = side,
      o_price = price, o_amount = amount, o_signature = [], o_nonce = 1, o_expiry = 0,
      o_settlement_preference = Standard, o_settlement_requester = Seller\<rparr>"

definition demo_book :: order_book where
  "demo_book = (new_book ''BTC-USD'')\<lparr>asks := [(10, [demo_order Sell 1 1 10 5])],
     bids := [(7, [demo_order Buy 2 2 7 3])], active_nodes := [replicate 32 7, replicate 32 8]\<rparr>"

lemma demo_book_ok: "book_ok demo_book"
  by (simp add: book_ok_def demo_book_def new_book_def side_ok_def valid_order_def demo_order_def
      uncrossed_def resting_def)

text \<open>C1. The matching loops implement the specification: a rejected order changes nothing; an
  accepted one produces exactly the matches of the allocation over the makers in price-time
  priority, leaves the opposite side with exactly what the allocation did not take, and rests its
  own remainder at its price.\<close>

theorem add_order_at_refines_spec:
  assumes "book_ok b"
  shows "add_order_at order ts b =
    (if valid_order order then (spec_book order b, stamp ts b order (fills order b)) else (b, []))"
  using assms by (simp add: add_order_at_spec add_order_at_rejected)

theorem add_order_at_refines_spec_witness:
  "add_order_at (demo_order Buy 3 3 12 2) 5 demo_book =
     (spec_book (demo_order Buy 3 3 12 2) demo_book,
      stamp 5 demo_book (demo_order Buy 3 3 12 2) [(demo_order Sell 1 1 10 5, 2)])"
proof -
  have "fills (demo_order Buy 3 3 12 2) demo_book = [(demo_order Sell 1 1 10 5, 2)]"
    by (simp add: fills_def makers_def opposite_def crosses_def demo_order_def demo_book_def)
  moreover have "valid_order (demo_order Buy 3 3 12 2)" by (simp add: valid_order_def demo_order_def)
  ultimately show ?thesis using add_order_at_refines_spec [OF demo_book_ok] by simp
qed

text \<open>C7. Every book reachable through the public operations is well formed: both sides are
  strictly sorted, every resting order sits at its own price on its own side with a non-zero
  amount and a notional below 2^64, and no bid meets an ask of another trader.\<close>

theorem reachable_book_ok:
  assumes "book_reach b" shows "book_ok b"
  using assms by (rule book_ok_reach)

theorem reachable_book_ok_witness:
  "book_ok (fst (cancel_order (replicate 32 2) (fst (add_order_at (demo_order Sell 2 2 7 3) 1
     (set_active_nodes [zero32] (new_book ''X''))))))"
  by (intro reachable_book_ok book_reach.intros)

text \<open>C19. Price-time priority: the makers are offered in price order from the best, the matched ones
  are a prefix of those of other traders, every match but the last exhausts its maker, and the
  order only rests when no such maker is left.\<close>

theorem price_time_priority:
  fixes ts :: u64 and order :: order and b :: order_book
  assumes "book_ok b" and "valid_order order"
  defines "ms \<equiv> snd (add_order_at order ts b)"
    and "others \<equiv> filter (\<lambda>m. o_trader m \<noteq> o_trader order) (makers order b)"
  shows "sorted_wrt (\<lambda>x y. case o_side order of Buy \<Rightarrow> o_price x \<le> o_price y
                                            | Sell \<Rightarrow> o_price y \<le> o_price x) others
    \<and> map (\<lambda>x. (m_maker_order_id x, m_price x)) ms
        = take (length ms) (map (\<lambda>m. (o_id m, o_price m)) others)
    \<and> (\<forall>i < length ms - 1. m_amount (ms ! i) = o_amount (others ! i))
    \<and> (unfilled order b \<noteq> 0 \<longrightarrow> map m_amount ms = map o_amount others)"
proof -
  let ?ak = "fills order b"
  have ms: "ms = stamp ts b order ?ak" using add_order_at_spec [OF assms(1,2)] by (simp add: ms_def)
  obtain j where j: "map fst ?ak = take j others"
    using alloc_prefix unfolding fills_def others_def by blast
  then have pre: "map fst ?ak = take (length ?ak) others"
    by (metis length_map length_take min.cobounded2 take_all_iff take_take min.absorb2 nle_le)
  have core: "map (\<lambda>x. (m_maker_order_id x, m_price x, m_amount x)) ms = map (\<lambda>(m, k). (o_id m, o_price m, k)) ?ak"
    unfolding ms by (rule stamp_amounts)
  have am: "map m_amount ms = map snd ?ak"
    using arg_cong [OF core, of "map (\<lambda>(a, p, k). k)"] by (simp add: case_prod_beta comp_def)
  have "map (\<lambda>x. (m_maker_order_id x, m_price x)) ms = map (\<lambda>m. (o_id m, o_price m)) (map fst ?ak)"
    using arg_cong [OF core, of "map (\<lambda>(a, p, k). (a, p))"] by (simp add: case_prod_beta comp_def)
  then have ids: "map (\<lambda>x. (m_maker_order_id x, m_price x)) ms = take (length ms) (map (\<lambda>m. (o_id m, o_price m)) others)"
    unfolding pre by (simp add: take_map ms)
  have full: "m_amount (ms ! i) = o_amount (others ! i)" if i: "i < length ms - 1" for i
  proof -
    have len: "i < length ?ak" "i < length (butlast ?ak)" using i by (simp_all add: ms)
    have "butlast ?ak ! i \<in> set (butlast ?ak)" using len(2) by (rule nth_mem)
    then have "(fst (?ak ! i), snd (?ak ! i)) \<in> set (butlast ?ak)" using len by (simp add: nth_butlast)
    then have "snd (?ak ! i) = o_amount (fst (?ak ! i))"
      unfolding fills_def by (rule alloc_butlast_full)
    moreover have "fst (?ak ! i) = others ! i" using pre len by (metis length_map nth_map nth_take)
    moreover have "m_amount (ms ! i) = snd (?ak ! i)" using am len by (metis length_map nth_map)
    ultimately show ?thesis by simp
  qed
  have "map m_amount ms = map o_amount others" if "unfilled order b \<noteq> 0"
    unfolding am using alloc_complete that by (simp add: fills_def unfilled_def others_def comp_def)
  then show ?thesis
    using ids full sorted_wrt_filter [OF makers_sorted [OF assms(1)]] unfolding others_def by blast
qed

theorem price_time_priority_witness:
  "map m_amount (snd (add_order_at (demo_order Buy 3 3 12 9) 5 demo_book)) = [5]"
proof -
  have "valid_order (demo_order Buy 3 3 12 9)" by (simp add: valid_order_def demo_order_def)
  moreover have "unfilled (demo_order Buy 3 3 12 9) demo_book \<noteq> 0"
    "filter (\<lambda>m. o_trader m \<noteq> replicate 32 3) (makers (demo_order Buy 3 3 12 9) demo_book)
     = [demo_order Sell 1 1 10 5]"
    by (simp_all add: unfilled_def makers_def opposite_def crosses_def demo_order_def demo_book_def)
  ultimately show ?thesis
    using price_time_priority [OF demo_book_ok, of "demo_order Buy 3 3 12 9" 5]
    by (simp add: demo_order_def)
qed

text \<open>C26. Conservation: what an accepted order asks for is what it matched plus what it rests, and
  the resting volume of the book changes by exactly that.\<close>

theorem add_order_conserves_volume:
  assumes "book_ok b" and "valid_order order"
    and "add_order_at order ts b = (b', ms)"
  shows "(\<Sum>x \<leftarrow> ms. unat (m_amount x)) + unat (unfilled order b) = unat (o_amount order)
    \<and> volume (resting (bids b')) + volume (resting (asks b')) + 2 * (\<Sum>x \<leftarrow> ms. unat (m_amount x))
        = volume (resting (bids b)) + volume (resting (asks b)) + unat (o_amount order)"
proof -
  have r: "b' = spec_book order b" "ms = stamp ts b order (fills order b)"
    using assms add_order_at_spec by simp_all
  have "filled_volume (fills order b) + unat (unfilled order b) = unat (o_amount order)"
    unfolding fills_def unfilled_def by (rule alloc_left_over)
  then show ?thesis
    using volume_opposite_after [of order b] unfolding r filled_volume_stamp
    by (cases "o_side order") (auto simp: spec_book_def Let_def opposite_def volume_push)
qed

theorem add_order_conserves_volume_witness:
  "(\<Sum>x \<leftarrow> snd (add_order_at (demo_order Buy 3 3 12 9) 5 demo_book). unat (m_amount x)) + 4 = 9"
proof -
  have "valid_order (demo_order Buy 3 3 12 9)" by (simp add: valid_order_def demo_order_def)
  moreover have "unfilled (demo_order Buy 3 3 12 9) demo_book = 4"
    by (simp add: unfilled_def makers_def opposite_def crosses_def demo_order_def demo_book_def)
  ultimately show ?thesis
    using add_order_conserves_volume [OF demo_book_ok, of "demo_order Buy 3 3 12 9" 5]
    by (cases "add_order_at (demo_order Buy 3 3 12 9) 5 demo_book") (simp add: demo_order_def)
qed

text \<open>C27. Every match emitted by any sequence of submissions to a well-formed book trades between
  two different traders, has a non-zero amount and a price times amount below 2^64, carries a fee
  between 1 and 500 basis points charged to one of the two, and a settlement deadline computed
  without overflow.\<close>

theorem submissions_emit_sane_matches:
  assumes "book_ok b" and "x \<in> set (snd (run_orders add_order_at orders b))"
  shows "sane_match x"
  using assms by (rule book.run_good)

theorem submissions_emit_sane_matches_witness:
  "\<exists>x. snd (run_orders add_order_at [(demo_order Buy 3 3 12 9, 5)] demo_book) = [x] \<and> sane_match x"
proof -
  let ?o = "demo_order Buy 3 3 12 9"
  have "valid_order ?o" by (simp add: valid_order_def demo_order_def)
  moreover have "fills ?o demo_book = [(demo_order Sell 1 1 10 5, 5)]"
    by (simp add: fills_def makers_def opposite_def crosses_def demo_order_def demo_book_def)
  ultimately have "snd (run_orders add_order_at [(?o, 5)] demo_book) =
      [match_of 5 demo_book ?o (demo_order Sell 1 1 10 5) 5]"
    by (simp add: add_order_at_spec [OF demo_book_ok])
  then show ?thesis
    using submissions_emit_sane_matches [OF demo_book_ok, of _ "[(?o, 5)]"] by auto
qed

text \<open>Settlement nodes are assigned round robin: with a non-empty node list and the cursor in
  range, the i-th match goes to the node i places after the cursor, cyclically.\<close>

theorem matches_assigned_round_robin:
  assumes "book_ok b" and "cursor_ok b" and "i < length (snd (add_order_at order ts b))"
  shows "m_assigned_node (snd (add_order_at order ts b) ! i) =
    active_nodes b ! ((unat (next_node_index b) + i) mod length (active_nodes b))"
proof -
  have "valid_order order" using assms(3) add_order_at_rejected by fastforce
  then show ?thesis
    using assms stamp_nodes [OF assms(2)] by (simp add: add_order_at_spec node_at_def)
qed

theorem matches_assigned_round_robin_witness:
  "m_assigned_node (snd (add_order_at (demo_order Buy 3 3 12 9) 5 demo_book) ! 0) = replicate 32 7"
proof -
  let ?o = "demo_order Buy 3 3 12 9"
  have "valid_order ?o" by (simp add: valid_order_def demo_order_def)
  moreover have "fills ?o demo_book = [(demo_order Sell 1 1 10 5, 5)]"
    by (simp add: fills_def makers_def opposite_def crosses_def demo_order_def demo_book_def)
  ultimately have "0 < length (snd (add_order_at ?o 5 demo_book))"
    by (simp add: add_order_at_spec [OF demo_book_ok])
  moreover have "cursor_ok demo_book" by (simp add: cursor_ok_def demo_book_def new_book_def)
  ultimately show ?thesis
    using matches_assigned_round_robin [OF demo_book_ok] by (simp add: demo_book_def new_book_def)
qed

text \<open>The rewards counter grows by exactly the sum, modulo 2^64, of the fees of the matches.\<close>

theorem node_rewards_accumulate_fees:
  assumes "book_ok b"
  shows "node_rewards (fst (add_order_at order ts b)) = node_rewards b +
    (\<Sum>x \<leftarrow> snd (add_order_at order ts b).
       compute_fee_amount_dynamic (fee_calc b) (m_amount x) (m_price x) (m_settlement_tier x))"
proof (cases "valid_order order")
  case True
  then show ?thesis
    using stamp_rewards [of order "fills order b" b ts]
    by (cases "o_side order") (simp_all add: add_order_at_spec [OF assms] spec_book_def Let_def)
qed (simp add: add_order_at_rejected)

theorem node_rewards_accumulate_fees_witness:
  "node_rewards (fst (add_order_at (demo_order Buy 3 3 12 0) 5 demo_book)) = 0"
  using node_rewards_accumulate_fees [OF demo_book_ok, of "demo_order Buy 3 3 12 0" 5]
  by (simp add: add_order_at_def demo_order_def demo_book_def new_book_def)

text \<open>Cancellation removes exactly one order, the first with that id in bids-then-asks order,
  keeps every other order and its position, and reports whether there was one.\<close>

theorem cancel_order_removes_one:
  "(oid \<notin> o_id ` set (resting (bids b) @ resting (asks b)) \<longrightarrow> cancel_order oid b = (b, False))
   \<and> (oid \<in> o_id ` set (resting (bids b) @ resting (asks b)) \<longrightarrow>
        snd (cancel_order oid b) \<and>
        (\<exists>us y vs. resting (bids b) @ resting (asks b) = us @ y # vs \<and> o_id y = oid
           \<and> oid \<notin> o_id ` set us
           \<and> resting (bids (fst (cancel_order oid b))) @ resting (asks (fst (cancel_order oid b))) = us @ vs))"
proof (cases "cancel_in oid (bids b)")
  case (Some bs)
  then have c: "cancel_order oid b = (b\<lparr>bids := bs\<rparr>, True)" by (simp add: cancel_order_def)
  obtain us y vs where "resting (bids b) = us @ y # vs" "o_id y = oid" "oid \<notin> o_id ` set us" "resting bs = us @ vs"
    using cancel_in_Some [OF Some] by blast
  then show ?thesis unfolding c by auto
next
  case None
  then have n: "oid \<notin> o_id ` set (resting (bids b))" by (simp add: cancel_in_None)
  show ?thesis
  proof (cases "cancel_in oid (asks b)")
    case (Some as)
    then have c: "cancel_order oid b = (b\<lparr>asks := as\<rparr>, True)" using None by (simp add: cancel_order_def)
    obtain us y vs where "resting (asks b) = us @ y # vs" "o_id y = oid" "oid \<notin> o_id ` set us" "resting as = us @ vs"
      using cancel_in_Some [OF Some] by blast
    then have "resting (bids b) @ resting (asks b) = (resting (bids b) @ us) @ y # vs \<and> o_id y = oid
        \<and> oid \<notin> o_id ` set (resting (bids b) @ us) \<and> resting (bids b) @ resting as = (resting (bids b) @ us) @ vs"
      using n by auto
    then have ex: "\<exists>us y vs. resting (bids b) @ resting (asks b) = us @ y # vs \<and> o_id y = oid
        \<and> oid \<notin> o_id ` set us \<and> resting (bids (b\<lparr>asks := as\<rparr>)) @ resting (asks (b\<lparr>asks := as\<rparr>)) = us @ vs"
      by (intro exI [where x = "resting (bids b) @ us"] exI [where x = y] exI [where x = vs]) simp
    then have "oid \<in> o_id ` set (resting (bids b) @ resting (asks b))" by (metis in_set_conv_decomp image_eqI)
    with ex show ?thesis unfolding c fst_conv snd_conv by blast
  next
    case None
    then have "cancel_order oid b = (b, False)"
      using \<open>cancel_in oid (bids b) = None\<close> by (simp add: cancel_order_def)
    then show ?thesis using n None by (simp add: cancel_in_None image_Un)
  qed
qed

theorem cancel_order_removes_one_witness:
  "snd (cancel_order (replicate 32 1) demo_book)"
  using cancel_order_removes_one [of "replicate 32 1" demo_book]
  by (simp add: demo_book_def new_book_def demo_order_def resting_def)

end
