(* ===== verification/Prover.thy ===== *)
theory Prover
  imports Engine
begin

text \<open>
  The \<^verbatim>\<open>prover\<close> crate: the batch circuit as the rank-1 constraint system it generates, the padded
  witness, the checks of \<^verbatim>\<open>prove_batch\<close> and \<^verbatim>\<open>verify_proof\<close> (\<^verbatim>\<open>bn254.rs\<close>), and the batch signatures
  with the multi-watchtower approval (\<^verbatim>\<open>lib.rs\<close>).

  The scalar field is the integers modulo \<open>FR_MODULUS\<close>. The Groth16 prover and verifier, the field
  and JSON encodings, and Ed25519 are third-party code: they are the fields of a record passed as
  an argument, and what the properties use of them is named in \<open>groth16_laws\<close> and \<open>ed25519_laws\<close>.
\<close>

section \<open>Third-party signatures\<close>

record ed25519 =
  sk_public :: "bytes32 \<Rightarrow> bytes32"
  sk_sign :: "bytes32 \<Rightarrow> bytes \<Rightarrow> bytes"
  vk_from_bytes_ok :: "bytes32 \<Rightarrow> bool"
  sig_from_slice_ok :: "bytes \<Rightarrow> bool"
  vk_verify :: "bytes32 \<Rightarrow> bytes \<Rightarrow> bytes \<Rightarrow> bool"

text \<open>A signature made with a seed has 64 bytes, parses, and verifies under the seed's public key.\<close>

definition ed25519_laws :: "ed25519 \<Rightarrow> bool" where
  "ed25519_laws ed = (\<forall>seed msg. length (sk_sign ed seed msg) = 64 \<and> length (sk_public ed seed) = 32
     \<and> vk_from_bytes_ok ed (sk_public ed seed) \<and> sig_from_slice_ok ed (sk_sign ed seed msg)
     \<and> vk_verify ed (sk_public ed seed) msg (sk_sign ed seed msg))"

section \<open>Trade batches\<close>

record trade_batch =
  tb_trades :: "match_rec list"
  tb_maker_balances :: "u64 list"
  tb_taker_balances :: "u64 list"
  tb_pre_state_root :: bytes32
  tb_post_state_root :: bytes32

definition MAX_BATCH_TRADES :: nat where
  "MAX_BATCH_TRADES = 8"

definition FR_MODULUS :: int where
  "FR_MODULUS = 21888242871839275222246405745257275088548364400416034343698204186575808495617"

type_synonym fr = int

definition fr_of_u64 :: "u64 \<Rightarrow> fr" where
  "fr_of_u64 w = uint w mod FR_MODULUS"

definition fr_add :: "fr \<Rightarrow> fr \<Rightarrow> fr" where
  "fr_add a b = (a + b) mod FR_MODULUS"

definition fr_sub :: "fr \<Rightarrow> fr \<Rightarrow> fr" where
  "fr_sub a b = (a - b) mod FR_MODULUS"

definition fr_mul :: "fr \<Rightarrow> fr \<Rightarrow> fr" where
  "fr_mul a b = (a * b) mod FR_MODULUS"

definition bytes_to_fe :: "bytes32 \<Rightarrow> fr" where
  "bytes_to_fe bs = fold (\<lambda>b acc. acc * 256 + uint b) bs 0 mod FR_MODULUS"

section \<open>The circuit\<close>

record dex_batch_circuit =
  c_maker_balance_pre :: "fr option list"
  c_taker_balance_pre :: "fr option list"
  c_amount :: "fr option list"
  c_price :: "fr option list"
  c_maker_balance_post :: "fr option list"
  c_taker_balance_post :: "fr option list"
  c_intermediate_roots :: "fr option list"
  c_pre_state_root :: "fr option"
  c_post_state_root :: "fr option"

datatype variable = One | Instance nat | Witness nat

type_synonym lin_comb = "(fr \<times> variable) list"

record constraint_system =
  cs_instance :: "fr list"
  cs_witness :: "fr list"
  cs_constraints :: "(lin_comb \<times> lin_comb \<times> lin_comb) list"

definition empty_cs :: constraint_system where
  "empty_cs = \<lparr>cs_instance = [], cs_witness = [], cs_constraints = []\<rparr>"

text \<open>A missing assignment aborts synthesis, here \<open>None\<close>.\<close>

definition new_input_variable :: "fr option \<Rightarrow> constraint_system \<Rightarrow> (variable \<times> constraint_system) option" where
  "new_input_variable v cs =
     map_option (\<lambda>x. (Instance (length (cs_instance cs)), cs\<lparr>cs_instance := cs_instance cs @ [x]\<rparr>)) v"

definition new_witness_variable :: "fr option \<Rightarrow> constraint_system \<Rightarrow> (variable \<times> constraint_system) option" where
  "new_witness_variable v cs =
     map_option (\<lambda>x. (Witness (length (cs_witness cs)), cs\<lparr>cs_witness := cs_witness cs @ [x]\<rparr>)) v"

definition enforce_constraint :: "lin_comb \<Rightarrow> lin_comb \<Rightarrow> lin_comb \<Rightarrow> constraint_system \<Rightarrow> constraint_system" where
  "enforce_constraint a b c cs = cs\<lparr>cs_constraints := cs_constraints cs @ [(a, b, c)]\<rparr>"

text \<open>\<^verbatim>\<open>self.field.get(i).copied().flatten()\<close>\<close>

definition slot :: "fr option list \<Rightarrow> nat \<Rightarrow> fr option" where
  "slot xs i = (if i < length xs then xs ! i else None)"

definition synthesize_slot ::
    "dex_batch_circuit \<Rightarrow> variable \<Rightarrow> nat \<Rightarrow> variable \<times> constraint_system \<Rightarrow> (variable \<times> constraint_system) option" where
  "synthesize_slot self post_root_var i st =
     (let (running_root, cs) = st in
      Option.bind (new_witness_variable (slot (c_maker_balance_pre self) i) cs) (\<lambda>(maker_pre, cs).
      Option.bind (new_witness_variable (slot (c_taker_balance_pre self) i) cs) (\<lambda>(taker_pre, cs).
      Option.bind (new_witness_variable (slot (c_amount self) i) cs) (\<lambda>(amt, cs).
      Option.bind (new_witness_variable (slot (c_price self) i) cs) (\<lambda>(prc, cs).
      Option.bind (new_witness_variable
        (Option.bind (slot (c_amount self) i) (\<lambda>a. map_option (fr_mul a) (slot (c_price self) i))) cs) (\<lambda>(val, cs).
      let cs = enforce_constraint [(1, amt)] [(1, prc)] [(1, val)] cs in
      Option.bind (new_witness_variable (slot (c_maker_balance_post self) i) cs) (\<lambda>(maker_post, cs).
      let cs = enforce_constraint [(1, maker_pre), (1, val)] [(1, One)] [(1, maker_post)] cs in
      Option.bind (new_witness_variable (slot (c_taker_balance_post self) i) cs) (\<lambda>(taker_post, cs).
      let cs = enforce_constraint [(1, taker_pre), (- 1, val)] [(1, One)] [(1, taker_post)] cs in
      Option.bind (if i = MAX_BATCH_TRADES - 1 then Some (post_root_var, cs)
                   else new_witness_variable (slot (c_intermediate_roots self) i) cs) (\<lambda>(next_root, cs).
      Some (next_root, enforce_constraint [(1, running_root), (1, val)] [(1, One)] [(1, next_root)] cs))))))))))"

fun synthesize_slots ::
    "dex_batch_circuit \<Rightarrow> variable \<Rightarrow> nat list \<Rightarrow> variable \<times> constraint_system \<Rightarrow> (variable \<times> constraint_system) option" where
  "synthesize_slots self post [] st = Some st"
| "synthesize_slots self post (i # is) st =
     Option.bind (synthesize_slot self post i st) (synthesize_slots self post is)"

definition generate_constraints :: "dex_batch_circuit \<Rightarrow> constraint_system option" where
  "generate_constraints self =
     Option.bind (new_input_variable (c_pre_state_root self) empty_cs) (\<lambda>(pre_root_var, cs).
     Option.bind (new_input_variable (c_post_state_root self) cs) (\<lambda>(post_root_var, cs).
     map_option snd (synthesize_slots self post_root_var [0..<MAX_BATCH_TRADES] (pre_root_var, cs))))"

fun var_value :: "constraint_system \<Rightarrow> variable \<Rightarrow> fr" where
  "var_value cs One = 1"
| "var_value cs (Instance i) = cs_instance cs ! i"
| "var_value cs (Witness i) = cs_witness cs ! i"

definition lc_value :: "constraint_system \<Rightarrow> lin_comb \<Rightarrow> fr" where
  "lc_value cs lc = (\<Sum>(k, v) \<leftarrow> lc. k * var_value cs v) mod FR_MODULUS"

text \<open>An assignment satisfies the system when every constraint \<open>a * b = c\<close> holds in the field.\<close>

definition satisfied :: "constraint_system \<Rightarrow> bool" where
  "satisfied cs = (\<forall>(a, b, c) \<in> set (cs_constraints cs).
     fr_mul (lc_value cs a) (lc_value cs b) = lc_value cs c)"

section \<open>Proving and verifying\<close>

fun witness_rows :: "(u64 \<times> u64 \<times> u64 \<times> u64) list \<Rightarrow> fr \<Rightarrow> (fr \<times> fr \<times> fr \<times> fr \<times> fr \<times> fr \<times> fr) list" where
  "witness_rows [] rt = []"
| "witness_rows ((maker_bal, taker_bal, amt, prc) # ts) rt =
     (let val = fr_mul (fr_of_u64 amt) (fr_of_u64 prc);
          rt = fr_add rt val
      in (fr_of_u64 maker_bal, fr_of_u64 taker_bal, fr_of_u64 amt, fr_of_u64 prc,
          fr_add (fr_of_u64 maker_bal) val, fr_sub (fr_of_u64 taker_bal) val, rt) # witness_rows ts rt)"

definition padded_witness :: "(u64 \<times> u64 \<times> u64 \<times> u64) list \<Rightarrow> fr \<Rightarrow> dex_batch_circuit" where
  "padded_witness trades pre_root =
     (let padded = map (\<lambda>i. if i < length trades then trades ! i else (0, 0, 0, 0)) [0..<MAX_BATCH_TRADES];
          rows = witness_rows padded pre_root;
          roots = map (\<lambda>(_, _, _, _, _, _, r). r) rows
      in \<lparr>c_maker_balance_pre = map (\<lambda>(m, _). Some m) rows,
          c_taker_balance_pre = map (\<lambda>(_, t, _). Some t) rows,
          c_amount = map (\<lambda>(_, _, a, _). Some a) rows,
          c_price = map (\<lambda>(_, _, _, p, _). Some p) rows,
          c_maker_balance_post = map (\<lambda>(_, _, _, _, m, _). Some m) rows,
          c_taker_balance_post = map (\<lambda>(_, _, _, _, _, t, _). Some t) rows,
          c_intermediate_roots = map Some (butlast roots),
          c_pre_state_root = Some pre_root,
          c_post_state_root = Some (last (pre_root # roots))\<rparr>)"

definition setup_circuit :: dex_batch_circuit where
  "setup_circuit = padded_witness (replicate MAX_BATCH_TRADES (10, 10, 1, 1)) (fr_of_u64 0)"

text \<open>The third-party calls: Groth16 proving and verification with the loaded key, and encodings.\<close>

record groth16 =
  g_prove :: "dex_batch_circuit \<Rightarrow> string + bytes"
  g_verify :: "bytes \<Rightarrow> fr list \<Rightarrow> bool"
  g_proof_ok :: "bytes \<Rightarrow> bool"
  fr_serialize :: "fr \<Rightarrow> bytes"
  fr_deserialize :: "bytes \<Rightarrow> fr option"
  json_to_vec :: "bytes \<times> bytes list \<Rightarrow> bytes"
  json_from_slice :: "bytes \<Rightarrow> (bytes \<times> bytes list) option"

text \<open>
  Encodings round-trip, and a proof of a satisfied circuit parses and verifies against the circuit's
  own public inputs.
\<close>

definition groth16_laws :: "groth16 \<Rightarrow> bool" where
  "groth16_laws g =
     ((\<forall>x. 0 \<le> x \<and> x < FR_MODULUS \<longrightarrow> fr_deserialize g (fr_serialize g x) = Some x)
      \<and> (\<forall>d. json_from_slice g (json_to_vec g d) = Some d)
      \<and> (\<forall>c proof cs. g_prove g c = Inr proof \<and> generate_constraints c = Some cs \<and> satisfied cs \<longrightarrow>
           g_proof_ok g proof \<and> g_verify g proof (cs_instance cs)))"

datatype prove_error = EmptyBatch | BatchTooLarge | LengthMismatch | InsolventTrade | ProvingFailed string

definition insolvent :: "match_rec \<times> u64 \<Rightarrow> bool" where
  "insolvent tb = (case tb of (trade, taker_balance) \<Rightarrow>
     (ucast taker_balance :: u128) < ucast (m_amount trade) * ucast (m_price trade))"

definition trade_rows :: "trade_batch \<Rightarrow> (u64 \<times> u64 \<times> u64 \<times> u64) list" where
  "trade_rows batch = map (\<lambda>((t, mb), tb). (mb, tb, m_amount t, m_price t))
     (zip (zip (tb_trades batch) (tb_maker_balances batch)) (tb_taker_balances batch))"

definition prove_batch :: "groth16 \<Rightarrow> trade_batch \<Rightarrow> prove_error + bytes" where
  "prove_batch g batch =
     (if tb_trades batch = [] then Inl EmptyBatch
      else if MAX_BATCH_TRADES < length (tb_trades batch) then Inl BatchTooLarge
      else if length (tb_trades batch) \<noteq> length (tb_maker_balances batch)
           \<or> length (tb_trades batch) \<noteq> length (tb_taker_balances batch) then Inl LengthMismatch
      else if list_ex insolvent (zip (tb_trades batch) (tb_taker_balances batch)) then Inl InsolventTrade
      else let pre_root = bytes_to_fe (tb_pre_state_root batch);
               circuit = padded_witness (trade_rows batch) pre_root;
               post_root = the (c_post_state_root circuit)
           in case g_prove g circuit of
                Inl e \<Rightarrow> Inl (ProvingFailed e)
              | Inr proof \<Rightarrow>
                  Inr (json_to_vec g (proof, map (fr_serialize g) [pre_root, post_root])))"

definition verify_proof :: "groth16 \<Rightarrow> bytes \<Rightarrow> trade_batch \<Rightarrow> bool" where
  "verify_proof g proof_data batch =
     (case json_from_slice g proof_data of
        None \<Rightarrow> False
      | Some (proof, public_inputs) \<Rightarrow>
          if \<not> g_proof_ok g proof then False
          else if tb_trades batch = [] \<or> MAX_BATCH_TRADES < length (tb_trades batch) then False
          else if length (tb_trades batch) \<noteq> length (tb_maker_balances batch)
               \<or> length (tb_trades batch) \<noteq> length (tb_taker_balances batch) then False
          else if list_ex insolvent (zip (tb_trades batch) (tb_taker_balances batch)) then False
          else let total_value = fold (\<lambda>t acc. fr_add acc (fr_mul (fr_of_u64 (m_amount t)) (fr_of_u64 (m_price t))))
                     (tb_trades batch) (fr_of_u64 0);
                   expected_pre_root = bytes_to_fe (tb_pre_state_root batch);
                   expected_post_root = fr_add expected_pre_root total_value
               in if bytes_to_fe (tb_post_state_root batch) \<noteq> expected_post_root then False
                  else let expected_inputs = [expected_pre_root, expected_post_root]
                       in if length public_inputs \<noteq> length expected_inputs then False
                          else if map (fr_deserialize g) public_inputs \<noteq> map Some expected_inputs then False
                          else g_verify g proof expected_inputs)"

section \<open>Batch signatures\<close>

definition batch_message :: "trade_batch \<Rightarrow> bytes" where
  "batch_message batch =
     tb_pre_state_root batch @ tb_post_state_root batch
     @ concat (map be_bytes (tb_maker_balances batch)) @ concat (map be_bytes (tb_taker_balances batch))
     @ concat (map (\<lambda>t. m_maker_order_id t @ m_taker_order_id t @ be_bytes (m_price t) @ be_bytes (m_amount t))
         (tb_trades batch))"

definition sign_batch :: "ed25519 \<Rightarrow> trade_batch \<Rightarrow> bytes32 \<Rightarrow> bytes" where
  "sign_batch ed batch node_seed = sk_sign ed node_seed (batch_message batch)"

definition verify_node_sig :: "ed25519 \<Rightarrow> trade_batch \<Rightarrow> bytes32 \<Rightarrow> bytes \<Rightarrow> bool" where
  "verify_node_sig ed batch node_pubkey signature =
     (if \<not> vk_from_bytes_ok ed node_pubkey then False
      else if \<not> sig_from_slice_ok ed signature then False
      else vk_verify ed node_pubkey (batch_message batch) signature)"

definition verify_threshold :: "ed25519 \<Rightarrow> trade_batch \<Rightarrow> (bytes32 \<times> bytes) list \<Rightarrow> nat \<Rightarrow> bool" where
  "verify_threshold ed batch signatures threshold =
     (threshold \<le> fold (\<lambda>(pubkey, sig) count. if verify_node_sig ed batch pubkey sig then count + 1 else count)
        signatures 0)"

record multi_watchtower =
  mw_threshold :: nat
  watchtower_keys :: "bytes32 list"

definition approve_batch ::
    "ed25519 \<Rightarrow> groth16 \<Rightarrow> multi_watchtower \<Rightarrow> trade_batch \<Rightarrow> bytes \<Rightarrow> (bytes32 \<times> bytes) list \<Rightarrow> bool" where
  "approve_batch ed g self batch proof signatures =
     (if \<not> verify_proof g proof batch then False
      else let (unique_signers, valid_count) =
             fold (\<lambda>(pubkey, sig) (unique, count).
                     if pubkey \<notin> set (watchtower_keys self) then (unique, count)
                     else if pubkey \<in> set unique then (unique, count)
                     else if verify_node_sig ed batch pubkey sig then (pubkey # unique, count + 1)
                     else (unique, count))
               signatures ([], 0)
           in mw_threshold self \<le> valid_count)"

section \<open>The constraint matrix\<close>

definition root_var :: "nat \<Rightarrow> variable" where
  "root_var i = (if i = 0 then Instance 0 else if i = 8 then Instance 1 else Witness (8 * (i - 1) + 7))"

definition slot_constraints :: "nat \<Rightarrow> (lin_comb \<times> lin_comb \<times> lin_comb) list" where
  "slot_constraints i =
     [([(1, Witness (8 * i + 2))], [(1, Witness (8 * i + 3))], [(1, Witness (8 * i + 4))]),
      ([(1, Witness (8 * i)), (1, Witness (8 * i + 4))], [(1, One)], [(1, Witness (8 * i + 5))]),
      ([(1, Witness (8 * i + 1)), (- 1, Witness (8 * i + 4))], [(1, One)], [(1, Witness (8 * i + 6))]),
      ([(1, root_var i), (1, Witness (8 * i + 4))], [(1, One)], [(1, root_var (Suc i))])]"

definition slot_matrix :: "nat \<Rightarrow> variable \<Rightarrow> variable \<Rightarrow> (lin_comb \<times> lin_comb \<times> lin_comb) list" where
  "slot_matrix n rv nv =
     [([(1, Witness (Suc (Suc n)))], [(1, Witness (Suc (Suc (Suc n))))], [(1, Witness (Suc (Suc (Suc (Suc n)))))]),
      ([(1, Witness n), (1, Witness (Suc (Suc (Suc (Suc n)))))], [(1, One)], [(1, Witness (Suc (Suc (Suc (Suc (Suc n))))))]),
      ([(1, Witness (Suc n)), (- 1, Witness (Suc (Suc (Suc (Suc n)))))], [(1, One)],
       [(1, Witness (Suc (Suc (Suc (Suc (Suc (Suc n)))))))]),
      ([(1, rv), (1, Witness (Suc (Suc (Suc (Suc n)))))], [(1, One)], [(1, nv)])]"

lemma slot_matrix_eq: "slot_matrix (8 * i) (root_var i) (root_var (Suc i)) = slot_constraints i"
  by (simp add: slot_matrix_def slot_constraints_def eval_nat_numeral)

text \<open>Synthesis of one slot, when every assignment is present.\<close>

lemma synthesize_slot_present:
  assumes "slot (c_maker_balance_pre c) i = Some mp" "slot (c_taker_balance_pre c) i = Some tp"
    "slot (c_amount c) i = Some a" "slot (c_price c) i = Some p"
    "slot (c_maker_balance_post c) i = Some mq" "slot (c_taker_balance_post c) i = Some tq"
    "if i = 7 then ws = [] \<and> nv = post else slot (c_intermediate_roots c) i = Some r \<and> ws = [r]
       \<and> nv = Witness (length (cs_witness cs) + 7)"
  shows "synthesize_slot c post i (rv, cs) = Some (nv,
    \<lparr>cs_instance = cs_instance cs, cs_witness = cs_witness cs @ [mp, tp, a, p, fr_mul a p, mq, tq] @ ws,
     cs_constraints = cs_constraints cs @ slot_matrix (length (cs_witness cs)) rv nv\<rparr>)"
  using assms
  by (cases cs; cases "i = 7")
    (simp_all add: synthesize_slot_def new_witness_variable_def enforce_constraint_def Let_def
      slot_matrix_def MAX_BATCH_TRADES_def)

lemma synthesize_slot_values:
  assumes "synthesize_slot c post i st = Some r"
  shows "slot (c_maker_balance_pre c) i \<noteq> None" "slot (c_taker_balance_pre c) i \<noteq> None"
    "slot (c_amount c) i \<noteq> None" "slot (c_price c) i \<noteq> None"
    "slot (c_maker_balance_post c) i \<noteq> None" "slot (c_taker_balance_post c) i \<noteq> None"
    "i \<noteq> 7 \<Longrightarrow> slot (c_intermediate_roots c) i \<noteq> None"
  using assms
  by (auto simp: synthesize_slot_def new_witness_variable_def Let_def bind_eq_Some_conv MAX_BATCH_TRADES_def
      split: prod.splits)

definition slot_values :: "dex_batch_circuit \<Rightarrow> fr list \<Rightarrow> nat \<Rightarrow> bool" where
  "slot_values c w i =
     (slot (c_maker_balance_pre c) i = Some (w ! (8 * i)) \<and> slot (c_taker_balance_pre c) i = Some (w ! (8 * i + 1))
      \<and> slot (c_amount c) i = Some (w ! (8 * i + 2)) \<and> slot (c_price c) i = Some (w ! (8 * i + 3))
      \<and> w ! (8 * i + 4) = fr_mul (w ! (8 * i + 2)) (w ! (8 * i + 3))
      \<and> slot (c_maker_balance_post c) i = Some (w ! (8 * i + 5)) \<and> slot (c_taker_balance_post c) i = Some (w ! (8 * i + 6))
      \<and> (i < 7 \<longrightarrow> slot (c_intermediate_roots c) i = Some (w ! (8 * i + 7))))"

lemma synthesize_slot_eq:
  assumes "i < 8" and "length (cs_witness cs) = 8 * i"
    and "synthesize_slot c (Instance 1) i (root_var i, cs) = Some (v, cs')"
  shows "v = root_var (Suc i) \<and> cs_instance cs' = cs_instance cs
    \<and> cs_constraints cs' = cs_constraints cs @ slot_constraints i
    \<and> (\<exists>ws. cs_witness cs' = cs_witness cs @ ws \<and> (i < 7 \<longrightarrow> length ws = 8))
    \<and> slot_values c (cs_witness cs') i"
proof -
  obtain mp tp a p mq tq where v: "slot (c_maker_balance_pre c) i = Some mp"
      "slot (c_taker_balance_pre c) i = Some tp" "slot (c_amount c) i = Some a" "slot (c_price c) i = Some p"
      "slot (c_maker_balance_post c) i = Some mq" "slot (c_taker_balance_post c) i = Some tq"
    using synthesize_slot_values [OF assms(3)] by blast
  obtain r ws where r: "if i = 7 then ws = [] \<and> root_var (Suc i) = Instance 1
      else slot (c_intermediate_roots c) i = Some r \<and> ws = [r]
       \<and> root_var (Suc i) = Witness (length (cs_witness cs) + 7)"
    using synthesize_slot_values(7) [OF assms(3)] assms(1,2) by (cases "i = 7") (auto simp: root_var_def)
  from synthesize_slot_present [OF v r] assms(3)
  have cs': "v = root_var (Suc i)" "cs_instance cs' = cs_instance cs"
    "cs_constraints cs' = cs_constraints cs @ slot_constraints i"
    "cs_witness cs' = cs_witness cs @ [mp, tp, a, p, fr_mul a p, mq, tq] @ ws"
    using assms(2) by (auto simp: slot_matrix_eq)
  have "slot_values c (cs_witness cs') i"
    unfolding slot_values_def cs'(4) v using assms(1,2) r
    by (cases "i = 7") (simp_all add: nth_append)
  then show ?thesis using cs' r by (auto split: if_splits)
qed

lemma slot_values_append:
  assumes "slot_values c w i" and "8 * i + 7 < length w \<or> (i = 7 \<and> 62 < length w)"
  shows "slot_values c (w @ ws) i"
  using assms by (auto simp: slot_values_def nth_append)

lemma synthesize_slots_eq:
  assumes "j \<le> 8" and "length (cs_witness cs) = 8 * j"
    and "synthesize_slots c (Instance 1) [j..<8] (root_var j, cs) = Some (v, cs')"
  shows "cs_instance cs' = cs_instance cs
    \<and> cs_constraints cs' = cs_constraints cs @ concat (map slot_constraints [j..<8])
    \<and> (\<exists>ws. cs_witness cs' = cs_witness cs @ ws)
    \<and> (\<forall>i. j \<le> i \<and> i < 8 \<longrightarrow> slot_values c (cs_witness cs') i)"
  using assms
proof (induction "8 - j" arbitrary: j cs)
  case 0
  then show ?case by auto
next
  case (Suc k)
  then have j: "j < 8" by simp
  then have upt: "[j..<8] = j # [Suc j..<8]" by (simp add: upt_conv_Cons)
  obtain v1 cs1 where s1: "synthesize_slot c (Instance 1) j (root_var j, cs) = Some (v1, cs1)"
    and s2: "synthesize_slots c (Instance 1) [Suc j..<8] (v1, cs1) = Some (v, cs')"
    using Suc.prems(3) unfolding upt by (auto simp: bind_eq_Some_conv)
  note e = synthesize_slot_eq [OF j Suc.prems(2) s1]
  then obtain ws where ws: "cs_witness cs1 = cs_witness cs @ ws" "j < 7 \<longrightarrow> length ws = 8" by blast
  show ?case
  proof (cases "j = 7")
    case True
    have seven: "i = 7" if "7 \<le> i" "i < 8" for i :: nat using that by simp
    from True show ?thesis using e s2 ws unfolding upt by (auto dest: seven)
  next
    case False
    then have l: "length (cs_witness cs1) = 8 * Suc j" using ws Suc.prems(2) j by simp
    have s2': "synthesize_slots c (Instance 1) [Suc j..<8] (root_var (Suc j), cs1) = Some (v, cs')"
      using s2 e by simp
    have k: "k = 8 - Suc j" "Suc j \<le> 8" using Suc.hyps(2) j by simp_all
    note IH = Suc.hyps(1) [OF k l s2']
    then obtain ws' where ws': "cs_witness cs' = cs_witness cs1 @ ws'" by blast
    have "slot_values c (cs_witness cs') j"
      unfolding ws' by (rule slot_values_append) (use e l in auto)
    then have "slot_values c (cs_witness cs') i" if "j \<le> i" "i < 8" for i
      using IH that by (cases "i = j") auto
    then show ?thesis using IH e ws ws' unfolding upt by auto
  qed
qed

lemma generate_constraints_eq:
  assumes "generate_constraints c = Some cs"
  shows "\<exists>pre post. c_pre_state_root c = Some pre \<and> c_post_state_root c = Some post
    \<and> cs_instance cs = [pre, post]
    \<and> cs_constraints cs = concat (map slot_constraints [0..<8])
    \<and> (\<forall>i < 8. slot_values c (cs_witness cs) i)"
proof -
  obtain pre post where pp: "c_pre_state_root c = Some pre" "c_post_state_root c = Some post"
    using assms by (auto simp: generate_constraints_def new_input_variable_def bind_eq_Some_conv)
  obtain v where s: "synthesize_slots c (Instance 1) [0..<8] (root_var 0,
      \<lparr>cs_instance = [pre, post], cs_witness = [], cs_constraints = []\<rparr>) = Some (v, cs)"
    using assms pp
    by (auto simp: generate_constraints_def new_input_variable_def empty_cs_def MAX_BATCH_TRADES_def root_var_def)
  from synthesize_slots_eq [OF _ _ s] show ?thesis using pp by auto
qed

definition root_at :: "constraint_system \<Rightarrow> nat \<Rightarrow> fr" where
  "root_at cs i = var_value cs (root_var i)"

abbreviation cong_fr :: "int \<Rightarrow> int \<Rightarrow> bool" where
  "cong_fr a b \<equiv> a mod FR_MODULUS = b mod FR_MODULUS"

lemma FR_pos [simp]: "0 < FR_MODULUS" "FR_MODULUS \<noteq> 0"
  by (simp_all add: FR_MODULUS_def)

text \<open>The four equations a slot imposes on any assignment.\<close>

definition slot_equations :: "constraint_system \<Rightarrow> nat \<Rightarrow> bool" where
  "slot_equations cs i = (let w = cs_witness cs in
     cong_fr (w ! (8 * i + 2) * w ! (8 * i + 3)) (w ! (8 * i + 4))
     \<and> cong_fr (w ! (8 * i) + w ! (8 * i + 4)) (w ! (8 * i + 5))
     \<and> cong_fr (w ! (8 * i + 1) - w ! (8 * i + 4)) (w ! (8 * i + 6))
     \<and> cong_fr (root_at cs i + w ! (8 * i + 4)) (root_at cs (Suc i)))"

lemma one_mod_FR [simp]: "1 mod FR_MODULUS = 1"
  by (simp add: FR_MODULUS_def)

lemma satisfied_slots:
  assumes "cs_constraints cs = concat (map slot_constraints [0..<8])"
  shows "satisfied cs \<longleftrightarrow> (\<forall>i < 8. slot_equations cs i)"
proof -
  have "(\<forall>(a, b, c) \<in> set (slot_constraints i). fr_mul (lc_value cs a) (lc_value cs b) = lc_value cs c)
      \<longleftrightarrow> slot_equations cs i" for i
    by (simp add: slot_constraints_def slot_equations_def lc_value_def fr_mul_def root_at_def Let_def
        mod_simps)
  then show ?thesis unfolding satisfied_def assms by auto
qed

text \<open>The roots telescope: after \<open>n\<close> slots the root has grown by the traded values.\<close>

lemma roots_telescope:
  assumes "\<forall>i < 8. slot_equations cs i" and "n \<le> 8"
  shows "cong_fr (root_at cs n)
    (root_at cs 0 + (\<Sum>i < n. cs_witness cs ! (8 * i + 2) * cs_witness cs ! (8 * i + 3)))"
  using assms(2)
proof (induction n)
  case (Suc n)
  let ?w = "cs_witness cs"
  have eq: "cong_fr (?w ! (8 * n + 2) * ?w ! (8 * n + 3)) (?w ! (8 * n + 4))"
    "cong_fr (root_at cs n + ?w ! (8 * n + 4)) (root_at cs (Suc n))"
    using assms(1) Suc.prems unfolding slot_equations_def by (simp_all add: Let_def)
  have "root_at cs (Suc n) mod FR_MODULUS = (root_at cs n mod FR_MODULUS + ?w ! (8 * n + 4) mod FR_MODULUS) mod FR_MODULUS"
    using eq(2) by (simp add: mod_simps)
  also have "\<dots> = ((root_at cs 0 + (\<Sum>i < n. ?w ! (8 * i + 2) * ?w ! (8 * i + 3)))
      + ?w ! (8 * n + 2) * ?w ! (8 * n + 3)) mod FR_MODULUS"
    unfolding eq(1) [symmetric] Suc.IH [OF Suc_leD [OF Suc.prems]] by (rule mod_add_eq)
  finally show ?case by (simp add: add.assoc)
qed simp

section \<open>The padded witness\<close>

definition row_value :: "u64 \<times> u64 \<times> u64 \<times> u64 \<Rightarrow> fr" where
  "row_value t = (case t of (m, tk, a, p) \<Rightarrow> fr_mul (fr_of_u64 a) (fr_of_u64 p))"

definition root_after :: "(u64 \<times> u64 \<times> u64 \<times> u64) list \<Rightarrow> fr \<Rightarrow> fr" where
  "root_after ts rt = fold (\<lambda>t r. fr_add r (row_value t)) ts rt"

lemma length_witness_rows [simp]: "length (witness_rows ts rt) = length ts"
  by (induction ts rt rule: witness_rows.induct) (simp_all add: Let_def)

lemma witness_rows_nth:
  "i < length ts \<Longrightarrow> ts ! i = (m, tk, a, p) \<Longrightarrow> witness_rows ts rt ! i =
     (fr_of_u64 m, fr_of_u64 tk, fr_of_u64 a, fr_of_u64 p, fr_add (fr_of_u64 m) (row_value (ts ! i)),
      fr_sub (fr_of_u64 tk) (row_value (ts ! i)), root_after (take (Suc i) ts) rt)"
proof (induction ts rt arbitrary: i rule: witness_rows.induct)
  case (2 mb tb am pr ts rt)
  then show ?case by (cases i) (auto simp: Let_def root_after_def row_value_def)
qed simp

definition pad_rows :: "(u64 \<times> u64 \<times> u64 \<times> u64) list \<Rightarrow> (u64 \<times> u64 \<times> u64 \<times> u64) list" where
  "pad_rows trades = trades @ replicate (8 - length trades) (0, 0, 0, 0)"

lemma pad_rows_eq:
  assumes "length trades \<le> 8"
  shows "map (\<lambda>i. if i < length trades then trades ! i else (0, 0, 0, 0)) [0..<8] = pad_rows trades"
  by (rule nth_equalityI) (use assms in \<open>auto simp: pad_rows_def nth_append\<close>)

lemma length_pad_rows [simp]: "length trades \<le> 8 \<Longrightarrow> length (pad_rows trades) = 8"
  by (simp add: pad_rows_def)

lemma fr_add_0 [simp]: "0 \<le> r \<Longrightarrow> r < FR_MODULUS \<Longrightarrow> fr_add r 0 = r"
  by (simp add: fr_add_def)

lemma root_after_range: "0 \<le> rt \<Longrightarrow> rt < FR_MODULUS \<Longrightarrow> 0 \<le> root_after ts rt \<and> root_after ts rt < FR_MODULUS"
  unfolding root_after_def by (induction ts arbitrary: rt) (simp_all add: fr_add_def)

lemma root_after_pad:
  assumes "0 \<le> rt" "rt < FR_MODULUS"
  shows "root_after (pad_rows trades) rt = root_after trades rt"
proof -
  have z: "row_value (0, 0, 0, 0) = 0" by (simp add: row_value_def fr_mul_def fr_of_u64_def)
  have "fold (\<lambda>t r. fr_add r (row_value t)) (replicate k (0, 0, 0, 0)) x = x" if "0 \<le> x" "x < FR_MODULUS" for k x
    using that by (induction k) (simp_all add: z)
  then show ?thesis using root_after_range [OF assms, of trades] by (simp add: root_after_def pad_rows_def)
qed

lemma slot_map: "slot (map f xs) i = (if i < length xs then f (xs ! i) else None)"
  by (simp add: slot_def)

lemma padded_slots:
  fixes pre :: fr
  assumes "length trades \<le> 8" and "i < 8" and "pad_rows trades ! i = (m, tk, a, p)"
  defines "c \<equiv> padded_witness trades pre"
  shows "slot (c_maker_balance_pre c) i = Some (fr_of_u64 m)"
    "slot (c_taker_balance_pre c) i = Some (fr_of_u64 tk)"
    "slot (c_amount c) i = Some (fr_of_u64 a)" "slot (c_price c) i = Some (fr_of_u64 p)"
    "slot (c_maker_balance_post c) i = Some (fr_add (fr_of_u64 m) (row_value (m, tk, a, p)))"
    "slot (c_taker_balance_post c) i = Some (fr_sub (fr_of_u64 tk) (row_value (m, tk, a, p)))"
    "i < 7 \<Longrightarrow> slot (c_intermediate_roots c) i = Some (root_after (take (Suc i) (pad_rows trades)) pre)"
proof -
  note n = witness_rows_nth [of i "pad_rows trades" m tk a p pre]
  show "slot (c_maker_balance_pre c) i = Some (fr_of_u64 m)"
    "slot (c_taker_balance_pre c) i = Some (fr_of_u64 tk)"
    "slot (c_amount c) i = Some (fr_of_u64 a)" "slot (c_price c) i = Some (fr_of_u64 p)"
    "slot (c_maker_balance_post c) i = Some (fr_add (fr_of_u64 m) (row_value (m, tk, a, p)))"
    "slot (c_taker_balance_post c) i = Some (fr_sub (fr_of_u64 tk) (row_value (m, tk, a, p)))"
    using n assms(1-3)
    by (simp_all add: c_def padded_witness_def MAX_BATCH_TRADES_def pad_rows_eq Let_def slot_map)
  show "slot (c_intermediate_roots c) i = Some (root_after (take (Suc i) (pad_rows trades)) pre)" if "i < 7"
    using n assms(1-3) that
    by (simp add: c_def padded_witness_def MAX_BATCH_TRADES_def pad_rows_eq Let_def slot_map nth_butlast)
qed

lemma padded_roots:
  assumes "length trades \<le> 8" and "0 \<le> pre" "pre < FR_MODULUS"
  shows "c_pre_state_root (padded_witness trades pre) = Some pre"
    and "c_post_state_root (padded_witness trades pre) = Some (root_after trades pre)"
proof -
  obtain m tk a p where r: "pad_rows trades ! 7 = (m, tk, a, p)" by (metis prod_cases4)
  have l: "length (pad_rows trades) = 8" using assms(1) by simp
  let ?rows = "witness_rows (pad_rows trades) pre"
  have ne: "?rows \<noteq> []" using l by (metis length_witness_rows list.size(3) zero_neq_numeral)
  have "last ?rows = ?rows ! 7" using ne l by (simp add: last_conv_nth)
  then have "(\<lambda>(_, _, _, _, _, _, r). r) (last ?rows) = root_after (take 8 (pad_rows trades)) pre"
    using witness_rows_nth [OF _ r, of pre] l by simp
  moreover have "take 8 (pad_rows trades) = pad_rows trades" using l by simp
  ultimately show "c_post_state_root (padded_witness trades pre) = Some (root_after trades pre)"
    using root_after_pad [OF assms(2,3), of trades] assms(1) ne
    by (simp add: padded_witness_def MAX_BATCH_TRADES_def pad_rows_eq Let_def last_map)
qed (simp add: padded_witness_def Let_def)

lemma synthesize_slots_total:
  assumes "\<forall>i \<in> set is. slot (c_maker_balance_pre c) i \<noteq> None \<and> slot (c_taker_balance_pre c) i \<noteq> None
    \<and> slot (c_amount c) i \<noteq> None \<and> slot (c_price c) i \<noteq> None \<and> slot (c_maker_balance_post c) i \<noteq> None
    \<and> slot (c_taker_balance_post c) i \<noteq> None \<and> (i \<noteq> 7 \<longrightarrow> slot (c_intermediate_roots c) i \<noteq> None)"
  shows "\<exists>st'. synthesize_slots c post is st = Some st'"
  using assms
proof (induction "is" arbitrary: st)
  case (Cons i "is")
  have "\<exists>st1. synthesize_slot c post i st = Some st1"
    using Cons.prems
    by (cases st) (auto simp: synthesize_slot_def new_witness_variable_def Let_def MAX_BATCH_TRADES_def)
  with Cons show ?case by auto
qed simp

lemma padded_generates:
  assumes "length trades \<le> 8"
  shows "\<exists>cs. generate_constraints (padded_witness trades pre) = Some cs"
proof -
  let ?c = "padded_witness trades pre"
  have "\<exists>st'. synthesize_slots ?c post [0..<8] st = Some st'" for post st
  proof (rule synthesize_slots_total, rule ballI)
    fix i :: nat assume "i \<in> set [0..<8]"
    moreover obtain m tk a p where "pad_rows trades ! i = (m, tk, a, p)" by (metis prod_cases4)
    ultimately show "slot (c_maker_balance_pre ?c) i \<noteq> None \<and> slot (c_taker_balance_pre ?c) i \<noteq> None
      \<and> slot (c_amount ?c) i \<noteq> None \<and> slot (c_price ?c) i \<noteq> None \<and> slot (c_maker_balance_post ?c) i \<noteq> None
      \<and> slot (c_taker_balance_post ?c) i \<noteq> None \<and> (i \<noteq> 7 \<longrightarrow> slot (c_intermediate_roots ?c) i \<noteq> None)"
      using padded_slots [OF assms, of i m tk a p pre] by auto
  qed
  moreover obtain post where "c_pre_state_root ?c = Some pre" "c_post_state_root ?c = Some post"
    by (simp add: padded_witness_def Let_def)
  ultimately show ?thesis
    by (simp add: generate_constraints_def new_input_variable_def MAX_BATCH_TRADES_def) blast
qed

lemma padded_satisfied:
  assumes "length trades \<le> 8" and "0 \<le> pre" "pre < FR_MODULUS"
    and "generate_constraints (padded_witness trades pre) = Some cs"
  shows "satisfied cs \<and> cs_instance cs = [pre, root_after trades pre]"
proof -
  let ?c = "padded_witness trades pre" and ?P = "pad_rows trades"
  note g = generate_constraints_eq [OF assms(4)]
  have inst: "cs_instance cs = [pre, root_after trades pre]" using g padded_roots [OF assms(1-3)] by auto
  have root: "root_at cs i = root_after (take i ?P) pre" if i8: "i \<le> 8" for i
  proof -
    have "root_after (take 8 ?P) pre = root_after trades pre"
      using assms by (simp add: root_after_pad)
    moreover have "root_at cs (Suc k) = root_after (take (Suc k) ?P) pre" if "k < 7" for k
    proof -
      obtain m tk a p where "?P ! k = (m, tk, a, p)" by (metis prod_cases4)
      with padded_slots(7) [OF assms(1), of k m tk a p pre] g that show ?thesis
        by (auto simp: slot_values_def root_at_def root_var_def)
    qed
    moreover have "i = 0 \<or> (\<exists>k. i = Suc k \<and> k < 7) \<or> i = 8" using i8 by presburger
    ultimately show ?thesis
      using inst by (elim disjE) (auto simp: root_at_def root_var_def root_after_def)
  qed
  have "slot_equations cs i" if i: "i < 8" for i
  proof -
    obtain m tk a p where r: "?P ! i = (m, tk, a, p)" by (metis prod_cases4)
    have v: "slot_values ?c (cs_witness cs) i" using g i by blast
    note s = padded_slots [OF assms(1) i r, of pre]
    have "take (Suc i) ?P = take i ?P @ [(m, tk, a, p)]"
      using i assms(1) r by (metis length_pad_rows take_Suc_conv_app_nth)
    then have "root_at cs (Suc i) = fr_add (root_at cs i) (row_value (m, tk, a, p))"
      using root [of i] root [of "Suc i"] i by (simp add: root_after_def)
    moreover have w: "cs_witness cs ! (8 * i) = fr_of_u64 m" "cs_witness cs ! (8 * i + 1) = fr_of_u64 tk"
      "cs_witness cs ! (8 * i + 2) = fr_of_u64 a" "cs_witness cs ! (8 * i + 3) = fr_of_u64 p"
      "cs_witness cs ! (8 * i + 4) = row_value (m, tk, a, p)"
      "cs_witness cs ! (8 * i + 5) = fr_add (fr_of_u64 m) (row_value (m, tk, a, p))"
      "cs_witness cs ! (8 * i + 6) = fr_sub (fr_of_u64 tk) (row_value (m, tk, a, p))"
      using v unfolding slot_values_def s(1-6) option.inject by (auto simp: row_value_def)
    ultimately show ?thesis
      unfolding slot_equations_def Let_def w
      by (simp add: row_value_def fr_add_def fr_sub_def fr_mul_def mod_simps)
  qed
  then show ?thesis using satisfied_slots g inst by auto
qed

section \<open>Verification against the padded circuit\<close>

lemma bytes_to_fe_range: "0 \<le> bytes_to_fe b \<and> bytes_to_fe b < FR_MODULUS"
  by (simp add: bytes_to_fe_def)

lemma fr_add_assoc: "fr_add (fr_add r s) x = fr_add r (fr_add s x)"
  by (simp add: fr_add_def mod_simps add.assoc)

lemma trade_rows_total:
  assumes "length (tb_trades batch) = length (tb_maker_balances batch)"
    and "length (tb_trades batch) = length (tb_taker_balances batch)"
    and "0 \<le> r" "r < FR_MODULUS"
  shows "root_after (trade_rows batch) r = fr_add r
    (fold (\<lambda>t acc. fr_add acc (fr_mul (fr_of_u64 (m_amount t)) (fr_of_u64 (m_price t)))) (tb_trades batch) 0)"
proof -
  have shift: "fold (\<lambda>t acc. fr_add acc (f t)) ts (fr_add r s) = fr_add r (fold (\<lambda>t acc. fr_add acc (f t)) ts s)"
    for f and ts :: "match_rec list" and r s
    by (induction ts arbitrary: s) (simp_all add: fr_add_assoc)
  have rows: "fold (\<lambda>t r. fr_add r (row_value t)) (map (\<lambda>((t, mb), tb). (mb, tb, m_amount t, m_price t)) (zip (zip ts ms) ks)) r
      = fold (\<lambda>t acc. fr_add acc (fr_mul (fr_of_u64 (m_amount t)) (fr_of_u64 (m_price t)))) ts r"
    if "length ts = length ms" "length ts = length ks" for ts ms ks r
    using that
  proof (induction ts arbitrary: ms ks r)
    case (Cons t ts)
    then obtain m ms' k ks' where "ms = m # ms'" "ks = k # ks'" by (metis length_Suc_conv)
    with Cons show ?case by (simp add: row_value_def)
  qed simp
  have "root_after (trade_rows batch) r =
      fold (\<lambda>t acc. fr_add acc (fr_mul (fr_of_u64 (m_amount t)) (fr_of_u64 (m_price t)))) (tb_trades batch) (fr_add r 0)"
    using rows [OF assms(1,2)] assms(3,4) by (simp add: root_after_def trade_rows_def)
  then show ?thesis unfolding shift .
qed

lemma length_trade_rows: "length (tb_trades batch) = length (tb_maker_balances batch) \<Longrightarrow>
    length (tb_trades batch) = length (tb_taker_balances batch) \<Longrightarrow> length (trade_rows batch) = length (tb_trades batch)"
  by (simp add: trade_rows_def)

lemma prove_batch_ok:
  assumes "prove_batch g batch = Inr data"
  shows "tb_trades batch \<noteq> []" "length (tb_trades batch) \<le> MAX_BATCH_TRADES"
    "length (tb_trades batch) = length (tb_maker_balances batch)"
    "length (tb_trades batch) = length (tb_taker_balances batch)"
    "\<not> list_ex insolvent (zip (tb_trades batch) (tb_taker_balances batch))"
    "\<exists>proof. g_prove g (padded_witness (trade_rows batch) (bytes_to_fe (tb_pre_state_root batch))) = Inr proof
       \<and> data = json_to_vec g (proof, map (fr_serialize g) [bytes_to_fe (tb_pre_state_root batch),
           the (c_post_state_root (padded_witness (trade_rows batch) (bytes_to_fe (tb_pre_state_root batch))))])"
  using assms by (auto simp: prove_batch_def Let_def split: if_splits sum.splits)

lemma prove_then_verify:
  assumes laws: "groth16_laws g" and prove: "prove_batch g batch = Inr data"
    and post: "bytes_to_fe (tb_post_state_root batch) =
      root_after (trade_rows batch) (bytes_to_fe (tb_pre_state_root batch))"
  shows "verify_proof g data batch"
proof -
  let ?pre = "bytes_to_fe (tb_pre_state_root batch)"
  note p = prove_batch_ok [OF prove]
  have l8: "length (trade_rows batch) \<le> 8" using p(2) length_trade_rows [OF p(3,4)] by (simp add: MAX_BATCH_TRADES_def)
  note pre = bytes_to_fe_range [of "tb_pre_state_root batch"]
  obtain cs where cs: "generate_constraints (padded_witness (trade_rows batch) ?pre) = Some cs"
    using padded_generates [OF l8] by blast
  note sat = padded_satisfied [OF l8 _ _ cs]
  note roots = padded_roots [OF l8, of ?pre]
  have tot: "root_after (trade_rows batch) ?pre = fr_add ?pre
      (fold (\<lambda>t acc. fr_add acc (fr_mul (fr_of_u64 (m_amount t)) (fr_of_u64 (m_price t)))) (tb_trades batch) (fr_of_u64 0))"
    using trade_rows_total [OF p(3,4), of ?pre] pre by (simp add: fr_of_u64_def)
  obtain pf where pf: "g_prove g (padded_witness (trade_rows batch) ?pre) = Inr pf"
    "data = json_to_vec g (pf, map (fr_serialize g) [?pre, root_after (trade_rows batch) ?pre])"
    using p(6) roots pre by auto
  have "g_proof_ok g pf \<and> g_verify g pf [?pre, root_after (trade_rows batch) ?pre]"
    using laws pf(1) cs sat pre unfolding groth16_laws_def by metis
  moreover have "fr_deserialize g (fr_serialize g ?pre) = Some ?pre"
    "fr_deserialize g (fr_serialize g (root_after (trade_rows batch) ?pre)) = Some (root_after (trade_rows batch) ?pre)"
    using laws pre root_after_range [of ?pre] unfolding groth16_laws_def by auto
  moreover have "json_from_slice g data = Some (pf, map (fr_serialize g) [?pre, root_after (trade_rows batch) ?pre])"
    using laws pf(2) unfolding groth16_laws_def by auto
  ultimately show ?thesis
    using p post tot by (simp add: verify_proof_def Let_def)
qed

section \<open>Watchtower signatures\<close>

definition count_signer :: "ed25519 \<Rightarrow> trade_batch \<Rightarrow> bytes32 list \<Rightarrow> bytes32 \<times> bytes \<Rightarrow> bytes32 list \<times> nat \<Rightarrow> bytes32 list \<times> nat" where
  "count_signer ed batch keys ps uc = (case ps of (pubkey, sig) \<Rightarrow> case uc of (u, n) \<Rightarrow>
     if pubkey \<notin> set keys then (u, n)
     else if pubkey \<in> set u then (u, n)
     else if verify_node_sig ed batch pubkey sig then (pubkey # u, n + 1)
     else (u, n))"

definition signers_ok :: "ed25519 \<Rightarrow> trade_batch \<Rightarrow> bytes32 list \<Rightarrow> (bytes32 \<times> bytes) list \<Rightarrow> bytes32 list \<times> nat \<Rightarrow> bool" where
  "signers_ok ed batch keys sigs uc = (case uc of (u, n) \<Rightarrow> distinct u \<and> length u = n \<and> set u \<subseteq> set keys
     \<and> (\<forall>k \<in> set u. \<exists>s. (k, s) \<in> set sigs \<and> verify_node_sig ed batch k s))"

lemma signers_ok_fold:
  "set ss \<subseteq> set sigs \<Longrightarrow> signers_ok ed batch keys sigs uc \<Longrightarrow>
     signers_ok ed batch keys sigs (fold (count_signer ed batch keys) ss uc)"
proof (induction ss arbitrary: uc)
  case (Cons ps ss)
  obtain k s u n where "ps = (k, s)" "uc = (u, n)" by (cases ps; cases uc)
  then have "signers_ok ed batch keys sigs (count_signer ed batch keys ps uc)"
    using Cons.prems by (auto simp: signers_ok_def count_signer_def)
  then show ?case using Cons by simp
qed simp

lemma approve_batch_fold:
  "approve_batch ed g self batch proof sigs \<longleftrightarrow> verify_proof g proof batch
     \<and> mw_threshold self \<le> snd (fold (count_signer ed batch (watchtower_keys self)) sigs ([], 0))"
proof -
  have "(\<lambda>(pubkey, sig) (unique, count).
      if pubkey \<notin> set (watchtower_keys self) then (unique, count)
      else if pubkey \<in> set unique then (unique, count)
      else if verify_node_sig ed batch pubkey sig then (pubkey # unique, count + 1)
      else (unique, count)) = count_signer ed batch (watchtower_keys self)"
    by (simp add: fun_eq_iff count_signer_def)
  then show ?thesis by (simp add: approve_batch_def case_prod_beta)
qed

lemma prove_verify:
  assumes "groth16_laws g" and "prove_batch g batch = Inr data"
    and "bytes_to_fe (tb_post_state_root batch) = (bytes_to_fe (tb_pre_state_root batch)
      + (\<Sum>t \<leftarrow> tb_trades batch. uint (m_amount t) * uint (m_price t))) mod FR_MODULUS"
  shows "verify_proof g data batch"
proof (rule prove_then_verify [OF assms(1,2)])
  note p = prove_batch_ok [OF assms(2)]
  have fold_sum: "fold (\<lambda>t acc. fr_add acc (fr_mul (fr_of_u64 (m_amount t)) (fr_of_u64 (m_price t)))) ts (s mod FR_MODULUS)
      = (s + (\<Sum>t \<leftarrow> ts. uint (m_amount t) * uint (m_price t))) mod FR_MODULUS" for ts :: "match_rec list" and s
  proof (induction ts arbitrary: s)
    case (Cons t ts)
    have "fr_add (s mod FR_MODULUS) (fr_mul (fr_of_u64 (m_amount t)) (fr_of_u64 (m_price t)))
        = (s + uint (m_amount t) * uint (m_price t)) mod FR_MODULUS"
      by (simp add: fr_add_def fr_mul_def fr_of_u64_def mod_simps)
    then show ?case using Cons by (simp add: add.assoc)
  qed simp
  show "bytes_to_fe (tb_post_state_root batch) = root_after (trade_rows batch) (bytes_to_fe (tb_pre_state_root batch))"
    using trade_rows_total [OF p(3,4), of "bytes_to_fe (tb_pre_state_root batch)"] fold_sum [of _ 0]
      bytes_to_fe_range assms(3) by (simp add: fr_add_def mod_simps)
qed

section \<open>A concrete backend\<close>

text \<open>
  An instance of the third-party operations for which the laws hold: proofs are empty and accepted,
  field elements are written in unary, and proof data with a continuation byte before every item.
\<close>

definition enc_bytes :: "bytes \<Rightarrow> bytes" where
  "enc_bytes xs = concat (map (\<lambda>b. [1, b]) xs) @ [0]"

definition enc_proof_data :: "bytes \<times> bytes list \<Rightarrow> bytes" where
  "enc_proof_data d = enc_bytes (fst d) @ concat (map (\<lambda>l. 1 # enc_bytes l) (snd d)) @ [0]"

lemma enc_bytes_prefix_free: "enc_bytes xs @ r = enc_bytes ys @ s \<longleftrightarrow> xs = ys \<and> r = s"
proof (induction xs arbitrary: ys)
  case Nil
  then show ?case by (cases ys) (auto simp: enc_bytes_def)
next
  case (Cons x xs)
  then show ?case by (cases ys) (auto simp: enc_bytes_def)
qed

lemma inj_enc_proof_data: "inj enc_proof_data"
proof (rule injI)
  fix d e assume eq: "enc_proof_data d = enc_proof_data e"
  obtain p ls q ms where de: "d = (p, ls)" "e = (q, ms)" by (cases d; cases e)
  have pq: "p = q" "concat (map (\<lambda>l. 1 # enc_bytes l) ls) @ [0] = concat (map (\<lambda>l. 1 # enc_bytes l) ms) @ [0 :: u8]"
    using eq unfolding de enc_proof_data_def by (simp_all add: enc_bytes_prefix_free)
  have "ls = ms" using pq(2)
  proof (induction ls arbitrary: ms)
    case Nil
    then show ?case by (cases ms) auto
  next
    case (Cons l ls)
    then show ?case by (cases ms) (auto simp: enc_bytes_prefix_free)
  qed
  then show "d = e" using de pq by simp
qed

definition demo_groth16 :: groth16 where
  "demo_groth16 = \<lparr>g_prove = (\<lambda>c. Inr []), g_verify = (\<lambda>p ins. True), g_proof_ok = (\<lambda>p. True),
     fr_serialize = (\<lambda>x. replicate (nat x) 0), fr_deserialize = (\<lambda>bs. Some (int (length bs))),
     json_to_vec = enc_proof_data, json_from_slice = (\<lambda>bs. Some (inv enc_proof_data bs))\<rparr>"

lemma demo_groth16_laws: "groth16_laws demo_groth16"
  by (simp add: groth16_laws_def demo_groth16_def inv_f_f [OF inj_enc_proof_data])

definition demo_ed25519 :: ed25519 where
  "demo_ed25519 = \<lparr>sk_public = (\<lambda>seed. zero32), sk_sign = (\<lambda>seed msg. replicate 64 0),
     vk_from_bytes_ok = (\<lambda>k. True), sig_from_slice_ok = (\<lambda>s. True), vk_verify = (\<lambda>k m s. True)\<rparr>"

lemma demo_ed25519_laws: "ed25519_laws demo_ed25519"
  by (simp add: ed25519_laws_def demo_ed25519_def)

definition demo_match :: "u64 \<Rightarrow> u64 \<Rightarrow> match_rec" where
  "demo_match price amount = match_of 0 demo_book (demo_order Buy 2 2 price amount) (demo_order Sell 1 1 price amount) amount"

definition demo_batch :: trade_batch where
  "demo_batch = \<lparr>tb_trades = [demo_match 3 5], tb_maker_balances = [1], tb_taker_balances = [20],
     tb_pre_state_root = zero32, tb_post_state_root = replicate 31 0 @ [15]\<rparr>"

lemma demo_match_simps [simp]: "m_price (demo_match p a) = p" "m_amount (demo_match p a) = a"
  by (simp_all add: demo_match_def match_of_def demo_order_def split: prod.splits)

lemma demo_roots: "bytes_to_fe zero32 = 0" "bytes_to_fe (replicate 31 0 @ [15]) = 15"
  by code_simp+

lemma demo_prove_batch: "\<exists>data. prove_batch demo_groth16 demo_batch = Inr data"
  by (simp add: prove_batch_def demo_batch_def demo_groth16_def insolvent_def MAX_BATCH_TRADES_def Let_def)

lemma demo_post_root: "bytes_to_fe (tb_post_state_root demo_batch) = (bytes_to_fe (tb_pre_state_root demo_batch)
    + (\<Sum>t \<leftarrow> tb_trades demo_batch. uint (m_amount t) * uint (m_price t))) mod FR_MODULUS"
  using demo_roots by (simp add: demo_batch_def FR_MODULUS_def)

section \<open>Properties\<close>

text \<open>C14. Soundness of the batch circuit: every assignment of the two public inputs and the witness
  that satisfies the generated constraints has a post root equal, in the field, to the pre root
  plus the sum of amount times price over the eight slots, and in every slot the maker gains and
  the taker loses exactly that slot's value.\<close>

theorem circuit_sound:
  assumes "generate_constraints c = Some cs0" and "cs = cs0\<lparr>cs_instance := [pre, post], cs_witness := w\<rparr>"
    and "satisfied cs"
  shows "post mod FR_MODULUS = (pre + (\<Sum>i < MAX_BATCH_TRADES. w ! (8 * i + 2) * w ! (8 * i + 3))) mod FR_MODULUS
    \<and> (\<forall>i < MAX_BATCH_TRADES.
          w ! (8 * i + 5) mod FR_MODULUS = (w ! (8 * i) + w ! (8 * i + 2) * w ! (8 * i + 3)) mod FR_MODULUS
        \<and> w ! (8 * i + 6) mod FR_MODULUS = (w ! (8 * i + 1) - w ! (8 * i + 2) * w ! (8 * i + 3)) mod FR_MODULUS)"
proof -
  have con: "cs_constraints cs = concat (map slot_constraints [0..<8])" and wit: "cs_witness cs = w"
    using generate_constraints_eq [OF assms(1)] assms(2) by auto
  have eqs: "\<forall>i < 8. slot_equations cs i" using satisfied_slots [OF con] assms(3) by simp
  have "root_at cs 8 = post" "root_at cs 0 = pre" using assms(2) by (simp_all add: root_at_def root_var_def)
  then have "cong_fr post (pre + (\<Sum>i < 8. w ! (8 * i + 2) * w ! (8 * i + 3)))"
    using roots_telescope [OF eqs, of 8] wit by simp
  moreover have "cong_fr (w ! (8 * i + 5)) (w ! (8 * i) + w ! (8 * i + 2) * w ! (8 * i + 3))
      \<and> cong_fr (w ! (8 * i + 6)) (w ! (8 * i + 1) - w ! (8 * i + 2) * w ! (8 * i + 3))" if "i < 8" for i
  proof -
    have e: "cong_fr (w ! (8 * i + 2) * w ! (8 * i + 3)) (w ! (8 * i + 4))"
      "cong_fr (w ! (8 * i) + w ! (8 * i + 4)) (w ! (8 * i + 5))"
      "cong_fr (w ! (8 * i + 1) - w ! (8 * i + 4)) (w ! (8 * i + 6))"
      using eqs that unfolding slot_equations_def wit Let_def by blast+
    show ?thesis
      unfolding e(2,3) [symmetric] by (intro conjI mod_add_cong mod_diff_cong refl e(1) [symmetric])
  qed
  ultimately show ?thesis unfolding MAX_BATCH_TRADES_def by blast
qed

theorem circuit_sound_witness:
  "\<exists>cs. generate_constraints setup_circuit = Some cs
     \<and> (\<forall>i < MAX_BATCH_TRADES. cs_witness cs ! (8 * i + 5) mod FR_MODULUS
          = (cs_witness cs ! (8 * i) + cs_witness cs ! (8 * i + 2) * cs_witness cs ! (8 * i + 3)) mod FR_MODULUS)"
proof -
  let ?t = "replicate 8 (10, 10, 1, 1) :: (u64 \<times> u64 \<times> u64 \<times> u64) list"
  obtain cs where cs: "generate_constraints (padded_witness ?t 0) = Some cs"
    using padded_generates [of ?t 0] by auto
  have "satisfied cs \<and> cs_instance cs = [0, root_after ?t 0]" by (rule padded_satisfied [OF _ _ _ cs]) simp_all
  moreover from this have "cs = cs\<lparr>cs_instance := [0, root_after ?t 0], cs_witness := cs_witness cs\<rparr>" by simp
  moreover have "setup_circuit = padded_witness ?t 0"
    by (simp add: setup_circuit_def MAX_BATCH_TRADES_def fr_of_u64_def)
  ultimately show ?thesis
    using circuit_sound [OF cs, where cs = cs and w = "cs_witness cs" and pre = 0 and post = "root_after ?t 0"] cs
    by (intro exI [of _ cs]) simp
qed

text \<open>C35. Round trip: a batch that \<^verbatim>\<open>prove_batch\<close> proves is accepted by \<^verbatim>\<open>verify_proof\<close>, however
  many padding slots it needed, when its post root encodes the pre root plus the sum of its trade
  values.\<close>

theorem proved_batch_verifies:
  assumes "groth16_laws g" and "prove_batch g batch = Inr data"
    and "bytes_to_fe (tb_post_state_root batch) = (bytes_to_fe (tb_pre_state_root batch)
      + (\<Sum>t \<leftarrow> tb_trades batch. uint (m_amount t) * uint (m_price t))) mod FR_MODULUS"
  shows "verify_proof g data batch"
  using assms by (rule prove_verify)

theorem proved_batch_verifies_witness:
  "\<exists>data. prove_batch demo_groth16 demo_batch = Inr data \<and> verify_proof demo_groth16 data demo_batch"
  using demo_prove_batch proved_batch_verifies [OF demo_groth16_laws _ demo_post_root] by blast

text \<open>C24. Multi-watchtower approval: an approved batch has a verifying proof and carries valid
  signatures of at least threshold many different registered watchtowers.\<close>

theorem approval_needs_distinct_watchtowers:
  assumes "approve_batch ed g self batch proof sigs"
  shows "verify_proof g proof batch
    \<and> (\<exists>S. S \<subseteq> set (watchtower_keys self) \<and> mw_threshold self \<le> card S
        \<and> (\<forall>k \<in> S. \<exists>s. (k, s) \<in> set sigs \<and> verify_node_sig ed batch k s))"
proof -
  obtain u n where un: "fold (count_signer ed batch (watchtower_keys self)) sigs ([], 0) = (u, n)" by (cases "fold (count_signer ed batch (watchtower_keys self)) sigs ([], 0)")
  have "signers_ok ed batch (watchtower_keys self) sigs (u, n)"
    using signers_ok_fold [of sigs sigs ed batch "watchtower_keys self" "([], 0)"] un by (simp add: signers_ok_def)
  then have "set u \<subseteq> set (watchtower_keys self)" "card (set u) = n"
    "\<forall>k \<in> set u. \<exists>s. (k, s) \<in> set sigs \<and> verify_node_sig ed batch k s"
    by (auto simp: signers_ok_def distinct_card)
  then show ?thesis using assms un by (auto simp: approve_batch_fold intro!: exI [of _ "set u"])
qed

theorem approval_needs_distinct_watchtowers_witness:
  "\<exists>data S. verify_proof demo_groth16 data demo_batch \<and> S \<subseteq> {zero32} \<and> (1 :: nat) \<le> card S"
proof -
  obtain data where "prove_batch demo_groth16 demo_batch = Inr data" using demo_prove_batch by blast
  then have "verify_proof demo_groth16 data demo_batch" using demo_groth16_laws demo_post_root by (blast intro: prove_verify)
  then have "approve_batch demo_ed25519 demo_groth16 \<lparr>mw_threshold = 1, watchtower_keys = [zero32]\<rparr> demo_batch data [(zero32, [])]"
    by (simp add: approve_batch_def verify_node_sig_def demo_ed25519_def)
  from approval_needs_distinct_watchtowers [OF this] show ?thesis by auto
qed

text \<open>The plain threshold check has no such guarantee: one signer listed twice counts twice.\<close>

lemma verify_threshold_counts_duplicates:
  assumes "ed25519_laws ed"
  shows "verify_threshold ed batch (replicate n (sk_public ed seed, sign_batch ed batch seed)) n"
proof -
  have "verify_node_sig ed batch (sk_public ed seed) (sign_batch ed batch seed)"
    using assms by (simp add: verify_node_sig_def sign_batch_def ed25519_laws_def)
  then have "fold (\<lambda>(pubkey, sig) c. if verify_node_sig ed batch pubkey sig then c + 1 else c)
      (replicate n (sk_public ed seed, sign_batch ed batch seed)) m = m + n" for m :: nat
    by (induction n arbitrary: m) simp_all
  then show ?thesis by (simp add: verify_threshold_def)
qed

text \<open>Nor does the circuit bound the taker: a slot whose taker balance is 0 and whose value is 1
  satisfies the constraints, with the field element minus one as the balance after.\<close>

lemma minus_one_mod_FR: "- 1 mod FR_MODULUS = FR_MODULUS - 1"
  by (simp add: FR_MODULUS_def)

lemma circuit_accepts_insolvent_taker:
  "\<exists>cs. generate_constraints (padded_witness [(0, 0, 1, 1)] 0) = Some cs \<and> satisfied cs
     \<and> cs_witness cs ! 1 = 0 \<and> cs_witness cs ! 6 = FR_MODULUS - 1"
proof -
  let ?t = "[(0, 0, 1, 1)] :: (u64 \<times> u64 \<times> u64 \<times> u64) list"
  obtain cs where cs: "generate_constraints (padded_witness ?t 0) = Some cs"
    using padded_generates [of ?t 0] by auto
  have "satisfied cs" using padded_satisfied [OF _ _ _ cs] by simp
  moreover have "slot_values (padded_witness ?t 0) (cs_witness cs) 0"
    using generate_constraints_eq [OF cs] by auto
  moreover have "slot (c_taker_balance_pre (padded_witness ?t 0)) 0 = Some 0"
    "slot (c_taker_balance_post (padded_witness ?t 0)) 0 = Some (FR_MODULUS - 1)"
    using padded_slots(2,6) [of ?t 0 0 0 1 1 0]
    by (simp_all add: pad_rows_def fr_of_u64_def fr_sub_def row_value_def fr_mul_def minus_one_mod_FR)
  ultimately show ?thesis using cs by (auto simp: slot_values_def)
qed

end
