(* ===== verification/Orderlog.thy ===== *)
theory Orderlog
  imports Prover
begin

text \<open>
  The \<^verbatim>\<open>orderlog\<close> crate: signed order receipts and the hash-chained log, with its archival split,
  its remote append and the chain verification an auditor runs.

  SHA-256 and the JSON encoding of a payload are arguments (\<open>sha\<close>, \<open>ser\<close>). Nothing is assumed of
  SHA-256 but its output length: where a result rests on collision resistance, its conclusion
  names the collision.
\<close>

section \<open>Receipts\<close>

record order_receipt =
  r_order_id :: bytes32
  r_trader :: bytes32
  r_symbol :: string
  r_side :: order_side
  r_price :: u64
  r_amount :: u64
  r_nonce :: u64
  r_expiry :: u64
  r_settlement_preference :: settlement_preference
  r_settlement_requester :: settlement_requester
  r_received_at_us :: u64
  r_node_pubkey :: bytes32
  r_signature :: bytes

fun side_byte :: "order_side \<Rightarrow> u8" where
  "side_byte Buy = 0"
| "side_byte Sell = 1"

fun preference_byte :: "settlement_preference \<Rightarrow> u8" where
  "preference_byte Standard = 0"
| "preference_byte Express = 1"
| "preference_byte Instant = 2"

fun requester_byte :: "settlement_requester \<Rightarrow> u8" where
  "requester_byte Seller = 0"
| "requester_byte Buyer = 1"

definition receipt_message ::
    "bytes32 \<Rightarrow> bytes32 \<Rightarrow> string \<Rightarrow> order_side \<Rightarrow> u64 \<Rightarrow> u64 \<Rightarrow> u64 \<Rightarrow> u64 \<Rightarrow>
     settlement_preference \<Rightarrow> settlement_requester \<Rightarrow> u64 \<Rightarrow> bytes" where
  "receipt_message order_id trader symb side price amount nonce expiry preference requester received_at_us =
     order_id @ trader @ as_bytes symb @ [side_byte side] @ be_bytes price @ be_bytes amount @ be_bytes nonce
     @ be_bytes expiry @ [preference_byte preference] @ [requester_byte requester] @ be_bytes received_at_us"

definition sign_receipt ::
    "ed25519 \<Rightarrow> u64 \<Rightarrow> bytes32 \<Rightarrow> bytes32 \<Rightarrow> bytes32 \<Rightarrow> string \<Rightarrow> order_side \<Rightarrow> u64 \<Rightarrow> u64 \<Rightarrow> u64 \<Rightarrow> u64 \<Rightarrow>
     settlement_preference \<Rightarrow> settlement_requester \<Rightarrow> order_receipt" where
  "sign_receipt ed now_us signing_key order_id trader symb side price amount nonce expiry preference requester =
     (let received_at_us = now_us;
          msg = receipt_message order_id trader symb side price amount nonce expiry preference requester received_at_us;
          signature = sk_sign ed signing_key msg
      in \<lparr>r_order_id = order_id, r_trader = trader, r_symbol = symb, r_side = side, r_price = price,
          r_amount = amount, r_nonce = nonce, r_expiry = expiry, r_settlement_preference = preference,
          r_settlement_requester = requester, r_received_at_us = received_at_us,
          r_node_pubkey = sk_public ed signing_key, r_signature = signature\<rparr>)"

definition verify_receipt :: "ed25519 \<Rightarrow> order_receipt \<Rightarrow> bool" where
  "verify_receipt ed receipt =
     (if \<not> vk_from_bytes_ok ed (r_node_pubkey receipt) then False
      else if length (r_signature receipt) \<noteq> 64 then False
      else vk_verify ed (r_node_pubkey receipt)
        (receipt_message (r_order_id receipt) (r_trader receipt) (r_symbol receipt) (r_side receipt)
          (r_price receipt) (r_amount receipt) (r_nonce receipt) (r_expiry receipt)
          (r_settlement_preference receipt) (r_settlement_requester receipt) (r_received_at_us receipt))
        (r_signature receipt))"

section \<open>The hash-chained log\<close>

record 'a log_entry =
  le_seq :: u64
  le_prev_hash :: bytes32
  le_entry_hash :: bytes32
  le_payload :: 'a

record 'a hash_chain_log =
  base_seq :: u64
  base_prev_hash :: bytes32
  log_entries :: "'a log_entry list"

type_synonym sha_fn = "bytes \<Rightarrow> bytes32"

definition compute_entry_hash :: "sha_fn \<Rightarrow> ('a \<Rightarrow> bytes) \<Rightarrow> u64 \<Rightarrow> bytes32 \<Rightarrow> 'a \<Rightarrow> bytes32" where
  "compute_entry_hash sha ser seq prev_hash payload = sha (be_bytes seq @ prev_hash @ ser payload)"

definition new_log :: "'a hash_chain_log" where
  "new_log = \<lparr>base_seq = 0, base_prev_hash = zero32, log_entries = []\<rparr>"

definition resume_from :: "u64 \<Rightarrow> bytes32 \<Rightarrow> 'a hash_chain_log" where
  "resume_from next_seq prev_root = \<lparr>base_seq = next_seq, base_prev_hash = prev_root, log_entries = []\<rparr>"

text \<open>\<^verbatim>\<open>entries.last().map(|e| e.entry_hash).unwrap_or(base)\<close>\<close>

definition last_hash :: "bytes32 \<Rightarrow> 'a log_entry list \<Rightarrow> bytes32" where
  "last_hash base es = (if es = [] then base else le_entry_hash (last es))"

definition log_len :: "'a hash_chain_log \<Rightarrow> usize" where
  "log_len self = of_nat (length (log_entries self))"

definition log_root :: "'a hash_chain_log \<Rightarrow> bytes32" where
  "log_root self = last_hash (base_prev_hash self) (log_entries self)"

definition next_seq :: "'a hash_chain_log \<Rightarrow> u64" where
  "next_seq self = base_seq self + of_nat (length (log_entries self))"

definition split_off_archived :: "u64 \<Rightarrow> 'a hash_chain_log \<Rightarrow> 'a log_entry list \<times> 'a hash_chain_log" where
  "split_off_archived keep_from_seq self =
     (let local_cutoff = min (saturating_sub keep_from_seq (base_seq self)) (of_nat (length (log_entries self)));
          archived = take (unat local_cutoff) (log_entries self);
          hot_entries = drop (unat local_cutoff) (log_entries self);
          new_base_prev_hash = last_hash (base_prev_hash self) archived;
          new_base_seq = base_seq self + local_cutoff
      in (archived, \<lparr>base_seq = new_base_seq, base_prev_hash = new_base_prev_hash, log_entries = hot_entries\<rparr>))"

definition log_append :: "sha_fn \<Rightarrow> ('a \<Rightarrow> bytes) \<Rightarrow> 'a \<Rightarrow> 'a hash_chain_log \<Rightarrow> 'a hash_chain_log \<times> 'a log_entry" where
  "log_append sha ser payload self =
     (let seq = next_seq self;
          prev_hash = last_hash (base_prev_hash self) (log_entries self);
          entry_hash = compute_entry_hash sha ser seq prev_hash payload;
          entry = \<lparr>le_seq = seq, le_prev_hash = prev_hash, le_entry_hash = entry_hash, le_payload = payload\<rparr>
      in (self\<lparr>log_entries := log_entries self @ [entry]\<rparr>, entry))"

definition entries_since :: "u64 \<Rightarrow> 'a hash_chain_log \<Rightarrow> 'a log_entry list" where
  "entries_since seq self =
     (let start = min (saturating_sub seq (base_seq self)) (of_nat (length (log_entries self)))
      in drop (unat start) (log_entries self))"

definition verify_next_entry :: "sha_fn \<Rightarrow> ('a \<Rightarrow> bytes) \<Rightarrow> bytes32 \<Rightarrow> u64 \<Rightarrow> 'a log_entry \<Rightarrow> bool" where
  "verify_next_entry sha ser current_root expected_seq entry \<longleftrightarrow>
     le_seq entry = expected_seq \<and> le_prev_hash entry = current_root
     \<and> le_entry_hash entry = compute_entry_hash sha ser (le_seq entry) (le_prev_hash entry) (le_payload entry)"

definition hex_digit :: "nat \<Rightarrow> char" where
  "hex_digit n = ''0123456789abcdef'' ! n"

definition hex_byte :: "u8 \<Rightarrow> string" where
  "hex_byte b = [hex_digit (unat b div 16), hex_digit (unat b mod 16)]"

definition hex_prefix :: "bytes32 \<Rightarrow> string" where
  "hex_prefix bs = concat (map hex_byte (take 4 bs))"

text \<open>The fields of the formatted message of a rejected entry.\<close>

datatype remote_error = NotAnExtension u64 string u64

definition try_append_remote ::
    "sha_fn \<Rightarrow> ('a \<Rightarrow> bytes) \<Rightarrow> 'a log_entry \<Rightarrow> 'a hash_chain_log \<Rightarrow> remote_error + 'a hash_chain_log" where
  "try_append_remote sha ser entry self =
     (if \<not> verify_next_entry sha ser (log_root self) (next_seq self) entry
      then Inl (NotAnExtension (le_seq entry) (hex_prefix (log_root self)) (next_seq self))
      else Inr (self\<lparr>log_entries := log_entries self @ [entry]\<rparr>))"

text \<open>The loop of \<^verbatim>\<open>verify_chain_segment\<close>; \<open>i\<close> is the index of the entry at the head.\<close>

fun verify_segment_from ::
    "sha_fn \<Rightarrow> ('a \<Rightarrow> bytes) \<Rightarrow> u64 \<Rightarrow> nat \<Rightarrow> bytes32 \<Rightarrow> 'a log_entry list \<Rightarrow> bool" where
  "verify_segment_from sha ser start_seq i prev_hash [] = True"
| "verify_segment_from sha ser start_seq i prev_hash (entry # es) =
     (case checked_add start_seq (of_nat i) of
        None \<Rightarrow> False
      | Some expected_seq \<Rightarrow>
          if le_seq entry \<noteq> expected_seq then False
          else if le_prev_hash entry \<noteq> prev_hash then False
          else if compute_entry_hash sha ser (le_seq entry) (le_prev_hash entry) (le_payload entry) \<noteq> le_entry_hash entry
               then False
          else verify_segment_from sha ser start_seq (Suc i) (le_entry_hash entry) es)"

definition verify_chain_segment :: "sha_fn \<Rightarrow> ('a \<Rightarrow> bytes) \<Rightarrow> u64 \<Rightarrow> bytes32 \<Rightarrow> 'a log_entry list \<Rightarrow> bool" where
  "verify_chain_segment sha ser start_seq start_prev_hash entries =
     verify_segment_from sha ser start_seq 0 start_prev_hash entries"

definition verify_chain :: "sha_fn \<Rightarrow> ('a \<Rightarrow> bytes) \<Rightarrow> 'a log_entry list \<Rightarrow> bool" where
  "verify_chain sha ser entries = verify_chain_segment sha ser 0 zero32 entries"

section \<open>Chains\<close>

text \<open>The chain condition with sequence numbers in the naturals.\<close>

fun chain :: "sha_fn \<Rightarrow> ('a \<Rightarrow> bytes) \<Rightarrow> nat \<Rightarrow> bytes32 \<Rightarrow> 'a log_entry list \<Rightarrow> bool" where
  "chain sha ser n p [] = True"
| "chain sha ser n p (e # es) \<longleftrightarrow> n < 2 ^ 64 \<and> verify_next_entry sha ser p (of_nat n) e
     \<and> chain sha ser (Suc n) (le_entry_hash e) es"

lemma verify_segment_chain:
  "i + length es \<le> 2 ^ 64 \<Longrightarrow>
     verify_segment_from sha ser s i p es \<longleftrightarrow> chain sha ser (unat s + i) p es"
proof (induction es arbitrary: i p)
  case (Cons e es)
  have i: "unat (of_nat i :: u64) = i" using Cons.prems by (simp add: unat_of_nat)
  have IH: "verify_segment_from sha ser s (Suc i) (le_entry_hash e) es \<longleftrightarrow> chain sha ser (Suc (unat s + i)) (le_entry_hash e) es"
    using Cons.IH [of "Suc i"] Cons.prems by simp
  show ?case using i unfolding verify_segment_from.simps chain.simps IH
    by (auto simp: checked_add_def verify_next_entry_def)
qed simp

lemma verify_chain_segment_chain [log_simps]:
  "length es < 2 ^ 64 \<Longrightarrow> verify_chain_segment sha ser s p es \<longleftrightarrow> chain sha ser (unat s) p es"
  by (simp add: verify_chain_segment_def verify_segment_chain)

lemma last_hash_simps [simp]: "last_hash p [] = p" "last_hash p (e # es) = last_hash (le_entry_hash e) es"
    "last_hash p (es @ [e]) = le_entry_hash e"
  by (auto simp: last_hash_def)

lemma last_hash_append: "last_hash p (xs @ ys) = last_hash (last_hash p xs) ys"
  by (auto simp: last_hash_def)

lemma chain_append [log_simps]:
  "chain sha ser n p (xs @ ys) \<longleftrightarrow> chain sha ser n p xs \<and> chain sha ser (n + length xs) (last_hash p xs) ys"
  by (induction xs arbitrary: n p) auto

lemma chain_nth:
  "chain sha ser n p es \<Longrightarrow> i < length es \<Longrightarrow> n + i < 2 ^ 64 \<and> unat (le_seq (es ! i)) = n + i"
proof (induction es arbitrary: n p i)
  case (Cons e es)
  then show ?case
    using Cons.IH [of "Suc n" "le_entry_hash e" "i - 1"]
    by (cases i) (auto simp: verify_next_entry_def unat_of_nat)
qed simp

lemma chain_bound: "chain sha ser n p es \<Longrightarrow> es \<noteq> [] \<Longrightarrow> n + length es \<le> 2 ^ 64"
  using chain_nth [of sha ser n p es "length es - 1"] by (cases es) auto

lemma chain_hash_length:
  "chain sha ser n p es \<Longrightarrow> \<forall>m. length (sha m) = 32 \<Longrightarrow> length p = 32 \<Longrightarrow> length (last_hash p es) = 32"
  by (induction es arbitrary: n p) (auto simp: verify_next_entry_def compute_entry_hash_def)

definition collision :: "sha_fn \<Rightarrow> bool" where
  "collision sha = (\<exists>m m'. m \<noteq> m' \<and> sha m = sha m')"

lemma entry_hash_inject:
  assumes "compute_entry_hash sha ser s p x = compute_entry_hash sha ser s' p' x'" and "\<not> collision sha"
    and "length p = length p'" and "inj ser"
  shows "s = s' \<and> p = p' \<and> x = x'"
proof -
  have "be_bytes s @ p @ ser x = be_bytes s' @ p' @ ser x'"
    using assms(1,2) unfolding compute_entry_hash_def collision_def by blast
  then show ?thesis using assms(3,4) by (simp add: inj_eq)
qed

lemma chain_tamper:
  assumes "\<forall>m. length (sha m) = 32" and "inj ser" and "\<not> collision sha" and "length p = 32"
  shows "chain sha ser n p xs \<Longrightarrow> chain sha ser n p ys \<Longrightarrow> length xs = length ys \<Longrightarrow>
    last_hash p xs = last_hash p ys \<Longrightarrow> xs = ys"
proof (induction xs arbitrary: ys rule: rev_induct)
  case (snoc x xs)
  obtain y zs where ys: "ys = zs @ [y]" using snoc.prems(3) by (cases ys rule: rev_cases) auto
  have cx: "chain sha ser n p xs" "verify_next_entry sha ser (last_hash p xs) (of_nat (n + length xs)) x"
    and cy: "chain sha ser n p zs" "verify_next_entry sha ser (last_hash p zs) (of_nat (n + length zs)) y"
    using snoc.prems(1,2) ys by (simp_all add: chain_append)
  have "length (last_hash p xs) = length (last_hash p zs)"
    using chain_hash_length [OF cx(1) assms(1,4)] chain_hash_length [OF cy(1) assms(1,4)] by simp
  moreover have "le_entry_hash x = le_entry_hash y" using snoc.prems(4) ys by simp
  ultimately have eq: "le_seq x = le_seq y \<and> le_prev_hash x = le_prev_hash y \<and> le_payload x = le_payload y"
    using cx(2) cy(2) entry_hash_inject [OF _ assms(3) _ assms(2)] unfolding verify_next_entry_def by metis
  then have "last_hash p xs = last_hash p zs" using cx(2) cy(2) by (simp add: verify_next_entry_def)
  then have "xs = zs" using snoc.IH [OF cx(1) cy(1)] snoc.prems(3) ys by simp
  moreover have "x = y" using eq \<open>le_entry_hash x = le_entry_hash y\<close> by simp
  ultimately show ?case using ys by simp
qed simp

lemma chain_lengths:
  assumes "\<forall>m. length (sha m) = 32" and "inj ser" and "\<not> collision sha" and "length p = 32"
    and "chain sha ser n p xs" "chain sha ser n p ys" "xs \<noteq> []" "ys \<noteq> []" "last_hash p xs = last_hash p ys"
  shows "length xs = length ys"
proof -
  obtain x us y vs where sp: "xs = us @ [x]" "ys = vs @ [y]" using assms(7,8) by (meson rev_exhaust)
  have cx: "chain sha ser n p us" "n + length us < 2 ^ 64" "verify_next_entry sha ser (last_hash p us) (of_nat (n + length us)) x"
    and cy: "chain sha ser n p vs" "n + length vs < 2 ^ 64" "verify_next_entry sha ser (last_hash p vs) (of_nat (n + length vs)) y"
    using assms(5,6) sp by (simp_all add: chain_append)
  have "length (last_hash p us) = length (last_hash p vs)"
    using chain_hash_length [OF cx(1) assms(1,4)] chain_hash_length [OF cy(1) assms(1,4)] by simp
  moreover have "le_entry_hash x = le_entry_hash y" using assms(9) sp by simp
  ultimately have "le_seq x = le_seq y"
    using cx(3) cy(3) entry_hash_inject [OF _ assms(3) _ assms(2)] unfolding verify_next_entry_def by metis
  then have "(of_nat (n + length us) :: u64) = of_nat (n + length vs)"
    using cx(3) cy(3) by (simp add: verify_next_entry_def)
  then have "unat (of_nat (n + length us) :: u64) = unat (of_nat (n + length vs) :: u64)" by (rule arg_cong)
  then have "n + length us = n + length vs" using cx(2) cy(2) unfolding unat_of_nat by simp
  then show ?thesis using sp by simp
qed

section \<open>The log's invariant\<close>

definition log_ok :: "sha_fn \<Rightarrow> ('a \<Rightarrow> bytes) \<Rightarrow> 'a hash_chain_log \<Rightarrow> bool" where
  "log_ok sha ser l \<longleftrightarrow> chain sha ser (unat (base_seq l)) (base_prev_hash l) (log_entries l)
     \<and> unat (base_seq l) + length (log_entries l) < 2 ^ 64"

definition payloads :: "'a hash_chain_log \<Rightarrow> 'a list" where
  "payloads l = map le_payload (log_entries l)"

definition log_room :: "'a hash_chain_log \<Rightarrow> nat" where
  "log_room l = 2 ^ 64 - 1 - (unat (base_seq l) + length (log_entries l))"

lemma unat_next_seq: "log_ok sha ser l \<Longrightarrow> unat (next_seq l) = unat (base_seq l) + length (log_entries l)"
  by (simp add: log_ok_def next_seq_def unat_word_ariths unat_of_nat)

lemma next_seq_of_nat: "next_seq l = of_nat (unat (base_seq l) + length (log_entries l))"
  by (simp add: next_seq_def)

lemma log_ok_extend:
  "log_ok sha ser l \<Longrightarrow> 0 < log_room l \<Longrightarrow> verify_next_entry sha ser (log_root l) (next_seq l) e \<Longrightarrow>
     log_ok sha ser (l\<lparr>log_entries := log_entries l @ [e]\<rparr>)"
  by (simp add: log_ok_def chain_append log_room_def log_root_def next_seq_of_nat)

lemma log_ok_append:
  assumes "log_ok sha ser l" and "0 < log_room l"
  shows "log_ok sha ser (fst (log_append sha ser x l)) \<and> payloads (fst (log_append sha ser x l)) = payloads l @ [x]
    \<and> Suc (log_room (fst (log_append sha ser x l))) = log_room l"
proof -
  have "verify_next_entry sha ser (log_root l) (next_seq l) (snd (log_append sha ser x l))"
    by (simp add: log_append_def Let_def verify_next_entry_def log_root_def)
  then show ?thesis
    using log_ok_extend [OF assms] assms(2)
    by (auto simp: log_append_def Let_def payloads_def log_room_def)
qed

text \<open>
  A journal: what a client that only appends relies on. It holds what was appended, in order, for as
  long as there is room for another sequence number.
\<close>

locale journal =
  fixes ok :: "'l \<Rightarrow> bool" and items :: "'l \<Rightarrow> 'a list" and add :: "'a \<Rightarrow> 'l \<Rightarrow> 'l" and room :: "'l \<Rightarrow> nat"
  assumes add_ok: "ok l \<Longrightarrow> 0 < room l \<Longrightarrow> ok (add x l)"
    and add_items: "ok l \<Longrightarrow> 0 < room l \<Longrightarrow> items (add x l) = items l @ [x]"
    and add_room: "ok l \<Longrightarrow> 0 < room l \<Longrightarrow> Suc (room (add x l)) = room l"
begin

lemma adds:
  "ok l \<Longrightarrow> length xs \<le> room l \<Longrightarrow> ok (fold add xs l) \<and> items (fold add xs l) = items l @ xs
     \<and> room (fold add xs l) + length xs = room l"
proof (induction xs arbitrary: l)
  case (Cons x xs)
  then have "ok (add x l)" "items (add x l) = items l @ [x]" "Suc (room (add x l)) = room l"
    by (auto intro: add_ok add_items add_room)
  with Cons.IH [of "add x l"] Cons.prems show ?case by auto
qed simp

end

interpretation hlog: journal "log_ok sha ser" payloads "\<lambda>x l. fst (log_append sha ser x l)" log_room
  for sha :: sha_fn and ser :: "'a \<Rightarrow> bytes"
  by unfold_locales (auto dest: log_ok_append)

section \<open>The archival split\<close>

definition archive_cutoff :: "u64 \<Rightarrow> 'a hash_chain_log \<Rightarrow> nat" where
  "archive_cutoff k l = min (unat k - unat (base_seq l)) (length (log_entries l))"

lemma unat_saturating_sub: "unat (saturating_sub a b) = unat a - unat b"
  by (auto simp: saturating_sub_def unat_sub word_le_nat_alt word_less_nat_alt not_less)

lemma unat_min_len:
  "length xs < 2 ^ 64 \<Longrightarrow> unat (min (saturating_sub k b) (of_nat (length xs)) :: u64) = min (unat k - unat b) (length xs)"
  by (auto simp: min_def word_le_nat_alt unat_of_nat unat_saturating_sub)

lemma split_off_archived_eq:
  assumes "log_ok sha ser l"
  shows "split_off_archived k l = (take (archive_cutoff k l) (log_entries l),
    \<lparr>base_seq = of_nat (unat (base_seq l) + archive_cutoff k l),
     base_prev_hash = last_hash (base_prev_hash l) (take (archive_cutoff k l) (log_entries l)),
     log_entries = drop (archive_cutoff k l) (log_entries l)\<rparr>)"
proof -
  have len: "length (log_entries l) < 2 ^ 64" using assms by (simp add: log_ok_def)
  let ?c = "min (saturating_sub k (base_seq l)) (of_nat (length (log_entries l))) :: u64"
  have c: "unat ?c = archive_cutoff k l" using unat_min_len [OF len] by (simp add: archive_cutoff_def)
  then have "?c = of_nat (archive_cutoff k l)" unfolding c [symmetric] by simp
  then show ?thesis using c by (simp add: split_off_archived_def Let_def)
qed

lemma entries_since_filter:
  assumes "log_ok sha ser l"
  shows "entries_since k l = filter (\<lambda>e. k \<le> le_seq e) (log_entries l)"
proof -
  have len: "length (log_entries l) < 2 ^ 64" using assms by (simp add: log_ok_def)
  let ?es = "log_entries l" and ?n = "unat (base_seq l)"
  have "filter (\<lambda>e. k \<le> le_seq e) es = drop (unat k - n) es" if "chain sha ser n p es" for n p and es :: "'a log_entry list"
    using that
  proof (induction es arbitrary: n p)
    case (Cons e es)
    then have e: "unat (le_seq e) = n" and IH: "filter (\<lambda>e. k \<le> le_seq e) es = drop (unat k - Suc n) es"
      by (auto simp: verify_next_entry_def unat_of_nat)
    show ?case
    proof (cases "unat k \<le> n")
      case True
      then show ?thesis using e IH by (simp add: word_le_nat_alt)
    next
      case False
      then have "unat k - n = Suc (unat k - Suc n)" by simp
      then show ?thesis using e IH False by (simp add: word_le_nat_alt)
    qed
  qed simp
  then have "filter (\<lambda>e. k \<le> le_seq e) ?es = drop (unat k - ?n) ?es" using assms by (auto simp: log_ok_def)
  moreover have "drop (unat k - ?n) ?es = drop (min (unat k - ?n) (length ?es)) ?es" by (simp add: min_def)
  ultimately show ?thesis using unat_min_len [OF len] by (simp add: entries_since_def Let_def)
qed

section \<open>Properties\<close>

lemma receipt_message_inject:
  assumes eq: "receipt_message i t s d p a n e f q r = receipt_message i' t' s' d' p' a' n' e' f' q' r'"
    and len: "length i = 32" "length i' = 32" "length t = 32" "length t' = 32"
  shows "i = i' \<and> t = t' \<and> s = s' \<and> d = d' \<and> p = p' \<and> a = a' \<and> n = n' \<and> e = e' \<and> f = f' \<and> q = q' \<and> r = r'"
proof -
  have "length (receipt_message i t s d p a n e f q r) = length (receipt_message i' t' s' d' p' a' n' e' f' q' r')"
    using eq by simp
  then have "length s = length s'" using len by (simp add: receipt_message_def)
  moreover have "side_byte d = side_byte d' \<longleftrightarrow> d = d'" by (cases d; cases d') simp_all
  moreover have "preference_byte f = preference_byte f' \<longleftrightarrow> f = f'" by (cases f; cases f') simp_all
  moreover have "requester_byte q = requester_byte q' \<longleftrightarrow> q = q'" by (cases q; cases q') simp_all
  ultimately show ?thesis using eq len by (simp add: receipt_message_def)
qed

text \<open>The signed receipt message is unambiguous: although the symbol carries no length prefix,
  two field lists with 32-byte ids that give the same bytes are the same field list.\<close>

theorem receipt_message_unambiguous:
  assumes "length i = 32" "length i' = 32" "length t = 32" "length t' = 32"
  shows "receipt_message i t s d p a n e f q r = receipt_message i' t' s' d' p' a' n' e' f' q' r'
    \<longleftrightarrow> (i, t, s, d, p, a, n, e, f, q, r) = (i', t', s', d', p', a', n', e', f', q', r')"
  using receipt_message_inject [OF _ assms] by auto

theorem receipt_message_unambiguous_witness:
  "receipt_message zero32 zero32 ''AB'' Buy 1 2 3 4 Standard Seller 5
     \<noteq> receipt_message zero32 zero32 ''A'' Sell 1 2 3 4 Standard Seller 5"
  by (subst receipt_message_unambiguous) simp_all

text \<open>Receipt round trip: every receipt a node signs verifies from its own fields.\<close>

theorem signed_receipt_verifies:
  assumes "ed25519_laws ed"
  shows "verify_receipt ed (sign_receipt ed now key i t s d p a n e f q)"
  using assms by (simp add: verify_receipt_def sign_receipt_def ed25519_laws_def Let_def)

theorem signed_receipt_verifies_witness:
  "verify_receipt demo_ed25519 (sign_receipt demo_ed25519 7 zero32 zero32 zero32 ''AB'' Buy 1 2 3 4 Standard Seller)"
  by (rule signed_receipt_verifies [OF demo_ed25519_laws])



text \<open>Verification composes: a history verifies exactly when its archived prefix does and the rest
  verifies as a segment from the prefix's length and final hash, so an auditor never needs both
  parts at once.\<close>

theorem segments_compose:
  assumes "length (xs @ ys) < 2 ^ 64"
  shows "verify_chain sha ser (xs @ ys) \<longleftrightarrow> verify_chain sha ser xs
    \<and> verify_chain_segment sha ser (of_nat (length xs)) (last_hash zero32 xs) ys"
  using assms by (simp add: verify_chain_def verify_chain_segment_chain chain_append unat_of_nat)

theorem segments_compose_witness:
  "verify_chain (\<lambda>m. zero32) (\<lambda>x :: bytes. x) ([] @ [\<lparr>le_seq = 0, le_prev_hash = zero32, le_entry_hash = zero32, le_payload = []\<rparr>])"
  by (subst segments_compose)
    (simp_all add: verify_chain_def verify_chain_segment_def checked_add_def compute_entry_hash_def)

text \<open>C34. The archival split loses nothing: for every consistent log and cut-off, the archived prefix and
  the resumed log together hold the log's entries, the prefix verifies from the old base, the
  resumed log is consistent, and it has the same root and next sequence number, so every later
  append produces the same entry as on the unsplit log.\<close>

theorem archival_split_transparent:
  assumes "log_ok sha ser l" and "split_off_archived k l = (archived, hot)"
  shows "archived @ log_entries hot = log_entries l
    \<and> verify_chain_segment sha ser (base_seq l) (base_prev_hash l) archived \<and> log_ok sha ser hot
    \<and> log_root hot = log_root l \<and> next_seq hot = next_seq l
    \<and> snd (log_append sha ser x hot) = snd (log_append sha ser x l)"
proof -
  let ?c = "archive_cutoff k l" and ?es = "log_entries l" and ?n = "unat (base_seq l)"
  note sp = split_off_archived_eq [OF assms(1), of k]
  have a: "archived = take ?c ?es" and h: "hot = \<lparr>base_seq = of_nat (?n + ?c),
      base_prev_hash = last_hash (base_prev_hash l) (take ?c ?es), log_entries = drop ?c ?es\<rparr>"
    using sp assms(2) by simp_all
  have c: "?c \<le> length ?es" by (simp add: archive_cutoff_def)
  have ok: "chain sha ser ?n (base_prev_hash l) ?es" "?n + length ?es < 2 ^ 64" using assms(1) by (simp_all add: log_ok_def)
  have parts: "chain sha ser ?n (base_prev_hash l) (take ?c ?es)"
    "chain sha ser (?n + ?c) (last_hash (base_prev_hash l) (take ?c ?es)) (drop ?c ?es)"
    using ok(1) c chain_append [of sha ser ?n "base_prev_hash l" "take ?c ?es" "drop ?c ?es"] by (simp_all add: min_absorb2)
  have n: "unat (of_nat (?n + ?c) :: u64) = ?n + ?c" using ok(2) c unfolding unat_of_nat by simp
  have root: "log_root hot = log_root l"
    unfolding log_root_def h using last_hash_append [of "base_prev_hash l" "take ?c ?es" "drop ?c ?es"] by simp
  have seq: "next_seq hot = next_seq l" unfolding next_seq_of_nat h using n c by simp
  have "verify_chain_segment sha ser (base_seq l) (base_prev_hash l) archived"
    using parts(1) ok(2) c unfolding a by (subst verify_chain_segment_chain) simp_all
  moreover have "log_ok sha ser hot" unfolding log_ok_def h using parts(2) n ok(2) c by simp
  moreover have "snd (log_append sha ser x hot) = snd (log_append sha ser x l)"
    using root seq by (simp add: log_append_def Let_def log_root_def)
  ultimately show ?thesis using a h root seq by simp
qed

theorem archival_split_transparent_witness:
  "next_seq (snd (split_off_archived 1 (fst (log_append (\<lambda>m. zero32) (\<lambda>x :: bytes. x) [] new_log))))
     = next_seq (fst (log_append (\<lambda>m. zero32) (\<lambda>x :: bytes. x) [] new_log))"
proof -
  have "log_ok (\<lambda>m. zero32) (\<lambda>x :: bytes. x) (fst (log_append (\<lambda>m. zero32) (\<lambda>x. x) [] new_log))"
    using log_ok_append [of "\<lambda>m. zero32" "\<lambda>x. x" new_log "[]"] by (simp add: log_ok_def new_log_def log_room_def)
  from archival_split_transparent [OF this prod.collapse [symmetric]] show ?thesis by blast
qed

text \<open>C23. A mirror accepts exactly the entries its source appends: an entry is accepted by
  \<^verbatim>\<open>try_append_remote\<close> if and only if appending its payload locally gives the same entry, and then
  both give the same log; a rejected entry leaves the mirror as it was.\<close>

theorem remote_append_is_append:
  "try_append_remote sha ser entry l =
     (if entry = snd (log_append sha ser (le_payload entry) l)
      then Inr (fst (log_append sha ser (le_payload entry) l))
      else Inl (NotAnExtension (le_seq entry) (hex_prefix (log_root l)) (next_seq l)))"
proof -
  have "verify_next_entry sha ser (log_root l) (next_seq l) entry \<longleftrightarrow> entry = snd (log_append sha ser (le_payload entry) l)"
    by (cases entry) (auto simp: verify_next_entry_def log_append_def Let_def log_root_def)
  moreover have "fst (log_append sha ser (le_payload entry) l)
      = l\<lparr>log_entries := log_entries l @ [snd (log_append sha ser (le_payload entry) l)]\<rparr>"
    by (simp add: log_append_def Let_def)
  ultimately show ?thesis by (simp add: try_append_remote_def)
qed

text \<open>Catching up: on a consistent log \<^verbatim>\<open>entries_since\<close> returns exactly the held entries whose
  sequence number is at least the one asked for, in order.\<close>

theorem entries_since_exact:
  assumes "verify_chain_segment sha ser (base_seq l) (base_prev_hash l) (log_entries l)"
    and "unat (base_seq l) + length (log_entries l) < 2 ^ 64"
  shows "entries_since k l = filter (\<lambda>e. k \<le> le_seq e) (log_entries l)"
  using entries_since_filter [of sha ser l k] assms by (simp add: log_ok_def verify_chain_segment_chain)

theorem entries_since_exact_witness:
  "entries_since 1 (fst (log_append (\<lambda>m. zero32) (\<lambda>x :: bytes. x) [] new_log))
     = filter (\<lambda>e. 1 \<le> le_seq e) (log_entries (fst (log_append (\<lambda>m. zero32) (\<lambda>x :: bytes. x) [] new_log)))"
  by (rule entries_since_exact [where sha = "\<lambda>m. zero32" and ser = "\<lambda>x. x"])
    (simp_all add: log_append_def new_log_def Let_def verify_chain_segment_def checked_add_def compute_entry_hash_def next_seq_def)

end
