(* ===== verification/Reputation.thy ===== *)
theory Reputation
  imports Engine
begin

text \<open>
  The \<^verbatim>\<open>reputation\<close> crate: trust levels, the peer-to-peer score, the client score, staking with bonds
  and slashing, the composite engine and the event hooks of \<^verbatim>\<open>integration.rs\<close>.

  Scores are \<^verbatim>\<open>f64\<close> values, computed with the rounding of theory \<open>F64\<close>. Two things are arguments:
  \<open>powf\<close>, whose precision the standard library leaves unspecified, and the wall clock \<open>now\<close>, read
  once per operation. The Prometheus counters of \<^verbatim>\<open>metrics.rs\<close> and log lines are left out: nothing
  reads them back.
\<close>

section \<open>Data\<close>

datatype trust_level = Newcomer | Contributor | Trusted | Elite | Banned

definition from_u8 :: "u8 \<Rightarrow> trust_level" where
  "from_u8 v = (if v = 0 then Newcomer else if v = 1 then Contributor else if v = 2 then Trusted
                else if v = 3 then Elite else Banned)"

fun max_order_rate :: "trust_level \<Rightarrow> u32" where
  "max_order_rate Newcomer = 10"
| "max_order_rate Contributor = 100"
| "max_order_rate Trusted = - 1"
| "max_order_rate Elite = - 1"
| "max_order_rate Banned = 0"

definition can_watchtower :: "trust_level \<Rightarrow> bool" where
  "can_watchtower t = (t \<in> {Contributor, Trusted, Elite})"

definition can_tss :: "trust_level \<Rightarrow> bool" where
  "can_tss t = (t \<in> {Trusted, Elite})"

datatype bond_type = BWatchtower | BTSS | BSettlement | BValidator

datatype bond_condition = NoIDChange | Uptime90Percent | NoDisputesLost | ActiveWatchtower | SettlementOnTime

record reputation_bond =
  b_bond_type :: bond_type
  b_amount :: u64
  b_locked_until :: f64
  b_conditions :: "bond_condition list"
  b_forfeited :: bool
  b_forfeited_at :: "f64 option"
  b_forfeit_reason :: "string option"

record dispute_record =
  d_dispute_id :: bytes32
  d_disputer :: node_id
  d_subject :: node_id
  d_reason :: string
  d_resolved_at :: f64
  d_resolved_in_favor_of :: node_id
  d_penalty_applied :: u64

datatype penalty_type =
    ReputationPenalty f64
  | StakePenalty u64
  | BondForfeiture bond_type
  | Downgrade
  | TemporaryBan f64
  | PermanentBan

record penalty_record =
  pr_penalty_type :: penalty_type
  pr_amount :: u64
  pr_applied_at :: f64
  pr_expires_at :: f64
  pr_reason :: string

record reputation_state =
  rs_node_id :: node_id
  rs_first_seen :: f64
  rs_last_seen :: f64
  rs_p2p_score :: f64
  rs_client_score :: f64
  rs_composite_score :: f64
  rs_staked_amount :: u64
  rs_vested_amount :: u64
  rs_vesting_start :: f64
  rs_vesting_period_secs :: f64
  rs_id_change_count :: u64
  rs_last_id_change :: f64
  rs_uptime_percentage :: f64
  rs_total_uptime_secs :: f64
  rs_total_downtime_secs :: f64
  rs_bonds :: "reputation_bond list"
  rs_trust_level :: trust_level
  rs_reputation_score :: f64
  rs_reputation_multiplier :: f64
  rs_dispute_history :: "dispute_record list"
  rs_penalty_history :: "penalty_record list"
  rs_recovery_start :: "f64 option"

definition new_reputation_state :: "node_id \<Rightarrow> f64 \<Rightarrow> reputation_state" where
  "new_reputation_state node now =
     \<lparr>rs_node_id = node, rs_first_seen = now, rs_last_seen = now, rs_p2p_score = lit (1 / 2),
      rs_client_score = lit (1 / 2), rs_composite_score = lit (1 / 2), rs_staked_amount = 0,
      rs_vested_amount = 0, rs_vesting_start = now,
      rs_vesting_period_secs = fmul (fmul (lit 30) (lit 24)) (lit 3600),
      rs_id_change_count = 0, rs_last_id_change = now, rs_uptime_percentage = lit 0,
      rs_total_uptime_secs = lit 0, rs_total_downtime_secs = lit 0, rs_bonds = [],
      rs_trust_level = Newcomer, rs_reputation_score = lit 0, rs_reputation_multiplier = lit 1,
      rs_dispute_history = [], rs_penalty_history = [], rs_recovery_start = None\<rparr>"

record p2p_metrics =
  echo_rtt_ms :: f64
  heartbeat_miss_count :: u32
  censorship_flags :: u32
  flood_relay_count :: u64
  flood_drop_count :: u64
  last_heartbeat_time :: f64
  peer_verified :: bool

definition default_p2p_metrics :: p2p_metrics where
  "default_p2p_metrics =
     \<lparr>echo_rtt_ms = lit 0, heartbeat_miss_count = 0, censorship_flags = 0, flood_relay_count = 0,
      flood_drop_count = 0, last_heartbeat_time = lit 0, peer_verified = False\<rparr>"

section \<open>The peer-to-peer score\<close>

definition WINDOW_SIZE :: nat where
  "WINDOW_SIZE = 100"

definition DECAY_FACTOR :: f64 where
  "DECAY_FACTOR = lit (9 / 10)"

record p2p_score_engine =
  score_history :: "(node_id, f64 list) hash_map"
  window_size :: nat

record p2p_score_update =
  u_echo_rtt_ms :: "f64 option"
  u_expected_echo_rtt_ms :: "f64 option"
  u_heartbeat_miss :: bool
  u_censorship_flag :: bool
  u_flood_relayed :: bool
  u_flood_dropped :: bool

definition default_p2p_update :: p2p_score_update where
  "default_p2p_update =
     \<lparr>u_echo_rtt_ms = None, u_expected_echo_rtt_ms = None, u_heartbeat_miss = False,
      u_censorship_flag = False, u_flood_relayed = False, u_flood_dropped = False\<rparr>"

definition new_p2p_engine :: p2p_score_engine where
  "new_p2p_engine = \<lparr>score_history = [], window_size = WINDOW_SIZE\<rparr>"

definition compute_p2p_score :: "p2p_metrics \<Rightarrow> f64" where
  "compute_p2p_score metrics =
     (let (score, weight) = (lit 0, lit 0);
          (score, weight) =
            (if 0 < heartbeat_miss_count metrics
             then let miss_penalty = fmax (fsub (lit 1) (clamp (fdiv (f64_of_word (heartbeat_miss_count metrics)) (lit 10)) (lit 0) (lit 1))) (lit 0)
                  in (fadd score (fmul miss_penalty (lit (3 / 10))), fadd weight (lit (3 / 10)))
             else (fadd score (fmul (lit 1) (lit (3 / 10))), fadd weight (lit (3 / 10))));
          (score, weight) =
            (if 0 < censorship_flags metrics
             then let flag_penalty = fmax (fsub (lit 1) (clamp (fdiv (f64_of_word (censorship_flags metrics)) (lit 5)) (lit 0) (lit 1))) (lit 0)
                  in (fadd score (fmul flag_penalty (lit (3 / 10))), fadd weight (lit (3 / 10)))
             else (fadd score (fmul (lit 1) (lit (3 / 10))), fadd weight (lit (3 / 10))));
          score =
            (if flt (lit 0) (echo_rtt_ms metrics)
             then let latency_score = fmax (fsub (lit 1) (clamp (fdiv (echo_rtt_ms metrics) (lit 500)) (lit 0) (lit 1))) (lit 0)
                  in fadd score (fmul latency_score (lit (1 / 5)))
             else fadd score (fmul (lit (1 / 2)) (lit (1 / 5))));
          weight = fadd weight (lit (1 / 5));
          total_relays = flood_relay_count metrics + flood_drop_count metrics;
          score =
            (if 0 < total_relays
             then let relay_ratio = fdiv (f64_of_word (flood_relay_count metrics)) (f64_of_word total_relays)
                  in fadd score (fmul relay_ratio (lit (1 / 5)))
             else fadd score (fmul (lit (1 / 2)) (lit (1 / 5))));
          weight = fadd weight (lit (1 / 5))
      in if feq weight (lit 0) then lit (1 / 2) else clamp (fdiv score weight) (lit 0) (lit 1))"

definition f64_of_nat :: "nat \<Rightarrow> f64" where
  "f64_of_nat n = rnd (of_nat n)"

text \<open>The weighted sum of both score loops: the entry at position \<open>i\<close> of \<open>n\<close> weighs \<open>base\<close> to the
  power \<open>n - i\<close>.\<close>

definition weighted_sums :: "(f64 \<Rightarrow> f64 \<Rightarrow> f64) \<Rightarrow> f64 \<Rightarrow> f64 list \<Rightarrow> f64 \<times> f64" where
  "weighted_sums powf base scores =
     fold (\<lambda>(i, s) (weighted_sum, total_weight).
             let weight = powf base (f64_of_nat (length scores - i))
             in (fadd weighted_sum (fmul s weight), fadd total_weight weight))
       (enumerate 0 scores) (lit 0, lit 0)"

text \<open>\<^verbatim>\<open>push\<close> followed by \<^verbatim>\<open>remove(0)\<close> beyond the limit.\<close>

definition push_bounded :: "nat \<Rightarrow> 'a \<Rightarrow> 'a list \<Rightarrow> 'a list" where
  "push_bounded limit x xs =
     (let entry = xs @ [x] in if limit < length entry then remove_at 0 entry else entry)"

definition update_and_smooth ::
    "(f64 \<Rightarrow> f64 \<Rightarrow> f64) \<Rightarrow> node_id \<Rightarrow> f64 \<Rightarrow> p2p_score_engine \<Rightarrow> p2p_score_engine \<times> f64" where
  "update_and_smooth powf node raw_score self =
     (let entry = push_bounded (window_size self) raw_score
            (case map_of (score_history self) node of None \<Rightarrow> [] | Some e \<Rightarrow> e);
          (weighted_sum, total_weight) = weighted_sums powf DECAY_FACTOR entry
      in (self\<lparr>score_history := AList.update node entry (score_history self)\<rparr>,
          if flt (lit 0) total_weight then fdiv weighted_sum total_weight else raw_score))"

definition reset_history :: "node_id \<Rightarrow> p2p_score_engine \<Rightarrow> p2p_score_engine" where
  "reset_history node self = self\<lparr>score_history := AList.delete node (score_history self)\<rparr>"

section \<open>The client score\<close>

definition RECENCY_WEIGHT :: f64 where
  "RECENCY_WEIGHT = lit (7 / 10)"

definition MAX_REPORTS_PER_NODE :: nat where
  "MAX_REPORTS_PER_NODE = 1000"

datatype trade_metric =
    MatchFairness (slippage_bps: f64) (suspicious: bool)
  | SettlementSpeed (actual_latency_secs: f64) (expected_latency_secs: f64)
  | MatchSuccess
  | MatchFailure

record trade_outcome =
  to_trade_id :: bytes32
  to_node_id :: node_id
  to_metrics :: "trade_metric list"
  to_timestamp :: f64
  to_reporter_weight :: f64

record client_score_aggregator =
  outcomes :: "(node_id, trade_outcome list) hash_map"
  trader_reputations :: "(bytes32, f64) hash_map"
  max_reports_per_node :: nat

definition new_client_engine :: client_score_aggregator where
  "new_client_engine =
     \<lparr>outcomes = [], trader_reputations = [], max_reports_per_node = MAX_REPORTS_PER_NODE\<rparr>"

definition record_trade_outcome :: "trade_outcome \<Rightarrow> client_score_aggregator \<Rightarrow> client_score_aggregator" where
  "record_trade_outcome outcome self =
     (let entry = push_bounded (max_reports_per_node self) outcome
            (case map_of (outcomes self) (to_node_id outcome) of None \<Rightarrow> [] | Some e \<Rightarrow> e)
      in self\<lparr>outcomes := AList.update (to_node_id outcome) entry (outcomes self)\<rparr>)"

definition record_match_success ::
    "node_id \<Rightarrow> match_rec \<Rightarrow> f64 \<Rightarrow> client_score_aggregator \<Rightarrow> client_score_aggregator" where
  "record_match_success node trade timestamp self =
     record_trade_outcome
       \<lparr>to_trade_id = m_maker_order_id trade, to_node_id = node,
        to_metrics = [MatchSuccess, MatchFairness (lit 0) False,
          SettlementSpeed (lit 0) (f64_of_word (deadline_seconds (m_settlement_tier trade)))],
        to_timestamp = timestamp, to_reporter_weight = lit 1\<rparr> self"

definition record_settlement_complete ::
    "node_id \<Rightarrow> bytes32 \<Rightarrow> f64 \<Rightarrow> f64 \<Rightarrow> f64 \<Rightarrow> client_score_aggregator \<Rightarrow> client_score_aggregator" where
  "record_settlement_complete node trade_id actual expected timestamp self =
     record_trade_outcome
       \<lparr>to_trade_id = trade_id, to_node_id = node, to_metrics = [SettlementSpeed actual expected],
        to_timestamp = timestamp, to_reporter_weight = lit 1\<rparr> self"

definition record_dispute ::
    "node_id \<Rightarrow> bytes32 \<Rightarrow> f64 \<Rightarrow> f64 \<Rightarrow> client_score_aggregator \<Rightarrow> client_score_aggregator" where
  "record_dispute node trade_id slippage timestamp self =
     record_trade_outcome
       \<lparr>to_trade_id = trade_id, to_node_id = node,
        to_metrics = [MatchFailure, MatchFairness slippage True],
        to_timestamp = timestamp, to_reporter_weight = lit 1\<rparr> self"

fun metric_score :: "trade_metric \<Rightarrow> f64 \<times> f64" where
  "metric_score (MatchFairness slippage susp) =
     (if susp then (lit 0, lit (3 / 10))
      else (fsub (lit 1) (clamp (fdiv slippage (lit 10)) (lit 0) (lit 1)), lit (1 / 5)))"
| "metric_score (SettlementSpeed actual expected) =
     (if feq expected (lit 0) then (lit 1, lit (3 / 10))
      else let ratio = fdiv actual expected;
               n = (if fle ratio (lit (3 / 2))
                    then fsub (lit 1)
                      (fmul (clamp (fdiv (fsub ratio (lit 1)) (lit (3 / 2))) (lit 0) (lit 1)) (lit (1 / 2)))
                    else lit 0)
           in (n, lit (3 / 10)))"
| "metric_score MatchSuccess = (lit 1, lit (3 / 10))"
| "metric_score MatchFailure = (lit 0, lit (3 / 10))"

definition calculate_outcome_score :: "trade_outcome \<Rightarrow> f64" where
  "calculate_outcome_score outcome =
     (let (score, total_weight) =
            fold (\<lambda>metric (score, total_weight).
                    let (ms, weight) = metric_score metric
                    in (fadd score (fmul ms weight), fadd total_weight weight))
              (to_metrics outcome) (lit 0, lit 0)
      in if feq total_weight (lit 0) then lit (1 / 2) else fdiv score total_weight)"

definition recompute_score :: "(f64 \<Rightarrow> f64 \<Rightarrow> f64) \<Rightarrow> node_id \<Rightarrow> client_score_aggregator \<Rightarrow> f64" where
  "recompute_score powf node self =
     (case map_of (outcomes self) node of
        None \<Rightarrow> lit (1 / 2)
      | Some os \<Rightarrow>
          if os = [] then lit (1 / 2)
          else let effective = map (\<lambda>outcome. fmul (calculate_outcome_score outcome) (to_reporter_weight outcome)) os;
                   (weighted_sum, total_weight) = weighted_sums powf RECENCY_WEIGHT effective
               in if feq total_weight (lit 0) then lit (1 / 2)
                  else clamp (fdiv weighted_sum total_weight) (lit 0) (lit 1))"

definition get_trader_reputation :: "bytes32 \<Rightarrow> client_score_aggregator \<Rightarrow> f64" where
  "get_trader_reputation trader self =
     (case map_of (trader_reputations self) trader of None \<Rightarrow> lit (1 / 2) | Some r \<Rightarrow> r)"

definition update_trader_reputation :: "bytes32 \<Rightarrow> f64 \<Rightarrow> client_score_aggregator \<Rightarrow> client_score_aggregator" where
  "update_trader_reputation trader delta self =
     (let entry = (case map_of (trader_reputations self) trader of None \<Rightarrow> lit (1 / 2) | Some r \<Rightarrow> r)
      in self\<lparr>trader_reputations :=
           AList.update trader (clamp (fadd entry delta) (lit 0) (lit 1)) (trader_reputations self)\<rparr>)"

definition penalize_trader :: "bytes32 \<Rightarrow> f64 \<Rightarrow> client_score_aggregator \<Rightarrow> client_score_aggregator" where
  "penalize_trader trader penalty self =
     (let entry = (case map_of (trader_reputations self) trader of None \<Rightarrow> lit (1 / 2) | Some r \<Rightarrow> r)
      in self\<lparr>trader_reputations :=
           AList.update trader (fmax (fsub entry penalty) (lit 0)) (trader_reputations self)\<rparr>)"

section \<open>Stakes and bonds\<close>

record vesting_schedule =
  v_start_time :: f64
  v_total_amount :: u64
  v_unlocked_amount :: u64
  v_period_secs :: f64

record stake_manager =
  stakes :: "(node_id, u64) hash_map"
  vesting_schedules :: "(node_id, vesting_schedule) hash_map"
  bonds :: "(node_id, reputation_bond list) hash_map"
  slashing_pool :: u64

datatype stake_error = InsufficientStake | NodeNotFound | BondNotFound

definition new_stake_manager :: stake_manager where
  "new_stake_manager = \<lparr>stakes = [], vesting_schedules = [], bonds = [], slashing_pool = 0\<rparr>"

definition stake :: "node_id \<Rightarrow> u64 \<Rightarrow> f64 \<Rightarrow> stake_manager \<Rightarrow> stake_manager" where
  "stake node amount now self =
     self\<lparr>stakes := AList.update node amount (stakes self),
          vesting_schedules := AList.update node
            \<lparr>v_start_time = now, v_total_amount = amount, v_unlocked_amount = 0,
             v_period_secs = fmul (fmul (lit 30) (lit 24)) (lit 3600)\<rparr> (vesting_schedules self)\<rparr>"

definition staked_of :: "node_id \<Rightarrow> stake_manager \<Rightarrow> u64" where
  "staked_of node self = (case map_of (stakes self) node of None \<Rightarrow> 0 | Some a \<Rightarrow> a)"

definition add_stake :: "node_id \<Rightarrow> u64 \<Rightarrow> stake_manager \<Rightarrow> stake_manager" where
  "add_stake node amount self =
     self\<lparr>stakes := AList.update node (staked_of node self + amount) (stakes self)\<rparr>"

definition calculate_vesting_progress :: "node_id \<Rightarrow> f64 \<Rightarrow> stake_manager \<Rightarrow> f64" where
  "calculate_vesting_progress node now self =
     (case map_of (vesting_schedules self) node of
        None \<Rightarrow> lit 0
      | Some v \<Rightarrow> clamp (fdiv (fsub now (v_start_time v)) (v_period_secs v)) (lit 0) (lit 1))"

definition get_effective_stake :: "node_id \<Rightarrow> f64 \<Rightarrow> stake_manager \<Rightarrow> u64" where
  "get_effective_stake node now self =
     (let staked = staked_of node self;
          progress = (case map_of (vesting_schedules self) node of
            Some v \<Rightarrow> clamp (fdiv (fsub now (v_start_time v)) (v_period_secs v)) (lit 0) (lit 1)
          | None \<Rightarrow> lit 0)
      in word_of_f64 (fmul (f64_of_word staked) progress))"

definition lock_bond :: "node_id \<Rightarrow> reputation_bond \<Rightarrow> stake_manager \<Rightarrow> stake_manager \<times> (stake_error + unit)" where
  "lock_bond node bond self =
     (if staked_of node self < b_amount bond then (self, Inl InsufficientStake)
      else let entry = (case map_of (bonds self) node of None \<Rightarrow> [] | Some bs \<Rightarrow> bs)
           in (self\<lparr>bonds := AList.update node (entry @ [bond]) (bonds self)\<rparr>, Inr ()))"

definition slash :: "node_id \<Rightarrow> u64 \<Rightarrow> stake_manager \<Rightarrow> stake_manager \<times> (stake_error + u64)" where
  "slash node amount self =
     (case map_of (stakes self) node of
        None \<Rightarrow> (self, Inl NodeNotFound)
      | Some staked \<Rightarrow>
          let slash_amount = min amount staked
          in (self\<lparr>stakes := AList.update node (staked - slash_amount) (stakes self),
                   slashing_pool := slashing_pool self + slash_amount * 2 div 3\<rparr>,
              Inr slash_amount))"

text \<open>Marks the first open bond of the type; returns the bonds and that bond's amount.\<close>

fun mark_forfeited :: "bond_type \<Rightarrow> f64 \<Rightarrow> reputation_bond list \<Rightarrow> (reputation_bond list \<times> u64) option" where
  "mark_forfeited t now [] = None"
| "mark_forfeited t now (b # bs) =
     (if b_bond_type b = t \<and> \<not> b_forfeited b
      then Some (b\<lparr>b_forfeited := True, b_forfeited_at := Some now,
                   b_forfeit_reason := Some ''Bond condition violated''\<rparr> # bs, b_amount b)
      else map_option (\<lambda>(bs', a). (b # bs', a)) (mark_forfeited t now bs))"

definition forfeit_bond :: "node_id \<Rightarrow> bond_type \<Rightarrow> f64 \<Rightarrow> stake_manager \<Rightarrow> stake_manager \<times> (stake_error + u64)" where
  "forfeit_bond node t now self =
     (case map_of (bonds self) node of
        None \<Rightarrow> (self, Inl NodeNotFound)
      | Some bs \<Rightarrow>
          (case mark_forfeited t now bs of
             None \<Rightarrow> (self, Inl BondNotFound)
           | Some (bs', amount) \<Rightarrow>
               let self = self\<lparr>bonds := AList.update node bs' (bonds self)\<rparr>;
                   forfeit_amount = amount div 2
               in case map_of (stakes self) node of
                    None \<Rightarrow> (self, Inl NodeNotFound)
                  | Some staked \<Rightarrow>
                      (self\<lparr>stakes := AList.update node (saturating_sub staked forfeit_amount) (stakes self),
                            slashing_pool := slashing_pool self + forfeit_amount\<rparr>,
                       Inr forfeit_amount)))"

definition get_bonds :: "node_id \<Rightarrow> stake_manager \<Rightarrow> reputation_bond list" where
  "get_bonds node self = (case map_of (bonds self) node of None \<Rightarrow> [] | Some bs \<Rightarrow> bs)"

fun should_forfeit :: "f64 \<Rightarrow> bool \<Rightarrow> bond_condition \<Rightarrow> bool" where
  "should_forfeit uptime lost Uptime90Percent = flt uptime (lit (9 / 10))"
| "should_forfeit uptime lost NoDisputesLost = lost"
| "should_forfeit uptime lost _ = False"

definition check_bond_conditions :: "node_id \<Rightarrow> f64 \<Rightarrow> bool \<Rightarrow> stake_manager \<Rightarrow> bond_type list" where
  "check_bond_conditions node uptime_percentage has_disputes_lost self =
     map b_bond_type
       (filter (\<lambda>b. \<not> b_forfeited b \<and> list_ex (should_forfeit uptime_percentage has_disputes_lost) (b_conditions b))
         (get_bonds node self))"

definition total_staked :: "stake_manager \<Rightarrow> u64" where
  "total_staked self = sum_list (map snd (stakes self))"

definition slashing_pool_balance :: "stake_manager \<Rightarrow> u64" where
  "slashing_pool_balance self = slashing_pool self"

section \<open>The composite engine\<close>

definition SCORE_P2P_WEIGHT :: f64 where
  "SCORE_P2P_WEIGHT = lit (3 / 5)"

definition SCORE_CLIENT_WEIGHT :: f64 where
  "SCORE_CLIENT_WEIGHT = lit (2 / 5)"

definition LOYALTY_AGE_SCALE :: f64 where
  "LOYALTY_AGE_SCALE = lit 86400"

definition RECOVERY_RATE_PER_SECOND :: f64 where
  "RECOVERY_RATE_PER_SECOND = lit (1 / 10000)"

definition F64_MAX :: f64 where
  "F64_MAX = Fin ((2 ^ 53 - 1) * 2 ^ 971)"

record reputation_engine =
  p2p_engine :: p2p_score_engine
  client_engine :: client_score_aggregator
  stake_mgr :: stake_manager
  states :: "(node_id, reputation_state) hash_map"
  p2p_metrics_of :: "(node_id, p2p_metrics) hash_map"

definition new_reputation_engine :: reputation_engine where
  "new_reputation_engine =
     \<lparr>p2p_engine = new_p2p_engine, client_engine = new_client_engine, stake_mgr = new_stake_manager,
      states = [], p2p_metrics_of = []\<rparr>"

definition register_node :: "node_id \<Rightarrow> u64 \<Rightarrow> f64 \<Rightarrow> reputation_engine \<Rightarrow> reputation_engine" where
  "register_node node amount now self =
     (let self = (if 0 < amount then self\<lparr>stake_mgr := stake node amount now (stake_mgr self)\<rparr> else self)
      in self\<lparr>states := AList.update node (new_reputation_state node now) (states self),
              p2p_metrics_of := AList.update node default_p2p_metrics (p2p_metrics_of self)\<rparr>)"

definition metrics_or_default :: "node_id \<Rightarrow> reputation_engine \<Rightarrow> p2p_metrics" where
  "metrics_or_default node self =
     (case map_of (p2p_metrics_of self) node of None \<Rightarrow> default_p2p_metrics | Some m \<Rightarrow> m)"

definition update_p2p_metrics :: "node_id \<Rightarrow> p2p_score_update \<Rightarrow> f64 \<Rightarrow> reputation_engine \<Rightarrow> reputation_engine" where
  "update_p2p_metrics node upd now self =
     (let m = metrics_or_default node self;
          m = (case u_echo_rtt_ms upd of Some rtt \<Rightarrow> m\<lparr>echo_rtt_ms := rtt\<rparr> | None \<Rightarrow> m);
          m = (if u_heartbeat_miss upd then m\<lparr>heartbeat_miss_count := heartbeat_miss_count m + 1\<rparr> else m);
          m = (if u_censorship_flag upd then m\<lparr>censorship_flags := censorship_flags m + 1\<rparr> else m);
          m = (if u_flood_relayed upd then m\<lparr>flood_relay_count := flood_relay_count m + 1\<rparr> else m);
          m = (if u_flood_dropped upd then m\<lparr>flood_drop_count := flood_drop_count m + 1\<rparr> else m);
          m = m\<lparr>last_heartbeat_time := now\<rparr>
      in self\<lparr>p2p_metrics_of := AList.update node m (p2p_metrics_of self)\<rparr>)"

definition record_heartbeat_ok :: "node_id \<Rightarrow> f64 \<Rightarrow> reputation_engine \<Rightarrow> reputation_engine" where
  "record_heartbeat_ok node now self =
     (let m = metrics_or_default node self
      in self\<lparr>p2p_metrics_of := AList.update node
           (m\<lparr>heartbeat_miss_count := 0, last_heartbeat_time := now\<rparr>) (p2p_metrics_of self)\<rparr>)"

definition calculate_loyalty_multiplier :: "reputation_state \<Rightarrow> f64 \<Rightarrow> f64" where
  "calculate_loyalty_multiplier state now =
     (let age_secs = fsub now (rs_first_seen state);
          age_factor = clamp (fdiv age_secs LOYALTY_AGE_SCALE) (lit 0) (lit 10);
          uptime_factor = rs_uptime_percentage state
      in fadd (lit 1) (fmul (fmul age_factor uptime_factor) (lit (1 / 10))))"

definition calculate_id_penalty :: "reputation_state \<Rightarrow> f64 \<Rightarrow> f64" where
  "calculate_id_penalty state now =
     (if rs_id_change_count state = 0 then lit 1
      else let penalty = fmin (fadd (lit (1 / 2)) (fmul (f64_of_word (rs_id_change_count state)) (lit (1 / 10)))) (lit (9 / 10));
               time_since_change = fsub now (rs_last_id_change state);
               decay = clamp (fdiv time_since_change LOYALTY_AGE_SCALE) (lit 0) (lit 1);
               effective_penalty = fmul penalty (fsub (lit 1) (fmul decay (lit (1 / 2))))
           in fsub (lit 1) (clamp effective_penalty (lit 0) (lit 1)))"

definition calculate_recovery_multiplier :: "reputation_state \<Rightarrow> f64 \<Rightarrow> f64" where
  "calculate_recovery_multiplier state now =
     (if rs_penalty_history state = [] \<or> fle (lit 50) (rs_reputation_score state) then lit 1
      else let recovery_start = (case rs_recovery_start state of None \<Rightarrow> now | Some t \<Rightarrow> t);
               elapsed = fsub now recovery_start;
               recovery = fmul elapsed RECOVERY_RATE_PER_SECOND;
               capped_recovery = fmin recovery (lit (1 / 2))
           in if flt (rs_reputation_score state) (lit 10) then fadd (lit 1) capped_recovery else lit 1)"

fun ban_in_force :: "f64 \<Rightarrow> penalty_type \<Rightarrow> bool" where
  "ban_in_force now PermanentBan = True"
| "ban_in_force now (TemporaryBan expires) = flt now expires"
| "ban_in_force now _ = False"

definition determine_trust_level :: "reputation_state \<Rightarrow> f64 \<Rightarrow> trust_level" where
  "determine_trust_level state now =
     (if list_ex (\<lambda>p. ban_in_force now (pr_penalty_type p)) (rs_penalty_history state) then Banned
      else let has_tss_bond = list_ex (\<lambda>b. b_bond_type b = BTSS \<and> \<not> b_forfeited b) (rs_bonds state);
               has_watchtower_bond = list_ex (\<lambda>b. b_bond_type b = BWatchtower \<and> \<not> b_forfeited b) (rs_bonds state);
               s = rs_reputation_score state
           in if flt s (lit (1 / 10)) then Banned
              else if flt s (lit (1 / 2)) then Newcomer
              else if flt s (lit 10) then (if has_watchtower_bond then Contributor else Newcomer)
              else if flt s (lit 50) then (if has_tss_bond then Trusted else Contributor)
              else if has_tss_bond \<and> 100000 < rs_staked_amount state then Elite else Trusted)"

text \<open>The body of \<^verbatim>\<open>update_reputation\<close> once the node's state is at hand.\<close>

definition refresh_state :: "f64 \<Rightarrow> f64 \<Rightarrow> f64 \<Rightarrow> f64 \<Rightarrow> reputation_state \<Rightarrow> reputation_state" where
  "refresh_state p2p client effective_stake now state =
     (let state = state\<lparr>rs_p2p_score := p2p, rs_client_score := client\<rparr>;
          composite = fadd (fmul p2p SCORE_P2P_WEIGHT) (fmul client SCORE_CLIENT_WEIGHT);
          state = state\<lparr>rs_composite_score := clamp composite (lit 0) (lit 1)\<rparr>;
          loyalty_mult = calculate_loyalty_multiplier state now;
          id_penalty = calculate_id_penalty state now;
          base_score = fmul (rs_composite_score state)
            (fmax (clamp (fdiv effective_stake (lit 1000)) (lit 0) (lit 10)) (lit (1 / 2)));
          reputation = clamp (fmul (fmul base_score loyalty_mult) id_penalty) (lit 0) (lit 100);
          reputation = fmul reputation (calculate_recovery_multiplier state now);
          state = state\<lparr>rs_reputation_score := reputation\<rparr>;
          state = state\<lparr>rs_trust_level := determine_trust_level state now\<rparr>;
          state = state\<lparr>rs_last_seen := now,
                        rs_total_uptime_secs := fadd (rs_total_uptime_secs state) (lit (1 / 10))\<rparr>;
          total_time = fadd (rs_total_uptime_secs state) (rs_total_downtime_secs state)
      in if flt (lit 0) total_time
         then state\<lparr>rs_uptime_percentage := fdiv (rs_total_uptime_secs state) total_time\<rparr> else state)"

definition update_reputation ::
    "(f64 \<Rightarrow> f64 \<Rightarrow> f64) \<Rightarrow> node_id \<Rightarrow> f64 \<Rightarrow> reputation_engine \<Rightarrow> reputation_engine \<times> f64" where
  "update_reputation powf node now self =
     (let self = (if map_of (states self) node = None then register_node node 0 now self else self);
          state = the (map_of (states self) node);
          metrics = metrics_or_default node self;
          self = self\<lparr>p2p_metrics_of := AList.update node metrics (p2p_metrics_of self)\<rparr>;
          raw_p2p = compute_p2p_score metrics;
          (p2p_eng, p2p_score) = update_and_smooth powf node raw_p2p (p2p_engine self);
          client_score = recompute_score powf node (client_engine self);
          vesting_progress = calculate_vesting_progress node now (stake_mgr self);
          effective_stake = fmul (f64_of_word (get_effective_stake node now (stake_mgr self))) vesting_progress;
          state = refresh_state p2p_score client_score effective_stake now state
      in (self\<lparr>p2p_engine := p2p_eng, states := AList.update node state (states self)\<rparr>,
          rs_reputation_score state))"

definition on_state :: "node_id \<Rightarrow> (reputation_state \<Rightarrow> reputation_state) \<Rightarrow> reputation_engine \<Rightarrow> reputation_engine" where
  "on_state node f self =
     (case map_of (states self) node of
        None \<Rightarrow> self
      | Some state \<Rightarrow> self\<lparr>states := AList.update node (f state) (states self)\<rparr>)"

definition record_downtime :: "node_id \<Rightarrow> f64 \<Rightarrow> reputation_engine \<Rightarrow> reputation_engine" where
  "record_downtime node duration_secs self =
     on_state node (\<lambda>state.
       let state = state\<lparr>rs_total_downtime_secs := fadd (rs_total_downtime_secs state) duration_secs\<rparr>;
           total = fadd (rs_total_uptime_secs state) (rs_total_downtime_secs state)
       in if flt (lit 0) total
          then state\<lparr>rs_uptime_percentage := fdiv (rs_total_uptime_secs state) total\<rparr> else state) self"

definition record_id_change :: "node_id \<Rightarrow> f64 \<Rightarrow> reputation_engine \<Rightarrow> reputation_engine" where
  "record_id_change node now self =
     on_state node (\<lambda>state. state\<lparr>rs_id_change_count := rs_id_change_count state + 1,
                                  rs_last_id_change := now\<rparr>) self"

definition apply_penalty :: "node_id \<Rightarrow> penalty_record \<Rightarrow> f64 \<Rightarrow> reputation_engine \<Rightarrow> reputation_engine" where
  "apply_penalty node penalty now self =
     (case map_of (states self) node of
        None \<Rightarrow> self
      | Some state \<Rightarrow>
          let state = state\<lparr>rs_penalty_history := rs_penalty_history state @ [penalty]\<rparr>;
              (state, mgr) =
                (case pr_penalty_type penalty of
                   ReputationPenalty amount \<Rightarrow>
                     (state\<lparr>rs_reputation_score := fmax (fsub (rs_reputation_score state) amount) (lit 0)\<rparr>, stake_mgr self)
                 | StakePenalty amount \<Rightarrow>
                     (state\<lparr>rs_staked_amount := saturating_sub (rs_staked_amount state) amount\<rparr>, stake_mgr self)
                 | BondForfeiture t \<Rightarrow>
                     (state\<lparr>rs_bonds := filter (\<lambda>b. b_bond_type b \<noteq> t \<or> \<not> b_forfeited b) (rs_bonds state)\<rparr>,
                      fst (forfeit_bond node t now (stake_mgr self)))
                 | Downgrade \<Rightarrow> (state\<lparr>rs_trust_level := Newcomer\<rparr>, stake_mgr self)
                 | TemporaryBan _ \<Rightarrow> (state\<lparr>rs_trust_level := Banned\<rparr>, stake_mgr self)
                 | PermanentBan \<Rightarrow> (state\<lparr>rs_trust_level := Banned\<rparr>, stake_mgr self))
          in self\<lparr>stake_mgr := mgr,
                  states := AList.update node (state\<lparr>rs_recovery_start := Some now\<rparr>) (states self)\<rparr>)"

definition resolve_dispute :: "dispute_record \<Rightarrow> f64 \<Rightarrow> reputation_engine \<Rightarrow> reputation_engine" where
  "resolve_dispute rec now self =
     on_state (d_subject rec) (\<lambda>state.
       let state = state\<lparr>rs_dispute_history := rs_dispute_history state @ [rec]\<rparr>
       in if d_resolved_in_favor_of rec \<noteq> d_subject rec
          then state\<lparr>rs_penalty_history := rs_penalty_history state @
                 [\<lparr>pr_penalty_type = ReputationPenalty (lit (1 / 2)), pr_amount = d_penalty_applied rec,
                   pr_applied_at = now, pr_expires_at = F64_MAX, pr_reason = d_reason rec\<rparr>],
                 rs_recovery_start := Some now\<rparr>
          else state) self"

definition get_trust_level :: "node_id \<Rightarrow> reputation_engine \<Rightarrow> trust_level" where
  "get_trust_level node self =
     (case map_of (states self) node of None \<Rightarrow> Newcomer | Some s \<Rightarrow> rs_trust_level s)"

section \<open>Event hooks\<close>

type_synonym powf_fn = "f64 \<Rightarrow> f64 \<Rightarrow> f64"

definition on_node_join :: "powf_fn \<Rightarrow> node_id \<Rightarrow> u64 \<Rightarrow> f64 \<Rightarrow> reputation_engine \<Rightarrow> reputation_engine \<times> trust_level" where
  "on_node_join powf node amount now eng =
     (let eng = fst (update_reputation powf node now (register_node node amount now eng))
      in (eng, get_trust_level node eng))"

definition on_node_leave :: "node_id \<Rightarrow> f64 \<Rightarrow> f64 \<Rightarrow> reputation_engine \<Rightarrow> reputation_engine" where
  "on_node_leave node downtime_secs now eng =
     (let eng = record_downtime node downtime_secs eng
      in case map_of (states eng) node of
           None \<Rightarrow> eng
         | Some state \<Rightarrow>
             let has_disputes_lost = list_ex (\<lambda>d. d_resolved_in_favor_of d \<noteq> node) (rs_dispute_history state);
                 forfeited = check_bond_conditions node (rs_uptime_percentage state) has_disputes_lost (stake_mgr eng)
             in eng\<lparr>stake_mgr := fold (\<lambda>t mgr. fst (forfeit_bond node t now mgr)) forfeited (stake_mgr eng)\<rparr>)"

definition on_heartbeat_received :: "node_id \<Rightarrow> f64 \<Rightarrow> reputation_engine \<Rightarrow> reputation_engine" where
  "on_heartbeat_received node now eng = record_heartbeat_ok node now eng"

definition on_censorship_flag :: "node_id \<Rightarrow> f64 \<Rightarrow> reputation_engine \<Rightarrow> reputation_engine" where
  "on_censorship_flag node now eng =
     update_p2p_metrics node (default_p2p_update\<lparr>u_censorship_flag := True\<rparr>) now eng"

definition on_misconduct_reported :: "node_id \<Rightarrow> node_id \<Rightarrow> string \<Rightarrow> f64 \<Rightarrow> reputation_engine \<Rightarrow> reputation_engine" where
  "on_misconduct_reported subject reporter reason now eng =
     update_p2p_metrics subject (default_p2p_update\<lparr>u_censorship_flag := True\<rparr>) now eng"

definition on_echo_response :: "node_id \<Rightarrow> f64 \<Rightarrow> f64 \<Rightarrow> reputation_engine \<Rightarrow> reputation_engine" where
  "on_echo_response node rtt_ms now eng =
     update_p2p_metrics node (default_p2p_update\<lparr>u_echo_rtt_ms := Some rtt_ms\<rparr>) now eng"

definition on_flood_relayed :: "node_id \<Rightarrow> f64 \<Rightarrow> reputation_engine \<Rightarrow> reputation_engine" where
  "on_flood_relayed node now eng =
     update_p2p_metrics node (default_p2p_update\<lparr>u_flood_relayed := True\<rparr>) now eng"

definition on_flood_dropped :: "node_id \<Rightarrow> f64 \<Rightarrow> reputation_engine \<Rightarrow> reputation_engine" where
  "on_flood_dropped node now eng =
     update_p2p_metrics node (default_p2p_update\<lparr>u_flood_dropped := True\<rparr>) now eng"

definition on_order_matched :: "powf_fn \<Rightarrow> node_id \<Rightarrow> match_rec \<Rightarrow> f64 \<Rightarrow> f64 \<Rightarrow> reputation_engine \<Rightarrow> reputation_engine" where
  "on_order_matched powf node trade timestamp now eng =
     fst (update_reputation powf node now
       (eng\<lparr>client_engine := record_match_success node trade timestamp
              (update_trader_reputation (m_maker_trader trade) (lit (1 / 100)) (client_engine eng))\<rparr>))"

definition on_settlement_complete ::
    "powf_fn \<Rightarrow> node_id \<Rightarrow> bytes32 \<Rightarrow> f64 \<Rightarrow> f64 \<Rightarrow> f64 \<Rightarrow> f64 \<Rightarrow> reputation_engine \<Rightarrow> reputation_engine" where
  "on_settlement_complete powf node trade_id actual expected timestamp now eng =
     fst (update_reputation powf node now
       (eng\<lparr>client_engine := record_settlement_complete node trade_id actual expected timestamp (client_engine eng)\<rparr>))"

definition on_dispute_resolved :: "powf_fn \<Rightarrow> dispute_record \<Rightarrow> f64 \<Rightarrow> reputation_engine \<Rightarrow> reputation_engine" where
  "on_dispute_resolved powf dispute now eng =
     (let subject = d_subject dispute;
          eng = resolve_dispute dispute now eng;
          eng = (if d_resolved_in_favor_of dispute \<noteq> subject
                 then let eng = apply_penalty subject
                            \<lparr>pr_penalty_type = StakePenalty (d_penalty_applied dispute),
                             pr_amount = d_penalty_applied dispute, pr_applied_at = now,
                             pr_expires_at = F64_MAX, pr_reason = d_reason dispute\<rparr> now eng
                      in eng\<lparr>stake_mgr := fst (slash subject (d_penalty_applied dispute) (stake_mgr eng))\<rparr>
                 else eng)
      in fst (update_reputation powf subject now eng))"

definition on_trade_disputed :: "powf_fn \<Rightarrow> node_id \<Rightarrow> bytes32 \<Rightarrow> f64 \<Rightarrow> f64 \<Rightarrow> f64 \<Rightarrow> reputation_engine \<Rightarrow> reputation_engine" where
  "on_trade_disputed powf node trade_id slippage timestamp now eng =
     fst (update_reputation powf node now
       (eng\<lparr>client_engine := record_dispute node trade_id slippage timestamp (client_engine eng)\<rparr>))"

definition periodic_reputation_update :: "powf_fn \<Rightarrow> node_id list \<Rightarrow> f64 \<Rightarrow> reputation_engine \<Rightarrow> reputation_engine" where
  "periodic_reputation_update powf nodes now eng =
     fold (\<lambda>node eng. fst (update_reputation powf node now eng)) nodes eng"

section \<open>Ranges of \<^verbatim>\<open>f64\<close> values\<close>

definition nonneg :: "f64 \<Rightarrow> bool" where
  "nonneg a = fle (Fin 0) a"

definition capped :: "rat \<Rightarrow> f64 \<Rightarrow> bool" where
  "capped b a = (nonneg a \<and> fle a (Fin b))"

lemma nonneg_cases: "nonneg a \<longleftrightarrow> a = PInf \<or> (\<exists>r. a = Fin r \<and> 0 \<le> r)"
  by (cases a) (auto simp: nonneg_def fle_def)

lemma nonneg_Fin [simp]: "nonneg (Fin r) \<longleftrightarrow> 0 \<le> r"
  by (simp add: nonneg_def)

lemma nonneg_PInf [simp]: "nonneg PInf"
  by (simp add: nonneg_cases)

lemma capped_cases: "capped b a \<longleftrightarrow> (\<exists>r. a = Fin r \<and> 0 \<le> r \<and> r \<le> b)"
  by (cases a) (auto simp: capped_def nonneg_def fle_def)

lemma capped_Fin [simp]: "capped b (Fin r) \<longleftrightarrow> 0 \<le> r \<and> r \<le> b"
  by (simp add: capped_cases)

lemma nonneg_rnd [simp]: "0 \<le> x \<Longrightarrow> nonneg (rnd x)"
  using rnd_mono [of 0 x] by (simp add: nonneg_def)

lemma nonneg_fadd: "nonneg a \<Longrightarrow> nonneg b \<Longrightarrow> nonneg (fadd a b)"
  by (auto simp: nonneg_cases [of a] nonneg_cases [of b])

lemma nonneg_fmax: "nonneg (fmax a (Fin 0))"
  by (cases a) (auto simp: nonneg_cases fmax_def)

lemma nonneg_fmul_pos: "nonneg a \<Longrightarrow> 0 < c \<Longrightarrow> nonneg (fmul a (Fin c))"
  by (auto simp: nonneg_cases [of a] inf_of_def)

lemma nonneg_fdiv_pos: "nonneg a \<Longrightarrow> 0 < c \<Longrightarrow> nonneg (fdiv a (Fin c))"
  by (auto simp: nonneg_cases [of a])

lemma nonneg_not_NaN: "nonneg a \<Longrightarrow> a \<noteq> NaN"
  by (auto simp: nonneg_cases)

lemma capped_clamp: "0 \<le> b \<Longrightarrow> x \<noteq> NaN \<Longrightarrow> capped b (clamp x (Fin 0) (Fin b))"
  using clamp_Fin [of 0 b x] by (simp add: capped_cases)

lemma capped_rnd:
  assumes "0 \<le> x" and "x \<le> of_nat n" and "n \<le> 2 ^ 53"
  shows "capped (of_nat n) (rnd x)"
proof -
  have "rnd (of_nat n) = Fin (of_nat n)"
    using rnd_of_int [of "int n"] assms(3) by (metis abs_of_nat numeral_power_eq_of_nat_cancel_iff of_int_of_nat_eq of_nat_le_iff)
  then show ?thesis
    using rnd_mono [OF assms(2)] assms(1) by (simp add: capped_def)
qed

lemma capped_fadd:
  assumes "capped (of_nat m) a" and "capped (of_nat n) b" and "m + n \<le> 2 ^ 53"
  shows "capped (of_nat (m + n)) (fadd a b)"
  using assms capped_rnd [of _ "m + n"] by (auto simp: capped_cases [of "of_nat m"] capped_cases [of "of_nat n"])

lemma capped_fmul:
  assumes "capped (of_nat m) a" and "capped (of_nat n) b" and "m * n \<le> 2 ^ 53"
  shows "capped (of_nat (m * n)) (fmul a b)"
  using assms capped_rnd [of _ "m * n"]
  by (auto simp: capped_cases [of "of_nat m"] capped_cases [of "of_nat n"] mult_mono)

lemma capped_fsub_one: "capped 1 a \<Longrightarrow> capped 1 (fsub (Fin 1) a)"
  using capped_rnd [of _ 1] by (auto simp: fsub_def capped_cases [of 1 a])

lemma literal_tenth: "lit (1 / 10) = Fin (3602879701896397 / 36028797018963968)"
  by code_simp

lemma literal_fifth: "lit (1 / 5) = Fin (3602879701896397 / 18014398509481984)"
  by code_simp

lemma literal_three_tenths: "lit (3 / 10) = Fin (5404319552844595 / 18014398509481984)"
  by code_simp

lemma literal_nine_tenths: "lit (9 / 10) = Fin (8106479329266893 / 9007199254740992)"
  by code_simp

lemma ten_tenths: "rnd (10 * (3602879701896397 / 36028797018963968)) = Fin 1"
  by code_simp

lemma capped_tenth: "capped 10 a \<Longrightarrow> capped 1 (fmul a (lit (1 / 10)))"
proof -
  assume "capped 10 a"
  then obtain r where r: "a = Fin r" "0 \<le> r" "r \<le> 10" by (auto simp: capped_cases)
  have "fle (rnd (r * (3602879701896397 / 36028797018963968))) (Fin 1)"
    using rnd_mono [of "r * (3602879701896397 / 36028797018963968)"] ten_tenths r by (metis mult_right_mono zero_le_divide_iff zero_le_numeral)
  then show ?thesis using r by (simp add: literal_tenth capped_def)
qed

section \<open>Scores\<close>

lemma p2p_weight: "fadd (fadd (fadd (fadd (Fin 0) (lit (3 / 10))) (lit (3 / 10))) (lit (1 / 5))) (lit (1 / 5)) = Fin 1"
  by code_simp

lemma nonneg_f64_of_word [simp]: "nonneg (f64_of_word w)"
  unfolding f64_of_word_def by (rule nonneg_rnd, simp only: of_int_0_le_iff) simp

lemma f64_of_word_pos:
  assumes "0 < w" shows "\<exists>c > 0. f64_of_word (w :: u64) = Fin c"
proof -
  have "1 \<le> uint w" using assms by (metis int_one_le_iff_zero_less word_less_def uint_0_eq)
  then have "(1 :: rat) \<le> of_int (uint w)" by (metis of_int_1_le_iff)
  then have ge: "fle (Fin 1) (f64_of_word w)" unfolding f64_of_word_def using rnd_mono by (metis rnd_1)
  have "rat_of_int (uint w) \<le> rat_of_int (2 ^ 64)" using uint_lt2p [of w] by (simp only: of_int_le_iff) simp
  moreover have "(0 :: rat) \<le> of_int (uint w)" by (simp only: of_int_0_le_iff) simp
  ultimately have "\<bar>of_int (uint w) :: rat\<bar> \<le> 2 powi 64" by (simp only: abs_of_nonneg) simp
  moreover have "representable (2 powi 64)"
    unfolding representable_def by (intro exI [of _ 1] exI [of _ 64]) simp
  moreover have "(2 :: rat) powi 64 < 2 powi 1024" unfolding pow2_less_iff by simp
  ultimately have "f64_of_word w = Fin (rnd_val (of_int (uint w)))"
    unfolding f64_of_word_def using rnd_bounded by blast
  with ge show ?thesis by auto
qed

lemma nonneg_literals [simp]: "nonneg (lit (3 / 10))" "nonneg (lit (1 / 5))" "nonneg (lit (1 / 10))"
  by simp_all

lemma miss_term_nonneg: "0 < c \<Longrightarrow> nonneg (fmul (fmax x (Fin 0)) (Fin c))"
  by (rule nonneg_fmul_pos [OF nonneg_fmax])

lemma p2p_score_range: "capped 1 (compute_p2p_score m)"
proof -
  have w: "feq (Fin 1) (Fin 0) = False" by (simp add: feq_def)
  have clamp: "capped 1 (clamp (fdiv s (Fin 1)) (Fin 0) (Fin 1))" if "nonneg s" for s
    using nonneg_fdiv_pos [OF that, of 1] nonneg_not_NaN by (intro capped_clamp) auto
  have t: "nonneg (fmul (fmax x (Fin 0)) (lit (3 / 10)))" "nonneg (fmul (fmax x (Fin 0)) (lit (1 / 5)))"
    "nonneg (fmul (Fin 1) (lit (3 / 10)))" "nonneg (fmul (Fin (1 / 2)) (lit (1 / 5)))" for x
    unfolding literal_fifth literal_three_tenths
    by (simp_all add: nonneg_fmul_pos nonneg_fmax del: fmul.simps)
  have r: "nonneg (fmul (fdiv (f64_of_word a) (f64_of_word b)) (lit (1 / 5)))" if "0 < b" for a b :: u64
    using f64_of_word_pos [OF that] unfolding literal_fifth
    by (auto intro!: nonneg_fmul_pos nonneg_fdiv_pos)
  show ?thesis
    unfolding compute_p2p_score_def Let_def prod.case if_distrib [of "case_prod _"] if_distrib [of fst]
    by (cases "0 < heartbeat_miss_count m"; cases "0 < censorship_flags m";
        cases "flt (lit 0) (echo_rtt_ms m)"; cases "0 < flood_relay_count m + flood_drop_count m")
      (simp_all only: if_True if_False prod.case p2p_weight rnd_0 rnd_1 w,
       auto intro!: clamp nonneg_fadd t r simp del: fadd.simps fmul.simps)
qed

lemma capped_weaken: "capped b a \<Longrightarrow> b \<le> c \<Longrightarrow> capped c a"
  by (auto simp: capped_cases)

lemma clamp_NaN_or: "0 \<le> b \<Longrightarrow> clamp x (Fin 0) (Fin b) = NaN \<or> capped b (clamp x (Fin 0) (Fin b))"
  using capped_clamp by (cases "x = NaN") auto

lemma fmul_NaN [simp]: "fmul a NaN = NaN" "fadd a NaN = NaN"
  by (cases a; simp)+

lemma stake_factor_capped: "capped 10 (fmax (clamp x (Fin 0) (Fin 10)) (lit (1 / 2)))"
  using clamp_NaN_or [of 10 x] by (auto simp: fmax_def capped_cases [of 10 "clamp x (Fin 0) (Fin 10)"])

lemma loyalty_capped:
  assumes "capped 1 (rs_uptime_percentage st)"
  shows "calculate_loyalty_multiplier st now = NaN \<or> capped 2 (calculate_loyalty_multiplier st now)"
proof -
  let ?a = "clamp (fdiv (fsub now (rs_first_seen st)) LOYALTY_AGE_SCALE) (Fin 0) (Fin 10)"
  have "?a = NaN \<or> capped 10 ?a" by (rule clamp_NaN_or) simp
  moreover have "capped 2 (fadd (Fin 1) (fmul (fmul ?a (rs_uptime_percentage st)) (lit (1 / 10))))" if "capped 10 ?a"
  proof -
    have "capped 10 (fmul ?a (rs_uptime_percentage st))"
      using capped_fmul [of 10 ?a 1] that assms by simp
    from capped_tenth [OF this] show ?thesis
      using capped_fadd [of 1 "Fin 1" 1] by (simp add: capped_cases [of 1 "Fin 1"] del: fadd.simps)
  qed
  ultimately show ?thesis by (auto simp: calculate_loyalty_multiplier_def)
qed

lemma id_penalty_capped: "calculate_id_penalty st now = NaN \<or> capped 1 (calculate_id_penalty st now)"
proof (cases "rs_id_change_count st = 0")
  case True
  then show ?thesis by (simp add: calculate_id_penalty_def capped_cases)
next
  case False
  have "fsub (Fin 1) (clamp x (Fin 0) (Fin 1)) = NaN \<or> capped 1 (fsub (Fin 1) (clamp x (Fin 0) (Fin 1)))" for x
    using clamp_NaN_or [of 1 x] capped_fsub_one by (auto simp: fsub_def)
  then show ?thesis using False by (simp add: calculate_id_penalty_def Let_def)
qed

definition at_most :: "rat \<Rightarrow> f64 \<Rightarrow> bool" where
  "at_most b a = (a = NaN \<or> fle a (Fin b))"

lemma recovery_at_most: "at_most (3 / 2) (calculate_recovery_multiplier st now)"
proof -
  have "representable (3 / 2)"
    unfolding representable_def by (intro exI [of _ 3] exI [of _ "- 1"]) simp
  then have r32: "rnd (3 / 2) = Fin (3 / 2)" by (rule rnd_exact) simp
  have "at_most (3 / 2) (fadd (Fin 1) (fmin x (Fin (1 / 2))))" for x
  proof (cases x)
    case (Fin r)
    have "fle (rnd (1 + min r (1 / 2))) (rnd (3 / 2))" by (rule rnd_mono) simp
    then show ?thesis using Fin by (auto simp: at_most_def fmin_def r32 min_def not_less split: if_splits)
  qed (auto simp: at_most_def fmin_def r32 fle_def)
  then show ?thesis
    by (auto simp: calculate_recovery_multiplier_def Let_def at_most_def)
qed

lemma fmul_at_most:
  assumes "capped 20 a" and "at_most (3 / 2) m"
  shows "at_most 30 (fmul a m)"
proof -
  obtain r where r: "a = Fin r" "0 \<le> r" "r \<le> 20" using assms(1) by (auto simp: capped_cases)
  show ?thesis
  proof (cases m)
    case (Fin y)
    then have y: "y \<le> 3 / 2" using assms(2) by (simp add: at_most_def)
    have "r * y \<le> 20 * (3 / 2)"
    proof (cases "0 \<le> y")
      case True
      then show ?thesis using r y by (intro mult_mono) auto
    next
      case False
      then have "r * y \<le> 0" using r by (simp add: mult_nonneg_nonpos)
      then show ?thesis by simp
    qed
    from rnd_mono [OF this] show ?thesis using r Fin by (simp add: at_most_def)
  qed (use r assms(2) in \<open>auto simp: at_most_def inf_of_def fle_def sgn_if\<close>)
qed

text \<open>
  The clamp to 100 is never reached: with an uptime share in [0, 1] the score stays at most 30, so
  the top tier (50 and more) is out of reach for every score that is a number.
\<close>

lemma refresh_state_bounds:
  fixes st p2p client eff now
  assumes "capped 1 (rs_uptime_percentage st)"
  defines "st' \<equiv> refresh_state p2p client eff now st"
  shows "at_most 30 (rs_reputation_score st')"
    and "rs_reputation_score st' \<noteq> NaN \<Longrightarrow> rs_trust_level st' \<noteq> Elite"
proof -
  define st1 where "st1 = st\<lparr>rs_p2p_score := p2p, rs_client_score := client,
     rs_composite_score := clamp (fadd (fmul p2p SCORE_P2P_WEIGHT) (fmul client SCORE_CLIENT_WEIGHT)) (Fin 0) (Fin 1)\<rparr>"
  define rep where "rep = clamp (fmul (fmul (fmul (rs_composite_score st1)
     (fmax (clamp (fdiv eff (lit 1000)) (Fin 0) (Fin 10)) (lit (1 / 2)))) (calculate_loyalty_multiplier st1 now))
     (calculate_id_penalty st1 now)) (Fin 0) (Fin 100)"
  have score: "rs_reputation_score st' = fmul rep (calculate_recovery_multiplier st1 now)"
    by (simp add: st'_def refresh_state_def Let_def rep_def st1_def)
  have comp: "rs_composite_score st1 = NaN \<or> capped 1 (rs_composite_score st1)"
    unfolding st1_def by (simp add: clamp_NaN_or)
  have loy: "calculate_loyalty_multiplier st1 now = NaN \<or> capped 2 (calculate_loyalty_multiplier st1 now)"
    by (rule loyalty_capped) (simp add: st1_def assms(1))
  have "rep = NaN \<or> capped 20 rep"
  proof (cases "rep = NaN")
    case False
    have c: "capped 1 (rs_composite_score st1)" "capped 2 (calculate_loyalty_multiplier st1 now)"
      "capped 1 (calculate_id_penalty st1 now)"
      using False comp loy id_penalty_capped [of st1 now] by (auto simp: rep_def)
    have "capped 20 (fmul (fmul (fmul (rs_composite_score st1)
        (fmax (clamp (fdiv eff (lit 1000)) (Fin 0) (Fin 10)) (lit (1 / 2)))) (calculate_loyalty_multiplier st1 now))
        (calculate_id_penalty st1 now))" (is "capped 20 ?p")
      using capped_fmul [OF capped_fmul [OF capped_fmul, of 1 _ 10 _ 2] , of _ _ _ 1] c stake_factor_capped [of "fdiv eff (lit 1000)"]
      by simp
    then have "rep = ?p" unfolding rep_def by (auto simp: clamp_def capped_cases)
    then show ?thesis using \<open>capped 20 ?p\<close> by simp
  qed simp
  then show b: "at_most 30 (rs_reputation_score st')"
    unfolding score using fmul_at_most recovery_at_most by (auto simp: at_most_def)
  have tr: "rs_trust_level st' = determine_trust_level
      (st1\<lparr>rs_reputation_score := rs_reputation_score st'\<rparr>) now"
    unfolding score by (simp add: st'_def refresh_state_def Let_def rep_def st1_def)
  assume "rs_reputation_score st' \<noteq> NaN"
  with b have "flt (rs_reputation_score st') (Fin 50)"
    by (cases "rs_reputation_score st'") (auto simp: at_most_def fle_def)
  then show "rs_trust_level st' \<noteq> Elite"
    unfolding tr by (simp add: determine_trust_level_def Let_def)
qed

section \<open>Permanent bans\<close>

definition perm_banned :: "node_id \<Rightarrow> reputation_engine \<Rightarrow> bool" where
  "perm_banned node eng = (\<exists>st. map_of (states eng) node = Some st
     \<and> PermanentBan \<in> pr_penalty_type ` set (rs_penalty_history st))"

lemma refresh_keeps_history [simp]:
  "rs_penalty_history (refresh_state p c e now st) = rs_penalty_history st"
  "rs_dispute_history (refresh_state p c e now st) = rs_dispute_history st"
  by (simp_all add: refresh_state_def Let_def)

lemma refresh_trust:
  assumes "PermanentBan \<in> pr_penalty_type ` set (rs_penalty_history st)"
  shows "rs_trust_level (refresh_state p c e now st) = Banned"
proof -
  have "list_ex (\<lambda>p. ban_in_force now (pr_penalty_type p)) (rs_penalty_history st)"
    using assms by (force simp: list_ex_iff)
  then show ?thesis by (simp add: refresh_state_def Let_def determine_trust_level_def)
qed

lemma states_update_reputation:
  "map_of (states (fst (update_reputation powf node now eng))) n =
     (if n = node then Some (refresh_state
        (snd (update_and_smooth powf node (compute_p2p_score (metrics_or_default node (if map_of (states eng) node = None then register_node node 0 now eng else eng))) (p2p_engine eng)))
        (recompute_score powf node (client_engine eng))
        (fmul (f64_of_word (get_effective_stake node now (stake_mgr eng))) (calculate_vesting_progress node now (stake_mgr eng)))
        now
        (case map_of (states eng) node of None \<Rightarrow> new_reputation_state node now | Some st \<Rightarrow> st))
      else map_of (states eng) n)"
  by (auto simp: update_reputation_def Let_def update_conv' register_node_def metrics_or_default_def
      split: prod.splits option.splits)

lemma perm_banned_update_reputation:
  "perm_banned n eng \<Longrightarrow> perm_banned n (fst (update_reputation powf node now eng))"
  by (auto simp: perm_banned_def states_update_reputation)

lemma perm_banned_states_cong:
  "states eng' = states eng \<Longrightarrow> perm_banned n eng' = perm_banned n eng"
  by (simp add: perm_banned_def)

lemma perm_banned_on_state:
  assumes "perm_banned n eng" and "\<And>st. set (rs_penalty_history st) \<subseteq> set (rs_penalty_history (f st))"
  shows "perm_banned n (on_state node f eng)"
  using assms unfolding perm_banned_def on_state_def
  by (cases "map_of (states eng) node") (auto simp: update_conv', blast)

lemma perm_banned_apply_penalty:
  "perm_banned n eng \<Longrightarrow> perm_banned n (apply_penalty node pen now eng)"
  unfolding perm_banned_def apply_penalty_def
  by (cases "map_of (states eng) node")
    (auto simp: update_conv' Let_def split: penalty_type.splits)

lemma states_update_p2p [simp]: "states (update_p2p_metrics node upd now eng) = states eng"
  by (simp add: update_p2p_metrics_def Let_def)

text \<open>
  The events of the reputation subsystem. \<open>join\<close> registers a node afresh, so it is the one event
  that may concern the banned node and is kept apart.
\<close>

inductive rep_event :: "powf_fn \<Rightarrow> node_id \<Rightarrow> reputation_engine \<Rightarrow> reputation_engine \<Rightarrow> bool"
  for powf n where
  join: "node \<noteq> n \<Longrightarrow> rep_event powf n eng (fst (on_node_join powf node amount now eng))"
| leave: "rep_event powf n eng (on_node_leave node down now eng)"
| heartbeat: "rep_event powf n eng (on_heartbeat_received node now eng)"
| censorship: "rep_event powf n eng (on_censorship_flag node now eng)"
| misconduct: "rep_event powf n eng (on_misconduct_reported node reporter reason now eng)"
| echo: "rep_event powf n eng (on_echo_response node rtt now eng)"
| relayed: "rep_event powf n eng (on_flood_relayed node now eng)"
| dropped: "rep_event powf n eng (on_flood_dropped node now eng)"
| matched: "rep_event powf n eng (on_order_matched powf node trade ts now eng)"
| settled: "rep_event powf n eng (on_settlement_complete powf node tid actual expected ts now eng)"
| dispute: "rep_event powf n eng (on_dispute_resolved powf rec now eng)"
| disputed: "rep_event powf n eng (on_trade_disputed powf node tid slip ts now eng)"
| periodic: "rep_event powf n eng (periodic_reputation_update powf nodes now eng)"
| penalty: "rep_event powf n eng (apply_penalty node pen now eng)"
| id_change: "rep_event powf n eng (record_id_change node now eng)"

lemma perm_banned_join:
  "node \<noteq> n \<Longrightarrow> perm_banned n eng \<Longrightarrow> perm_banned n (fst (on_node_join powf node amount now eng))"
  by (auto simp: on_node_join_def Let_def perm_banned_def states_update_reputation register_node_def update_conv')

lemma perm_banned_downtime: "perm_banned n eng \<Longrightarrow> perm_banned n (record_downtime node d eng)"
  unfolding record_downtime_def by (rule perm_banned_on_state) (simp_all add: Let_def)

lemma perm_banned_leave: "perm_banned n eng \<Longrightarrow> perm_banned n (on_node_leave node d now eng)"
  using perm_banned_downtime [of n eng node d]
  by (auto simp: on_node_leave_def Let_def perm_banned_def split: option.splits)

lemma perm_banned_resolve: "perm_banned n eng \<Longrightarrow> perm_banned n (resolve_dispute rec now eng)"
  unfolding resolve_dispute_def by (rule perm_banned_on_state) (auto simp: Let_def)

lemma perm_banned_dispute:
  assumes "perm_banned n eng" shows "perm_banned n (on_dispute_resolved powf rec now eng)"
proof -
  have "perm_banned n (resolve_dispute rec now eng)" using assms by (rule perm_banned_resolve)
  moreover from this have "perm_banned n (e\<lparr>stake_mgr := m\<rparr>)"
    if "e = apply_penalty (d_subject rec) pen now (resolve_dispute rec now eng)" for e m pen
    using perm_banned_apply_penalty that by (simp add: perm_banned_def)
  ultimately show ?thesis
    by (auto simp: on_dispute_resolved_def Let_def intro!: perm_banned_update_reputation)
qed

lemma perm_banned_periodic:
  "perm_banned n eng \<Longrightarrow> perm_banned n (periodic_reputation_update powf nodes now eng)"
  unfolding periodic_reputation_update_def
  by (induction nodes arbitrary: eng) (simp_all add: perm_banned_update_reputation)

lemma perm_banned_id_change: "perm_banned n eng \<Longrightarrow> perm_banned n (record_id_change node now eng)"
  unfolding record_id_change_def by (rule perm_banned_on_state) simp_all

lemma perm_banned_client: "perm_banned n (eng\<lparr>client_engine := c\<rparr>) = perm_banned n eng"
  by (simp add: perm_banned_def)

lemmas perm_banned_hooks = perm_banned_join perm_banned_leave perm_banned_dispute perm_banned_periodic
  perm_banned_apply_penalty perm_banned_id_change perm_banned_update_reputation

lemma perm_banned_event: "rep_event powf n eng eng' \<Longrightarrow> perm_banned n eng \<Longrightarrow> perm_banned n eng'"
  by (induction rule: rep_event.induct)
    (simp_all add: perm_banned_hooks perm_banned_client on_order_matched_def on_settlement_complete_def
      on_trade_disputed_def,
     simp_all add: perm_banned_def on_heartbeat_received_def record_heartbeat_ok_def Let_def
      on_censorship_flag_def on_misconduct_reported_def on_echo_response_def on_flood_relayed_def
      on_flood_dropped_def)

section \<open>Stakes\<close>

lemma slash_amounts:
  assumes "map_of (stakes mgr) node = Some staked"
  shows "slash node amount mgr = (mgr\<lparr>stakes := AList.update node (staked - min amount staked) (stakes mgr),
     slashing_pool := slashing_pool mgr + min amount staked * 2 div 3\<rparr>, Inr (min amount staked))"
  using assms by (simp add: slash_def Let_def)

lemma length_push_bounded:
  "0 < limit \<Longrightarrow> length xs \<le> limit \<Longrightarrow> length (push_bounded limit x xs) \<le> limit"
  by (auto simp: push_bounded_def Let_def remove_at_def)

section \<open>Properties\<close>

text \<open>The peer-to-peer score is a finite number in [0, 1] for every metrics record, including NaN
  and infinite round-trip times and wrapped-around relay counters.\<close>

theorem p2p_score_in_unit_interval:
  "\<exists>r. compute_p2p_score metrics = Fin r \<and> 0 \<le> r \<and> r \<le> 1"
  using p2p_score_range by (simp add: capped_cases)



text \<open>C36. A permanent ban survives every event of the reputation subsystem except a new registration
  of the same node, and every later reputation update reports the node as banned.\<close>

theorem permanent_ban_persists:
  assumes "perm_banned node eng" and "(rep_event powf node)\<^sup>*\<^sup>* eng eng'"
  shows "perm_banned node eng' \<and> get_trust_level node (fst (update_reputation powf node now eng')) = Banned"
proof -
  from assms(2) have ban: "perm_banned node eng'"
    by (induction rule: rtranclp_induct) (auto intro: assms(1) perm_banned_event)
  then obtain st where "map_of (states eng') node = Some st"
    "PermanentBan \<in> pr_penalty_type ` set (rs_penalty_history st)" by (auto simp: perm_banned_def)
  then show ?thesis
    using ban by (simp add: get_trust_level_def states_update_reputation refresh_trust)
qed

definition demo_ban :: penalty_record where
  "demo_ban = \<lparr>pr_penalty_type = PermanentBan, pr_amount = 0, pr_applied_at = Fin 0,
     pr_expires_at = F64_MAX, pr_reason = ''fraud''\<rparr>"

theorem permanent_ban_persists_witness:
  "let eng = apply_penalty 1 demo_ban (Fin 1) (register_node 1 0 (Fin 0) new_reputation_engine)
   in get_trust_level 1 (fst (update_reputation (\<lambda>b e. Fin 1) 1 (Fin 2) (on_heartbeat_received 1 (Fin 2) eng))) = Banned"
proof -
  let ?eng = "apply_penalty 1 demo_ban (Fin 1) (register_node 1 0 (Fin 0) new_reputation_engine)"
  have "perm_banned 1 ?eng"
    by (simp add: perm_banned_def apply_penalty_def register_node_def new_reputation_engine_def Let_def
        demo_ban_def new_reputation_state_def)
  moreover have "(rep_event (\<lambda>b e. Fin 1) 1)\<^sup>*\<^sup>* ?eng (on_heartbeat_received 1 (Fin 2) ?eng)"
    by (intro r_into_rtranclp rep_event.heartbeat)
  ultimately show ?thesis using permanent_ban_persists by (simp add: Let_def)
qed

text \<open>Registering the node again clears the ban.\<close>

lemma rejoin_lifts_permanent_ban:
  "\<not> perm_banned node (fst (on_node_join powf node amount now eng))"
  by (auto simp: perm_banned_def on_node_join_def Let_def states_update_reputation register_node_def
      update_conv' new_reputation_state_def)

text \<open>Slashing takes exactly the smaller of the requested amount and the stake, leaves every other
  node's stake alone, moves two thirds of it (rounded down) to the pool when the amount is below
  2^63, and fails without effect for a node that has no stake.\<close>

theorem slash_accounting:
  "(map_of (stakes mgr) node = None \<longrightarrow> slash node amount mgr = (mgr, Inl NodeNotFound))
   \<and> (\<forall>staked. map_of (stakes mgr) node = Some staked \<longrightarrow>
        (\<exists>mgr' taken. slash node amount mgr = (mgr', Inr taken)
           \<and> unat taken = min (unat amount) (unat staked)
           \<and> unat (staked_of node mgr') + unat taken = unat staked
           \<and> (\<forall>n. n \<noteq> node \<longrightarrow> map_of (stakes mgr') n = map_of (stakes mgr) n)
           \<and> (unat taken < 2 ^ 63 \<longrightarrow>
                slashing_pool mgr' = slashing_pool mgr + word_of_nat (2 * unat taken div 3))))"
proof (intro conjI allI impI)
  fix staked assume s: "map_of (stakes mgr) node = Some staked"
  let ?t = "min amount staked"
  have t: "unat ?t = min (unat amount) (unat staked)" by (simp add: min_def word_le_nat_alt)
  have "?t * 2 div 3 = word_of_nat (2 * unat ?t div 3)" if "unat ?t < 2 ^ 63"
  proof -
    have "unat (?t * 2) = 2 * unat ?t" using that by (simp add: unat_word_ariths)
    then have "unat (?t * 2 div 3) = 2 * unat ?t div 3" by (simp add: unat_div)
    moreover have "2 * unat ?t div 3 < 2 ^ 64"
      by (rule le_less_trans [OF div_le_dividend]) (use that in simp)
    ultimately show ?thesis unfolding word_unat_eq_iff by (simp add: unat_of_nat del: unat_div)
  qed
  moreover have "unat (staked - ?t) + unat ?t = unat staked" by (rule unat_minus_le) simp
  ultimately show "\<exists>mgr' taken. slash node amount mgr = (mgr', Inr taken)
           \<and> unat taken = min (unat amount) (unat staked)
           \<and> unat (staked_of node mgr') + unat taken = unat staked
           \<and> (\<forall>n. n \<noteq> node \<longrightarrow> map_of (stakes mgr') n = map_of (stakes mgr) n)
           \<and> (unat taken < 2 ^ 63 \<longrightarrow>
                slashing_pool mgr' = slashing_pool mgr + word_of_nat (2 * unat taken div 3))"
    unfolding slash_amounts [OF s] using t
    by (intro exI conjI) (auto simp: staked_of_def update_conv')
qed (simp add: slash_def)

theorem slash_accounting_witness:
  "\<exists>mgr'. slash 1 90 (new_stake_manager\<lparr>stakes := [(1, 60)]\<rparr>) = (mgr', Inr 60)"
proof -
  have "\<exists>mgr' taken. slash 1 90 (new_stake_manager\<lparr>stakes := [(1, 60)]\<rparr>) = (mgr', Inr taken) \<and> unat taken = 60"
    using slash_accounting [of "new_stake_manager\<lparr>stakes := [(1, 60)]\<rparr>" 1 90] by auto
  moreover have "taken = 60" if "unat taken = 60" for taken :: u64 using that by (simp add: word_unat_eq_iff)
  ultimately show ?thesis by blast
qed

text \<open>
  Forfeiture credits the pool with half the bond even when the stake no longer covers it: a stake
  of 10 left after slashing, against a bond of 100, loses 10 and adds 50.
\<close>

lemma forfeit_bond_overcredits_pool:
  "let b = \<lparr>b_bond_type = BTSS, b_amount = 100, b_locked_until = Fin 0, b_conditions = [],
            b_forfeited = False, b_forfeited_at = None, b_forfeit_reason = None\<rparr>;
       mgr = fst (lock_bond 1 b (stake 1 100 (Fin 0) new_stake_manager));
       mgr = fst (slash 1 90 mgr);
       mgr' = fst (forfeit_bond 1 BTSS (Fin 1) mgr)
   in total_staked mgr = 10 \<and> total_staked mgr' = 0
      \<and> slashing_pool mgr' = slashing_pool mgr + 50"
  by (simp add: Let_def lock_bond_def stake_def new_stake_manager_def staked_of_def slash_def
      forfeit_bond_def total_staked_def saturating_sub_def)

end
