(* ===== verification/Batcher.thy ===== *)
theory Batcher
  imports Prover Reputation
begin

text \<open>
  The \<^verbatim>\<open>batcher\<close> crate: the balance ledger (\<^verbatim>\<open>ledger.rs\<close>) and the settlement batcher with its
  three tier queues, the grouping by assigned node, the chunks of one proof each and the two-phase
  debit (\<^verbatim>\<open>lib.rs\<close>).

  The ledger may be shared with a chain-sync service that writes it between the solvency reads of
  a chunk and its debits: \<open>env\<close> stands for those writes and is an argument of every operation that
  settles. Instants are nanoseconds; \<open>t\<close> is the instant an operation reads.
\<close>

section \<open>The balance ledger\<close>

record balance_ledger =
  balances :: "(bytes32 \<times> string, u64) hash_map"

definition new_ledger :: balance_ledger where
  "new_ledger = \<lparr>balances = []\<rparr>"

definition balance_of :: "bytes32 \<Rightarrow> string \<Rightarrow> balance_ledger \<Rightarrow> u64" where
  "balance_of trader symb self = (case map_of (balances self) (trader, symb) of Some b \<Rightarrow> b | None \<Rightarrow> 0)"

definition deposit :: "bytes32 \<Rightarrow> string \<Rightarrow> u64 \<Rightarrow> balance_ledger \<Rightarrow> balance_ledger" where
  "deposit trader symb amount self =
     self\<lparr>balances := AList.update (trader, symb) (balance_of trader symb self + amount) (balances self)\<rparr>"

definition credit :: "bytes32 \<Rightarrow> string \<Rightarrow> u64 \<Rightarrow> balance_ledger \<Rightarrow> balance_ledger" where
  "credit trader symb amount self = deposit trader symb amount self"

datatype ledger_error = InsufficientBalance u64 u64

definition debit :: "bytes32 \<Rightarrow> string \<Rightarrow> u64 \<Rightarrow> balance_ledger \<Rightarrow> ledger_error + balance_ledger" where
  "debit trader symb amount self =
     (let balance = balance_of trader symb self
      in if balance < amount then Inl (InsufficientBalance balance amount)
         else Inr (self\<lparr>balances := AList.update (trader, symb) (balance - amount) (balances self)\<rparr>))"

section \<open>The batcher\<close>

definition u64_to_bytes32 :: "u64 \<Rightarrow> bytes32" where
  "u64_to_bytes32 val = replicate 24 0 @ be_bytes val"

record settlement_batcher =
  standard_queue :: "match_rec list"
  express_queue :: "match_rec list"
  instant_queue :: "match_rec list"
  standard_timer :: nat
  express_timer :: nat
  standard_batch_size :: nat
  express_batch_size :: nat
  standard_interval :: nat
  express_interval :: nat
  b_node_id :: node_id
  b_reputation :: "reputation_engine option"
  b_ledger :: balance_ledger

definition new_batcher :: "nat \<Rightarrow> settlement_batcher" where
  "new_batcher t =
     \<lparr>standard_queue = [], express_queue = [], instant_queue = [], standard_timer = t, express_timer = t,
      standard_batch_size = 1000, express_batch_size = 100,
      standard_interval = 10 * 10 ^ 9, express_interval = 60 * 10 ^ 9,
      b_node_id = 0, b_reputation = None, b_ledger = new_ledger\<rparr>"

definition with_ledger :: "balance_ledger \<Rightarrow> settlement_batcher \<Rightarrow> settlement_batcher" where
  "with_ledger l self = self\<lparr>b_ledger := l\<rparr>"

definition batcher_deposit :: "bytes32 \<Rightarrow> string \<Rightarrow> u64 \<Rightarrow> settlement_batcher \<Rightarrow> settlement_batcher" where
  "batcher_deposit trader symb amount self = self\<lparr>b_ledger := deposit trader symb amount (b_ledger self)\<rparr>"

definition batcher_balance_of :: "bytes32 \<Rightarrow> string \<Rightarrow> settlement_batcher \<Rightarrow> u64" where
  "batcher_balance_of trader symb self = balance_of trader symb (b_ledger self)"

definition with_reputation :: "node_id \<Rightarrow> reputation_engine \<Rightarrow> settlement_batcher \<Rightarrow> settlement_batcher" where
  "with_reputation node eng self = self\<lparr>b_node_id := node, b_reputation := Some eng\<rparr>"

definition enqueue :: "match_rec \<Rightarrow> settlement_batcher \<Rightarrow> settlement_batcher" where
  "enqueue trade self = (case m_settlement_tier trade of
     Instant \<Rightarrow> self\<lparr>instant_queue := instant_queue self @ [trade]\<rparr>
   | Express \<Rightarrow> self\<lparr>express_queue := express_queue self @ [trade]\<rparr>
   | Standard \<Rightarrow> self\<lparr>standard_queue := standard_queue self @ [trade]\<rparr>)"

definition retain_pending :: "(match_rec \<Rightarrow> bool) \<Rightarrow> settlement_batcher \<Rightarrow> settlement_batcher" where
  "retain_pending keep self =
     self\<lparr>instant_queue := filter keep (instant_queue self), express_queue := filter keep (express_queue self),
          standard_queue := filter keep (standard_queue self)\<rparr>"

definition queued_trades :: "settlement_batcher \<Rightarrow> match_rec list" where
  "queued_trades self = instant_queue self @ express_queue self @ standard_queue self"

record settlement_batch =
  sb_trades :: "match_rec list"
  sb_total_value :: u64
  sb_proofs :: "bytes list"
  sb_proof_trade_counts :: "nat list"
  sb_trade_batches :: "trade_batch list"

subsection \<open>Building a batch\<close>

definition trade_value :: "match_rec \<Rightarrow> u64" where
  "trade_value trade = m_price trade * m_amount trade"

definition group_by_node :: "match_rec list \<Rightarrow> (bytes32, match_rec list) btree_map" where
  "group_by_node trades = fold (\<lambda>trade. bt_push (m_assigned_node trade) trade) trades []"

definition node_chunks :: "match_rec list \<Rightarrow> match_rec list list" where
  "node_chunks trades = concat (map (\<lambda>(node, grp). chunks MAX_BATCH_TRADES grp) (group_by_node trades))"

definition solvent_trades :: "balance_ledger \<Rightarrow> match_rec list \<Rightarrow> match_rec list" where
  "solvent_trades l chunk =
     filter (\<lambda>trade. \<not> balance_of (m_taker_trader trade) (m_symbol trade) l < trade_value trade) chunk"

definition chunk_batch :: "balance_ledger \<Rightarrow> match_rec list \<Rightarrow> trade_batch" where
  "chunk_batch l chunk_trades =
     \<lparr>tb_trades = chunk_trades,
      tb_maker_balances = map (\<lambda>t. balance_of (m_maker_trader t) (m_symbol t) l) chunk_trades,
      tb_taker_balances = map (\<lambda>t. balance_of (m_taker_trader t) (m_symbol t) l) chunk_trades,
      tb_pre_state_root = zero32,
      tb_post_state_root = u64_to_bytes32 (sum_list (map trade_value chunk_trades))\<rparr>"

text \<open>The first phase: debit every taker in turn, and stop at the first that fails.\<close>

fun debit_chunk ::
    "match_rec list \<Rightarrow> (match_rec \<times> u64) list \<Rightarrow> balance_ledger \<Rightarrow> bool \<times> (match_rec \<times> u64) list \<times> balance_ledger" where
  "debit_chunk [] debited_so_far l = (False, debited_so_far, l)"
| "debit_chunk (trade # ts) debited_so_far l =
     (case debit (m_taker_trader trade) (m_symbol trade) (trade_value trade) l of
        Inr l \<Rightarrow> debit_chunk ts (debited_so_far @ [(trade, trade_value trade)]) l
      | Inl reason \<Rightarrow> (True, debited_so_far, l))"

definition credit_takers :: "(match_rec \<times> u64) list \<Rightarrow> balance_ledger \<Rightarrow> balance_ledger" where
  "credit_takers = fold (\<lambda>(trade, v). credit (m_taker_trader trade) (m_symbol trade) v)"

definition credit_makers :: "(match_rec \<times> u64) list \<Rightarrow> balance_ledger \<Rightarrow> balance_ledger" where
  "credit_makers = fold (\<lambda>(trade, v). credit (m_maker_trader trade) (m_symbol trade) v)"

type_synonym ledger_env = "trade_batch \<Rightarrow> balance_ledger \<Rightarrow> balance_ledger"

definition settle_chunk ::
    "groth16 \<Rightarrow> ledger_env \<Rightarrow> match_rec list \<Rightarrow> balance_ledger \<times> settlement_batch \<Rightarrow> balance_ledger \<times> settlement_batch" where
  "settle_chunk g env chunk st =
     (let (l, acc) = st;
          chunk_trades = solvent_trades l chunk;
          batch = chunk_batch l chunk_trades
      in if chunk_trades = [] then (l, acc)
         else case prove_batch g batch of
           Inl reason \<Rightarrow> (env batch l, acc)
         | Inr proof \<Rightarrow>
             let (chunk_failed, debited_so_far, l) = debit_chunk chunk_trades [] (env batch l)
             in if chunk_failed then (credit_takers debited_so_far l, acc)
                else (credit_makers debited_so_far l,
                      \<lparr>sb_trades = sb_trades acc @ chunk_trades,
                       sb_total_value = sb_total_value acc + sum_list (map snd debited_so_far),
                       sb_proofs = sb_proofs acc @ [proof],
                       sb_proof_trade_counts = sb_proof_trade_counts acc @ [length chunk_trades],
                       sb_trade_batches = sb_trade_batches acc @ [batch]\<rparr>))"

definition empty_batch :: settlement_batch where
  "empty_batch = \<lparr>sb_trades = [], sb_total_value = 0, sb_proofs = [], sb_proof_trade_counts = [], sb_trade_batches = []\<rparr>"

definition build_batch ::
    "groth16 \<Rightarrow> ledger_env \<Rightarrow> match_rec list \<Rightarrow> balance_ledger \<Rightarrow> balance_ledger \<times> settlement_batch" where
  "build_batch g env trades l = fold (settle_chunk g env) (node_chunks trades) (l, empty_batch)"

subsection \<open>Flushing the queues\<close>

definition try_flush_instant ::
    "groth16 \<Rightarrow> ledger_env \<Rightarrow> settlement_batcher \<Rightarrow> settlement_batcher \<times> settlement_batch option" where
  "try_flush_instant g env self = (case instant_queue self of
     [] \<Rightarrow> (self, None)
   | trade # rest \<Rightarrow>
       let (l, batch) = build_batch g env [trade] (b_ledger self)
       in (self\<lparr>instant_queue := rest, b_ledger := l\<rparr>, Some batch))"

definition try_flush_express ::
    "groth16 \<Rightarrow> ledger_env \<Rightarrow> nat \<Rightarrow> settlement_batcher \<Rightarrow> settlement_batcher \<times> settlement_batch option" where
  "try_flush_express g env t self =
     (let should_flush = express_batch_size self \<le> length (express_queue self)
                         \<or> express_interval self \<le> t - express_timer self
      in if should_flush \<and> express_queue self \<noteq> []
         then let (l, batch) = build_batch g env (express_queue self) (b_ledger self)
              in (self\<lparr>express_queue := [], express_timer := t, b_ledger := l\<rparr>, Some batch)
         else (self, None))"

definition try_flush_standard ::
    "groth16 \<Rightarrow> ledger_env \<Rightarrow> nat \<Rightarrow> settlement_batcher \<Rightarrow> settlement_batcher \<times> settlement_batch option" where
  "try_flush_standard g env t self =
     (let should_flush = standard_batch_size self \<le> length (standard_queue self)
                         \<or> standard_interval self \<le> t - standard_timer self
      in if should_flush \<and> standard_queue self \<noteq> []
         then let (l, batch) = build_batch g env (standard_queue self) (b_ledger self)
              in (self\<lparr>standard_queue := [], standard_timer := t, b_ledger := l\<rparr>, Some batch)
         else (self, None))"

definition report_settled :: "powf_fn \<Rightarrow> f64 \<Rightarrow> settlement_batch list \<Rightarrow> settlement_batcher \<Rightarrow> settlement_batcher" where
  "report_settled powf now batches self =
     self\<lparr>b_reputation := map_option (\<lambda>eng. fold (\<lambda>trade. on_settlement_complete powf (b_node_id self)
             (m_maker_order_id trade) (lit 0) (f64_of_word (deadline_seconds (m_settlement_tier trade))) now now)
           (concat (map sb_trades batches)) eng) (b_reputation self)\<rparr>"

definition process_batches ::
    "groth16 \<Rightarrow> ledger_env \<Rightarrow> powf_fn \<Rightarrow> nat \<Rightarrow> f64 \<Rightarrow> settlement_batcher \<Rightarrow> settlement_batcher \<times> settlement_batch list" where
  "process_batches g env powf t now self =
     (let (self, b1) = try_flush_instant g env self;
          (self, b2) = try_flush_express g env t self;
          (self, b3) = try_flush_standard g env t self;
          batches = List.map_filter id [b1, b2, b3]
      in (report_settled powf now batches self, batches))"

section \<open>What settlement uses of the ledger\<close>

text \<open>
  The contract of a balance store: crediting adds to one account, a debit subtracts from one account
  exactly when the account covers it. Arithmetic is that of machine words; \<open>total\<close> counts in the
  naturals.
\<close>

locale accounts =
  fixes bal :: "'l \<Rightarrow> 'k \<Rightarrow> u64" and cr :: "'k \<Rightarrow> u64 \<Rightarrow> 'l \<Rightarrow> 'l" and db :: "'k \<Rightarrow> u64 \<Rightarrow> 'l \<Rightarrow> 'e + 'l"
  assumes bal_cr: "bal (cr k a l) = (bal l)(k := bal l k + a)"
    and db_err: "db k a l = Inl e \<Longrightarrow> bal l k < a"
    and bal_db: "db k a l = Inr l' \<Longrightarrow> a \<le> bal l k \<and> bal l' = (bal l)(k := bal l k - a)"
begin

definition total :: "'k set \<Rightarrow> 'l \<Rightarrow> nat" where
  "total K l = (\<Sum>k \<in> K. unat (bal l k))"

definition weight :: "'k set \<Rightarrow> ('k \<times> u64) list \<Rightarrow> nat" where
  "weight K xs = (\<Sum>(k, a) \<leftarrow> xs. if k \<in> K then unat a else 0)"

definition moved :: "('k \<times> u64) list \<Rightarrow> 'k \<Rightarrow> u64" where
  "moved xs k = (\<Sum>(k', a) \<leftarrow> xs. if k' = k then a else 0)"

lemma bal_credits: "bal (fold (\<lambda>(k, a). cr k a) xs l) k = bal l k + moved xs k"
  by (induction xs arbitrary: l) (auto simp: moved_def bal_cr)

lemma total_credit:
  assumes "finite K" and "total K l + (if k \<in> K then unat a else 0) < 2 ^ 64"
  shows "total K (cr k a l) = total K l + (if k \<in> K then unat a else 0)"
proof (cases "k \<in> K")
  case True
  have split: "total K m = unat (bal m k) + (\<Sum>j \<in> K - {k}. unat (bal m j))" for m
    unfolding total_def using assms(1) True by (rule sum.remove)
  have "unat (bal l k + a) = unat (bal l k) + unat a"
    using assms(2) True split [of l] by (intro unat_add_lem [THEN iffD1]) simp
  then show ?thesis using True split [of l] split [of "cr k a l"] by (simp add: bal_cr)
next
  case False
  then have "total K (cr k a l) = total K l"
    unfolding total_def bal_cr by (intro sum.cong refl) auto
  then show ?thesis using False by simp
qed

lemma total_credits:
  "finite K \<Longrightarrow> total K l + weight K xs < 2 ^ 64 \<Longrightarrow>
     total K (fold (\<lambda>(k, a). cr k a) xs l) = total K l + weight K xs"
proof (induction xs arbitrary: l)
  case (Cons x xs)
  obtain k a where x: "x = (k, a)" by (cases x)
  have "total K (cr k a l) = total K l + (if k \<in> K then unat a else 0)"
    using Cons.prems x by (intro total_credit) (simp_all add: weight_def)
  then show ?case using Cons x by (simp add: weight_def)
qed (simp add: weight_def)

lemma total_debit:
  assumes "finite K" and "db k a l = Inr l'"
  shows "total K l' + (if k \<in> K then unat a else 0) = total K l"
proof (cases "k \<in> K")
  case True
  note b = bal_db [OF assms(2)]
  have split: "total K m = unat (bal m k) + (\<Sum>j \<in> K - {k}. unat (bal m j))" for m
    unfolding total_def using assms(1) True by (rule sum.remove)
  have "unat (bal l k - a) + unat a = unat (bal l k)"
    using b by (simp add: unat_sub word_le_nat_alt)
  then show ?thesis using b True split [of l] split [of l'] by simp
next
  case False
  then have "total K l' = total K l"
    unfolding total_def using bal_db [OF assms(2)] by (intro sum.cong refl) auto
  then show ?thesis using False by simp
qed

lemma total_eqI: "bal l' = bal l \<Longrightarrow> total K l' = total K l"
  by (simp add: total_def)

end

abbreviation ledger_bal :: "balance_ledger \<Rightarrow> bytes32 \<times> string \<Rightarrow> u64" where
  "ledger_bal l k \<equiv> balance_of (fst k) (snd k) l"

interpretation acct: accounts ledger_bal "\<lambda>k. credit (fst k) (snd k)" "\<lambda>k. debit (fst k) (snd k)"
  by unfold_locales
    (auto simp: credit_def deposit_def debit_def balance_of_def Let_def fun_eq_iff update_conv' split: if_splits)

section \<open>The two-phase debit\<close>

abbreviation taker_key :: "match_rec \<Rightarrow> bytes32 \<times> string" where
  "taker_key t \<equiv> (m_taker_trader t, m_symbol t)"

abbreviation maker_key :: "match_rec \<Rightarrow> bytes32 \<times> string" where
  "maker_key t \<equiv> (m_maker_trader t, m_symbol t)"

definition debts :: "(match_rec \<times> u64) list \<Rightarrow> ((bytes32 \<times> string) \<times> u64) list" where
  "debts = map (\<lambda>(t, v). (taker_key t, v))"

definition gains :: "(match_rec \<times> u64) list \<Rightarrow> ((bytes32 \<times> string) \<times> u64) list" where
  "gains = map (\<lambda>(t, v). (maker_key t, v))"

lemma credit_takers_fold: "credit_takers xs = fold (\<lambda>(k, a). credit (fst k) (snd k) a) (debts xs)"
  by (induction xs) (auto simp: credit_takers_def debts_def fun_eq_iff)

lemma credit_makers_fold: "credit_makers xs = fold (\<lambda>(k, a). credit (fst k) (snd k) a) (gains xs)"
  by (induction xs) (auto simp: credit_makers_def gains_def fun_eq_iff)

lemma debit_chunk_effect:
  assumes "debit_chunk ts d l = (failed, d', l')"
  shows "\<exists>e. d' = d @ e \<and> (\<not> failed \<longrightarrow> e = map (\<lambda>t. (t, trade_value t)) ts)
    \<and> (\<forall>k. ledger_bal l' k + acct.moved (debts e) k = ledger_bal l k)
    \<and> (\<forall>K. finite K \<longrightarrow> acct.total K l' + acct.weight K (debts e) = acct.total K l)"
  using assms
proof (induction ts d l arbitrary: l' rule: debit_chunk.induct)
  case (1 d l)
  then show ?case by (auto simp: debts_def acct.moved_def acct.weight_def)
next
  case (2 t ts d l)
  show ?case
  proof (cases "debit (m_taker_trader t) (m_symbol t) (trade_value t) l")
    case (Inl e)
    then show ?thesis using "2.prems" by (auto simp: debts_def acct.moved_def acct.weight_def)
  next
    case (Inr l1)
    then have run: "debit_chunk ts (d @ [(t, trade_value t)]) l1 = (failed, d', l')" using "2.prems" by simp
    from "2.IH" [OF Inr run] obtain e where e: "d' = (d @ [(t, trade_value t)]) @ e"
      "\<not> failed \<longrightarrow> e = map (\<lambda>t. (t, trade_value t)) ts"
      "\<forall>k. ledger_bal l' k + acct.moved (debts e) k = ledger_bal l1 k"
      "\<forall>K. finite K \<longrightarrow> acct.total K l' + acct.weight K (debts e) = acct.total K l1" by blast
    have db: "debit (fst (taker_key t)) (snd (taker_key t)) (trade_value t) l = Inr l1" using Inr by simp
    have "ledger_bal l' k + acct.moved (debts ((t, trade_value t) # e)) k = ledger_bal l k" for k
    proof -
      have "ledger_bal l1 = (ledger_bal l)(taker_key t := ledger_bal l (taker_key t) - trade_value t)"
        using acct.bal_db [OF db] by blast
      from fun_cong [OF this, of k]
      have "ledger_bal l1 k = (if k = taker_key t then ledger_bal l k - trade_value t else ledger_bal l k)"
        by simp
      moreover have "acct.moved (debts ((t, trade_value t) # e)) k
          = (if k = taker_key t then trade_value t else 0) + acct.moved (debts e) k"
        by (auto simp: acct.moved_def debts_def)
      moreover have "ledger_bal l' k = ledger_bal l1 k - acct.moved (debts e) k"
        using spec [OF e(3), of k] by (simp only: eq_diff_eq)
      ultimately show ?thesis by simp
    qed
    moreover have "acct.total K l' + acct.weight K (debts ((t, trade_value t) # e)) = acct.total K l" if "finite K" for K
    proof -
      have "acct.weight K (debts ((t, trade_value t) # e))
          = (if taker_key t \<in> K then unat (trade_value t) else 0) + acct.weight K (debts e)"
        by (simp add: acct.weight_def debts_def)
      then show ?thesis using e(4) [rule_format, OF that] acct.total_debit [OF that db] by linarith
    qed
    ultimately show ?thesis using e(1,2) by (intro exI [of _ "(t, trade_value t) # e"]) simp
  qed
qed

lemma rollback_exact:
  assumes "debit_chunk ts [] l = (failed, d, l')"
  shows "ledger_bal (credit_takers d l') = ledger_bal l"
  using debit_chunk_effect [OF assms] by (auto simp: credit_takers_fold acct.bal_credits fun_eq_iff)

section \<open>Chunks\<close>

lemma bt_alter_set: "x \<in> set (bt_alter k f m) \<Longrightarrow> x \<in> set m \<or> (\<exists>old. x = (k, f old) \<and> (case old of None \<Rightarrow> True | Some v \<Rightarrow> (k, v) \<in> set m))"
proof (induction k f m rule: bt_alter.induct)
  case (1 k f)
  then show ?case by (auto intro: exI [of _ None])
next
  case (2 k f a b m)
  then show ?case by (auto split: if_splits intro: exI [of _ None] exI [of _ "Some b"]) (auto split: option.splits)
qed

lemma mset_bt_push: "mset (concat (map snd (bt_push k x m))) = add_mset x (mset (concat (map snd m)))"
proof (induction m)
  case (Cons ab m)
  obtain a b where "ab = (a, b)" by (cases ab)
  with Cons show ?case by (simp add: bt_push_def)
qed (simp add: bt_push_def)

definition homogeneous :: "(bytes32, match_rec list) btree_map \<Rightarrow> bool" where
  "homogeneous m = (\<forall>n ts t. (n, ts) \<in> set m \<and> t \<in> set ts \<longrightarrow> m_assigned_node t = n)"

lemma homogeneous_push: "homogeneous m \<Longrightarrow> homogeneous (bt_push (m_assigned_node t) t m)"
  unfolding homogeneous_def bt_push_def
  by (auto dest!: bt_alter_set split: option.splits dest: bspec)

lemma group_by_node_ok:
  "homogeneous (group_by_node trades)" "mset (concat (map snd (group_by_node trades))) = mset trades"
proof -
  have "homogeneous m \<Longrightarrow> homogeneous (fold (\<lambda>t. bt_push (m_assigned_node t) t) trades m)" for m
    by (induction trades arbitrary: m) (simp_all add: homogeneous_push)
  from this [of "[]"] show "homogeneous (group_by_node trades)" by (simp add: group_by_node_def homogeneous_def)
  have "mset (concat (map snd (fold (\<lambda>t. bt_push (m_assigned_node t) t) trades m)))
      = mset (concat (map snd m)) + mset trades" for m
    by (induction trades arbitrary: m) (simp_all add: mset_bt_push)
  then show "mset (concat (map snd (group_by_node trades))) = mset trades" by (simp add: group_by_node_def)
qed

lemma node_chunks_ok:
  assumes "c \<in> set (node_chunks trades)"
  shows "c \<noteq> [] \<and> length c \<le> MAX_BATCH_TRADES \<and> (\<exists>n. \<forall>t \<in> set c. m_assigned_node t = n)"
proof -
  obtain n grp where g: "(n, grp) \<in> set (group_by_node trades)" "c \<in> set (chunks MAX_BATCH_TRADES grp)"
    using assms by (auto simp: node_chunks_def)
  then have "\<forall>t \<in> set grp. m_assigned_node t = n"
    using group_by_node_ok(1) [of trades] by (auto simp: homogeneous_def)
  then show ?thesis using chunks_length [OF g(2)] chunks_subset [OF g(2)] by blast
qed

lemma mset_node_chunks: "mset (concat (node_chunks trades)) = mset trades"
proof -
  have "concat (node_chunks trades) = concat (map (\<lambda>(n, grp). concat (chunks MAX_BATCH_TRADES grp)) (group_by_node trades))"
    unfolding node_chunks_def by (induction rule: list.induct [of _ "group_by_node trades"]) auto
  also have "\<dots> = concat (map snd (group_by_node trades))"
    by (simp add: concat_chunks MAX_BATCH_TRADES_def case_prod_beta')
  finally show ?thesis using group_by_node_ok(2) by simp
qed

section \<open>One chunk\<close>

text \<open>
  The outcome of a chunk: nothing is reported and every balance is what the concurrent writer left,
  or the surviving trades are reported under their proof and every taker has paid its maker.
\<close>

definition chunk_settled ::
    "groth16 \<Rightarrow> ledger_env \<Rightarrow> match_rec list \<Rightarrow> balance_ledger \<times> settlement_batch \<Rightarrow> balance_ledger \<times> settlement_batch \<Rightarrow> bool" where
  "chunk_settled g env chunk st st' = (case (st, st') of ((l, acc), (l', acc')) \<Rightarrow>
     let ts = solvent_trades l chunk; batch = chunk_batch l ts; paid = map (\<lambda>t. (t, trade_value t)) ts in
     (\<exists>p l1. ts \<noteq> [] \<and> prove_batch g batch = Inr p
        \<and> acc' = \<lparr>sb_trades = sb_trades acc @ ts, sb_total_value = sb_total_value acc + sum_list (map trade_value ts),
                  sb_proofs = sb_proofs acc @ [p], sb_proof_trade_counts = sb_proof_trade_counts acc @ [length ts],
                  sb_trade_batches = sb_trade_batches acc @ [batch]\<rparr>
        \<and> (\<forall>k. ledger_bal l1 k + acct.moved (debts paid) k = ledger_bal (env batch l) k)
        \<and> (\<forall>K. finite K \<longrightarrow> acct.total K l1 + acct.weight K (debts paid) = acct.total K (env batch l))
        \<and> l' = credit_makers paid l1))"

lemma settle_chunk_cases:
  assumes "settle_chunk g env chunk (l, acc) = (l', acc')"
  shows "acc' = acc \<and> (l' = l \<or> ledger_bal l' = ledger_bal (env (chunk_batch l (solvent_trades l chunk)) l))
    \<or> chunk_settled g env chunk (l, acc) (l', acc')"
proof -
  let ?ts = "solvent_trades l chunk"
  let ?b = "chunk_batch l ?ts"
  show ?thesis
  proof (cases "?ts = [] \<or> (\<exists>e. prove_batch g ?b = Inl e)")
    case True
    then show ?thesis using assms by (auto simp: settle_chunk_def Let_def split: if_splits)
  next
    case False
    then obtain p where p: "?ts \<noteq> []" "prove_batch g ?b = Inr p" by (cases "prove_batch g ?b") auto
    obtain f d l1 where d: "debit_chunk ?ts [] (env ?b l) = (f, d, l1)" by (cases "debit_chunk ?ts [] (env ?b l)")
    show ?thesis
    proof (cases f)
      case True
      then show ?thesis using assms p d rollback_exact [OF d] by (simp add: settle_chunk_def Let_def)
    next
      case f: False
      with debit_chunk_effect [OF d] have e: "d = map (\<lambda>t. (t, trade_value t)) ?ts"
        "\<forall>k. ledger_bal l1 k + acct.moved (debts d) k = ledger_bal (env ?b l) k"
        "\<forall>K. finite K \<longrightarrow> acct.total K l1 + acct.weight K (debts d) = acct.total K (env ?b l)" by auto
      have "l' = credit_makers d l1" "acc' = \<lparr>sb_trades = sb_trades acc @ ?ts,
          sb_total_value = sb_total_value acc + sum_list (map snd d),
          sb_proofs = sb_proofs acc @ [p], sb_proof_trade_counts = sb_proof_trade_counts acc @ [length ?ts],
          sb_trade_batches = sb_trade_batches acc @ [?b]\<rparr>"
        using assms p d f by (auto simp: settle_chunk_def Let_def)
      moreover have "map snd d = map trade_value ?ts" using e(1) by simp
      ultimately have "chunk_settled g env chunk (l, acc) (l', acc')"
        unfolding chunk_settled_def Let_def prod.case e(1) [symmetric]
        by (intro exI [of _ p] exI [of _ l1] conjI p e(2,3)) simp_all
      then show ?thesis ..
    qed
  qed
qed

section \<open>A whole batch\<close>

lemma settle_chunk_split:
  obtains (skipped) l' where "settle_chunk g env chunk (l, acc) = (l', acc)"
      "l' = l \<or> ledger_bal l' = ledger_bal (env (chunk_batch l (solvent_trades l chunk)) l)"
  | (settled) l' acc' where "settle_chunk g env chunk (l, acc) = (l', acc')"
      "chunk_settled g env chunk (l, acc) (l', acc')"
  using settle_chunk_cases [of g env chunk l acc] by (cases "settle_chunk g env chunk (l, acc)") auto

lemma build_batch_invariant:
  assumes "P (l, empty_batch)"
    and "\<And>chunk l acc. chunk \<in> set (node_chunks trades) \<Longrightarrow> P (l, acc) \<Longrightarrow> P (settle_chunk g env chunk (l, acc))"
  shows "P (build_batch g env trades l)"
  unfolding build_batch_def
  by (rule fold_invariant [of _ "\<lambda>c. c \<in> set (node_chunks trades)"]) (use assms in auto)

definition batch_ok :: "groth16 \<Rightarrow> settlement_batch \<Rightarrow> bool" where
  "batch_ok g b \<longleftrightarrow>
     sb_trades b = concat (map tb_trades (sb_trade_batches b))
   \<and> sb_proof_trade_counts b = map (\<lambda>tb. length (tb_trades tb)) (sb_trade_batches b)
   \<and> sb_total_value b = sum_list (map trade_value (sb_trades b))
   \<and> list_all2 (\<lambda>p tb. prove_batch g tb = Inr p \<and> tb_pre_state_root tb = zero32
        \<and> tb_post_state_root tb = u64_to_bytes32 (sum_list (map trade_value (tb_trades tb)))
        \<and> (\<exists>n. \<forall>t \<in> set (tb_trades tb). m_assigned_node t = n)) (sb_proofs b) (sb_trade_batches b)"

lemma chunk_batch_sel [simp]: "tb_trades (chunk_batch l ts) = ts" "tb_pre_state_root (chunk_batch l ts) = zero32"
    "tb_post_state_root (chunk_batch l ts) = u64_to_bytes32 (sum_list (map trade_value ts))"
  by (simp_all add: chunk_batch_def)

lemma solvent_trades_subset: "set (solvent_trades l chunk) \<subseteq> set chunk" "mset (solvent_trades l chunk) \<subseteq># mset chunk"
  by (auto simp: solvent_trades_def)

lemma batch_ok_settled:
  assumes "batch_ok g acc" and "chunk_settled g env chunk (l, acc) (l', acc')"
    and "\<exists>n. \<forall>t \<in> set chunk. m_assigned_node t = n"
  shows "batch_ok g acc'"
proof -
  have "\<exists>n. \<forall>t \<in> set (solvent_trades l chunk). m_assigned_node t = n"
    using assms(3) solvent_trades_subset(1) by blast
  then show ?thesis
    using assms(1,2) unfolding chunk_settled_def Let_def prod.case batch_ok_def
    by (elim exE conjE) (auto intro!: list_all2_appendI)
qed

lemma build_batch_ok: "batch_ok g (snd (build_batch g env trades l))"
proof (rule build_batch_invariant [where P = "\<lambda>st. batch_ok g (snd st)"])
  show "batch_ok g (snd (l, empty_batch))" by (simp add: batch_ok_def empty_batch_def)
next
  fix chunk l acc assume c: "chunk \<in> set (node_chunks trades)" and ok: "batch_ok g (snd (l :: balance_ledger, acc))"
  show "batch_ok g (snd (settle_chunk g env chunk (l, acc)))"
  proof (cases rule: settle_chunk_split [of g env chunk l acc])
    case skipped
    then show ?thesis using ok by simp
  next
    case settled
    then show ?thesis using batch_ok_settled [OF _ settled(2)] ok node_chunks_ok [OF c] by auto
  qed
qed

lemma settle_chunks_subset:
  "mset (sb_trades (snd (fold (settle_chunk g env) cs st))) \<subseteq># mset (sb_trades (snd st)) + mset (concat cs)"
proof (induction cs arbitrary: st)
  case (Cons c cs)
  obtain l acc where st: "st = (l, acc)" by (cases st)
  have "mset (sb_trades (snd (settle_chunk g env c (l, acc)))) \<subseteq># mset (sb_trades acc) + mset c"
  proof (cases rule: settle_chunk_split [of g env c l acc])
    case settled
    then show ?thesis
      using solvent_trades_subset(2) [of l c] by (auto simp: chunk_settled_def Let_def)
  qed simp
  then have "mset (sb_trades (snd (settle_chunk g env c st))) + mset (concat cs)
      \<subseteq># mset (sb_trades (snd st)) + mset (concat (c # cs))"
    by (simp add: st add.assoc [symmetric])
  with Cons [of "settle_chunk g env c st"] show ?case by (auto intro: subset_mset.order_trans)
qed simp

lemma build_batch_subset: "mset (sb_trades (snd (build_batch g env trades l))) \<subseteq># mset trades"
  using settle_chunks_subset [of g env "node_chunks trades" "(l, empty_batch)"] mset_node_chunks [of trades]
  by (simp add: build_batch_def empty_batch_def)

section \<open>Balances after a batch\<close>

definition paid_by :: "match_rec list \<Rightarrow> bytes32 \<times> string \<Rightarrow> u64" where
  "paid_by ts k = (\<Sum>t \<leftarrow> ts. if taker_key t = k then trade_value t else 0)"

definition paid_to :: "match_rec list \<Rightarrow> bytes32 \<times> string \<Rightarrow> u64" where
  "paid_to ts k = (\<Sum>t \<leftarrow> ts. if maker_key t = k then trade_value t else 0)"

lemma paid_simps:
  "acct.moved (debts (map (\<lambda>t. (t, trade_value t)) ts)) k = paid_by ts k"
  "acct.moved (gains (map (\<lambda>t. (t, trade_value t)) ts)) k = paid_to ts k"
  "paid_by (ts @ us) k = paid_by ts k + paid_by us k" "paid_to (ts @ us) k = paid_to ts k + paid_to us k"
  "paid_by [] k = 0" "paid_to [] k = 0"
  by (simp_all add: acct.moved_def debts_def gains_def paid_by_def paid_to_def comp_def)

abbreviation quiet :: ledger_env where
  "quiet \<equiv> \<lambda>batch l. l"

lemma settled_balances:
  assumes "chunk_settled g quiet chunk (l, acc) (l', acc')"
  shows "ledger_bal l' k + paid_by (solvent_trades l chunk) k = ledger_bal l k + paid_to (solvent_trades l chunk) k
    \<and> sb_trades acc' = sb_trades acc @ solvent_trades l chunk"
proof -
  let ?ts = "solvent_trades l chunk"
  obtain l1 where l1: "\<forall>k. ledger_bal l1 k + paid_by ?ts k = ledger_bal l k"
    "l' = credit_makers (map (\<lambda>t. (t, trade_value t)) ?ts) l1" "sb_trades acc' = sb_trades acc @ ?ts"
    using assms unfolding chunk_settled_def Let_def prod.case paid_simps by auto
  have "ledger_bal l' k = ledger_bal l1 k + paid_to ?ts k"
    by (simp add: l1(2) credit_makers_fold acct.bal_credits paid_simps)
  then show ?thesis using spec [OF l1(1), of k] l1(3) by (simp add: ac_simps)
qed

lemma build_batch_balances:
  "ledger_bal (fst (build_batch g quiet trades l)) k + paid_by (sb_trades (snd (build_batch g quiet trades l))) k
     = ledger_bal l k + paid_to (sb_trades (snd (build_batch g quiet trades l))) k"
proof (rule build_batch_invariant [where P = "\<lambda>st. ledger_bal (fst st) k + paid_by (sb_trades (snd st)) k
    = ledger_bal l k + paid_to (sb_trades (snd st)) k"])
  show "ledger_bal (fst (l, empty_batch)) k + paid_by (sb_trades (snd (l, empty_batch))) k
    = ledger_bal l k + paid_to (sb_trades (snd (l, empty_batch))) k" by (simp add: empty_batch_def paid_simps)
next
  fix chunk m and acc :: settlement_batch
  assume inv: "ledger_bal (fst (m, acc)) k + paid_by (sb_trades (snd (m, acc))) k
    = ledger_bal l k + paid_to (sb_trades (snd (m, acc))) k"
  show "ledger_bal (fst (settle_chunk g quiet chunk (m, acc))) k + paid_by (sb_trades (snd (settle_chunk g quiet chunk (m, acc)))) k
    = ledger_bal l k + paid_to (sb_trades (snd (settle_chunk g quiet chunk (m, acc)))) k"
  proof (cases rule: settle_chunk_split [of g quiet chunk m acc])
    case (skipped l')
    then have "ledger_bal l' k = ledger_bal m k" by metis
    then show ?thesis using inv skipped(1) by simp
  next
    case (settled l' acc')
    note s = settled_balances [OF settled(2), of k]
    have "ledger_bal l' k + paid_by (solvent_trades m chunk) k + paid_by (sb_trades acc) k
        = ledger_bal m k + paid_by (sb_trades acc) k + paid_to (solvent_trades m chunk) k"
      using s by (simp add: algebra_simps)
    then show ?thesis using settled(1) s inv by (simp add: paid_simps algebra_simps)
  qed
qed

lemma weights_agree:
  assumes "\<forall>t \<in> set ts. taker_key t \<in> K \<longleftrightarrow> maker_key t \<in> K"
  shows "acct.weight K (debts (map (\<lambda>t. (t, trade_value t)) ts)) = acct.weight K (gains (map (\<lambda>t. (t, trade_value t)) ts))"
  using assms unfolding acct.weight_def debts_def gains_def by (induction ts) auto

lemma settled_total:
  assumes "chunk_settled g quiet chunk (l, acc) (l', acc')" and "finite K" and "acct.total K l < 2 ^ 64"
    and "\<forall>t \<in> set chunk. taker_key t \<in> K \<longleftrightarrow> maker_key t \<in> K"
  shows "acct.total K l' = acct.total K l"
proof -
  let ?paid = "map (\<lambda>t. (t, trade_value t)) (solvent_trades l chunk)"
  obtain l1 where l1: "acct.total K l1 + acct.weight K (debts ?paid) = acct.total K l" "l' = credit_makers ?paid l1"
    using assms(1,2) unfolding chunk_settled_def Let_def prod.case by blast
  have w: "acct.weight K (debts ?paid) = acct.weight K (gains ?paid)"
    using assms(4) solvent_trades_subset(1) by (intro weights_agree) blast
  have "acct.total K l' = acct.total K l1 + acct.weight K (gains ?paid)"
    using l1 w assms(2,3) unfolding credit_makers_fold by (simp add: acct.total_credits)
  with l1 w show ?thesis by simp
qed

lemma build_batch_total:
  assumes "finite K" and "acct.total K l < 2 ^ 64" and "\<forall>t \<in> set trades. taker_key t \<in> K \<longleftrightarrow> maker_key t \<in> K"
  shows "acct.total K (fst (build_batch g quiet trades l)) = acct.total K l"
proof (rule build_batch_invariant [where P = "\<lambda>st. acct.total K (fst st) = acct.total K l"])
  fix chunk m and acc :: settlement_batch assume c: "chunk \<in> set (node_chunks trades)" and inv: "acct.total K (fst (m, acc)) = acct.total K l"
  have "set chunk \<subseteq> set trades"
    using c mset_eq_setD [OF mset_node_chunks, of trades] by auto
  then have k: "\<forall>t \<in> set chunk. taker_key t \<in> K \<longleftrightarrow> maker_key t \<in> K" using assms(3) by blast
  show "acct.total K (fst (settle_chunk g quiet chunk (m, acc))) = acct.total K l"
  proof (cases rule: settle_chunk_split [of g quiet chunk m acc])
    case (skipped l')
    from this(2) have "acct.total K l' = acct.total K m" by (elim disjE) (simp, rule acct.total_eqI)
    then show ?thesis using skipped(1) inv by simp
  next
    case settled
    then show ?thesis using settled_total [OF settled(2) assms(1) _ k] inv assms(2) by simp
  qed
qed simp

section \<open>State roots\<close>

lemma fold_zero_bytes: "fold (\<lambda>b acc. acc * 256 + uint (b :: u8)) (replicate n 0) 0 = 0"
  by (induction n) (simp_all del: fold_replicate)

lemma bytes_to_fe_u64: "bytes_to_fe (u64_to_bytes32 w) = uint w"
proof -
  have "uint w < 2 ^ 64" using unsigned_less [of w] by simp
  then have "uint w mod 256 ^ 8 mod FR_MODULUS = uint w" by (simp add: FR_MODULUS_def)
  then show ?thesis
    using fold_be_bytes [of w 8 0] unfolding bytes_to_fe_def u64_to_bytes32_def be_bytes_def
    by (simp add: fold_zero_bytes del: fold_replicate)
qed

lemma unat_wide_product: "unat (ucast (a :: u64) * ucast (p :: u64) :: u128) = unat a * unat p"
proof -
  have "unat a * unat p \<le> (2 ^ 64 - 1) * (2 ^ 64 - 1)"
    using unat_less_pow [of a] unat_less_pow [of p] by (intro mult_mono) auto
  then show ?thesis by (simp add: unat_word_ariths unat_ucast_up)
qed

lemma solvent_value:
  assumes "\<not> insolvent (t, b)"
  shows "uint (trade_value t) = uint (m_amount t) * uint (m_price t)" "unat (trade_value t) \<le> unat b"
proof -
  have le: "unat (m_amount t) * unat (m_price t) \<le> unat b"
    using assms by (simp add: insolvent_def word_less_nat_alt unat_wide_product unat_ucast_up)
  then have "unat (m_price t) * unat (m_amount t) < 2 ^ 64" using unat_less_pow [of b] by (simp add: mult.commute)
  then have v: "unat (trade_value t) = unat (m_amount t) * unat (m_price t)"
    unfolding trade_value_def by (subst unat_mult_lem [THEN iffD1]) (simp_all add: mult.commute)
  from v le show "unat (trade_value t) \<le> unat b" by simp
  from v have "int (unat (trade_value t)) = int (unat (m_amount t)) * int (unat (m_price t))" by simp
  then show "uint (trade_value t) = uint (m_amount t) * uint (m_price t)" by simp
qed

lemma uint_sum_list:
  fixes ws :: "u64 list"
  shows "(\<Sum>w \<leftarrow> ws. unat w) < 2 ^ 64 \<Longrightarrow> uint (sum_list ws) = (\<Sum>w \<leftarrow> ws. uint w)"
proof (induction ws)
  case (Cons w ws)
  then have s: "uint (sum_list ws) = (\<Sum>w \<leftarrow> ws. uint w)" by simp
  have n: "(\<Sum>w \<leftarrow> ws. uint w) = int (\<Sum>w \<leftarrow> ws. unat w)" by (induction ws) simp_all
  have "int (unat w + (\<Sum>w \<leftarrow> ws. unat w)) < int (2 ^ 64)"
    using Cons.prems by (subst of_nat_less_iff) simp
  then have "uint w + uint (sum_list ws) < 2 ^ 64" unfolding s n by simp
  then show ?case using s by (simp add: uint_add_lem [THEN iffD1])
qed simp

lemma built_proof_verifies:
  assumes laws: "groth16_laws g" and ok: "batch_ok g b" and mem: "(p, tb) \<in> set (zip (sb_proofs b) (sb_trade_batches b))"
    and fits: "(\<Sum>t \<leftarrow> tb_trades tb. unat (trade_value t)) < 2 ^ 64"
  shows "verify_proof g p tb"
proof (rule prove_verify [OF laws])
  show p: "prove_batch g tb = Inr p"
    using ok mem unfolding batch_ok_def list_all2_iff by fast
  have roots: "tb_pre_state_root tb = zero32"
    "tb_post_state_root tb = u64_to_bytes32 (sum_list (map trade_value (tb_trades tb)))"
    using ok mem unfolding batch_ok_def list_all2_iff by fast+
  note pb = prove_batch_ok [OF p]
  have "uint (trade_value t) = uint (m_amount t) * uint (m_price t)" if "t \<in> set (tb_trades tb)" for t
  proof -
    from that obtain i where "i < length (tb_trades tb)" "tb_trades tb ! i = t" by (auto simp: in_set_conv_nth)
    with pb(4) have "(t, tb_taker_balances tb ! i) \<in> set (zip (tb_trades tb) (tb_taker_balances tb))"
      by (auto simp: set_zip)
    then show ?thesis using pb(5) solvent_value(1) by (auto simp: list_ex_iff)
  qed
  then have "map (\<lambda>t. uint (trade_value t)) (tb_trades tb) = map (\<lambda>t. uint (m_amount t) * uint (m_price t)) (tb_trades tb)"
    by simp
  then have "uint (sum_list (map trade_value (tb_trades tb))) = (\<Sum>t \<leftarrow> tb_trades tb. uint (m_amount t) * uint (m_price t))"
    using uint_sum_list [of "map trade_value (tb_trades tb)"] fits by (simp add: comp_def cong: map_cong)
  moreover have "uint (sum_list (map trade_value (tb_trades tb))) mod FR_MODULUS = uint (sum_list (map trade_value (tb_trades tb)))"
    using bytes_to_fe_range [of "u64_to_bytes32 (sum_list (map trade_value (tb_trades tb)))"]
    by (simp add: bytes_to_fe_u64)
  ultimately show "bytes_to_fe (tb_post_state_root tb) = (bytes_to_fe (tb_pre_state_root tb)
      + (\<Sum>t \<leftarrow> tb_trades tb. uint (m_amount t) * uint (m_price t))) mod FR_MODULUS"
    by (simp add: roots bytes_to_fe_u64 demo_roots(1))
qed

section \<open>The queues\<close>

inductive batcher_reachable :: "groth16 \<Rightarrow> ledger_env \<Rightarrow> powf_fn \<Rightarrow> settlement_batcher \<Rightarrow> bool"
  for g env powf where
  start: "batcher_reachable g env powf (new_batcher t)"
| enqueued: "batcher_reachable g env powf b \<Longrightarrow> batcher_reachable g env powf (enqueue m b)"
| retained: "batcher_reachable g env powf b \<Longrightarrow> batcher_reachable g env powf (retain_pending keep b)"
| deposited: "batcher_reachable g env powf b \<Longrightarrow> batcher_reachable g env powf (batcher_deposit a s v b)"
| ledger_set: "batcher_reachable g env powf b \<Longrightarrow> batcher_reachable g env powf (with_ledger l b)"
| reputation_set: "batcher_reachable g env powf b \<Longrightarrow> batcher_reachable g env powf (with_reputation n eng b)"
| processed: "batcher_reachable g env powf b \<Longrightarrow> batcher_reachable g env powf (fst (process_batches g env powf t now b))"

definition tier_ok :: "settlement_batcher \<Rightarrow> bool" where
  "tier_ok b \<longleftrightarrow> list_all (\<lambda>m. m_settlement_tier m = Instant) (instant_queue b)
     \<and> list_all (\<lambda>m. m_settlement_tier m = Express) (express_queue b)
     \<and> list_all (\<lambda>m. m_settlement_tier m = Standard) (standard_queue b)"

definition clear_queues :: "settlement_batcher \<Rightarrow> settlement_batcher" where
  "clear_queues b = b\<lparr>instant_queue := [], express_queue := [], standard_queue := []\<rparr>"

text \<open>What one call of \<^verbatim>\<open>process_batches\<close> does to the queues and timers.\<close>

lemma process_queues:
  fixes g env powf t now b
  defines "b' \<equiv> fst (process_batches g env powf t now b)"
  defines "xf \<equiv> express_batch_size b \<le> length (express_queue b) \<or> express_interval b \<le> t - express_timer b"
  defines "sf \<equiv> standard_batch_size b \<le> length (standard_queue b) \<or> standard_interval b \<le> t - standard_timer b"
  shows "instant_queue b' = tl (instant_queue b)"
    "express_queue b' = (if xf then [] else express_queue b)"
    "standard_queue b' = (if sf then [] else standard_queue b)"
    "express_timer b' = (if xf \<and> express_queue b \<noteq> [] then t else express_timer b)"
    "standard_timer b' = (if sf \<and> standard_queue b \<noteq> [] then t else standard_timer b)"
    "express_interval b' = express_interval b" "standard_interval b' = standard_interval b"
  unfolding b'_def xf_def sf_def
  by (auto simp: process_batches_def try_flush_instant_def try_flush_express_def try_flush_standard_def
      report_settled_def Let_def case_prod_beta split: list.split)

lemma tier_ok_reachable: "batcher_reachable g env powf b \<Longrightarrow> tier_ok b"
proof (induction rule: batcher_reachable.induct)
  case (processed b t now)
  then show ?case by (cases "instant_queue b") (simp_all add: tier_ok_def process_queues)
qed (auto simp: tier_ok_def new_batcher_def enqueue_def retain_pending_def batcher_deposit_def with_ledger_def
    with_reputation_def list_all_iff split: settlement_preference.splits)

lemma enqueue_all:
  "list_all (\<lambda>m. m_settlement_tier m = Instant) ms \<Longrightarrow> fold enqueue ms b = b\<lparr>instant_queue := instant_queue b @ ms\<rparr>"
  "list_all (\<lambda>m. m_settlement_tier m = Express) ms \<Longrightarrow> fold enqueue ms b = b\<lparr>express_queue := express_queue b @ ms\<rparr>"
  "list_all (\<lambda>m. m_settlement_tier m = Standard) ms \<Longrightarrow> fold enqueue ms b = b\<lparr>standard_queue := standard_queue b @ ms\<rparr>"
  by (induction ms arbitrary: b) (auto simp: enqueue_def)

lemma restore_queues: "tier_ok b \<Longrightarrow> fold enqueue (queued_trades b) (clear_queues b) = b"
  by (simp add: tier_ok_def queued_trades_def clear_queues_def enqueue_all)

definition tick_all :: "groth16 \<Rightarrow> ledger_env \<Rightarrow> powf_fn \<Rightarrow> (nat \<times> f64) list \<Rightarrow> settlement_batcher \<Rightarrow> settlement_batcher" where
  "tick_all g env powf = fold (\<lambda>(t, now) b. fst (process_batches g env powf t now b))"

lemma tick_all_instant: "instant_queue (tick_all g env powf ticks b) = drop (length ticks) (instant_queue b)"
  unfolding tick_all_def
  by (induction ticks arbitrary: b) (auto simp: process_queues drop_Suc)

lemma tick_all_express:
  "\<exists>t now. (t, now) \<in> set ticks \<and> express_interval b \<le> t - express_timer b \<or> express_queue b = [] \<Longrightarrow>
     express_queue (tick_all g env powf ticks b) = []"
proof (induction ticks arbitrary: b)
  case (Cons tn ticks)
  obtain t now where tn: "tn = (t, now)" by (cases tn)
  let ?b = "fst (process_batches g env powf t now b)"
  have "\<exists>t now. (t, now) \<in> set ticks \<and> express_interval ?b \<le> t - express_timer ?b \<or> express_queue ?b = []"
    using Cons.prems tn by (auto simp: process_queues)
  from Cons.IH [OF this] show ?case by (simp add: tick_all_def tn)
qed (auto simp: tick_all_def)

lemma tick_all_standard:
  "\<exists>t now. (t, now) \<in> set ticks \<and> standard_interval b \<le> t - standard_timer b \<or> standard_queue b = [] \<Longrightarrow>
     standard_queue (tick_all g env powf ticks b) = []"
proof (induction ticks arbitrary: b)
  case (Cons tn ticks)
  obtain t now where tn: "tn = (t, now)" by (cases tn)
  let ?b = "fst (process_batches g env powf t now b)"
  have "\<exists>t now. (t, now) \<in> set ticks \<and> standard_interval ?b \<le> t - standard_timer ?b \<or> standard_queue ?b = []"
    using Cons.prems tn by (auto simp: process_queues)
  from Cons.IH [OF this] show ?case by (simp add: tick_all_def tn)
qed (auto simp: tick_all_def)

definition demo_ledger :: balance_ledger where
  "demo_ledger = deposit (m_taker_trader (demo_match 3 5)) (m_symbol (demo_match 3 5)) 20 new_ledger"

lemma demo_build:
  "\<exists>p. prove_batch demo_groth16 (chunk_batch demo_ledger [demo_match 3 5]) = Inr p
     \<and> sb_proofs (snd (build_batch demo_groth16 quiet [demo_match 3 5] demo_ledger)) = [p]
     \<and> sb_trade_batches (snd (build_batch demo_groth16 quiet [demo_match 3 5] demo_ledger))
         = [chunk_batch demo_ledger [demo_match 3 5]]"
proof -
  let ?t = "demo_match 3 5"
  have val: "trade_value ?t = 15" by (simp add: trade_value_def)
  have bal: "balance_of (m_taker_trader ?t) (m_symbol ?t) demo_ledger = 20"
    by (simp add: demo_ledger_def deposit_def balance_of_def new_ledger_def)
  have chunk: "node_chunks [?t] = [[?t]]"
    by (simp add: node_chunks_def group_by_node_def bt_push_def chunks.simps MAX_BATCH_TRADES_def)
  have solvent: "solvent_trades demo_ledger [?t] = [?t]" by (simp add: solvent_trades_def val bal)
  obtain p where p: "prove_batch demo_groth16 (chunk_batch demo_ledger [?t]) = Inr p"
    by (simp add: prove_batch_def chunk_batch_def demo_groth16_def insolvent_def MAX_BATCH_TRADES_def Let_def bal)
  obtain l' where "debit (m_taker_trader ?t) (m_symbol ?t) (trade_value ?t) demo_ledger = Inr l'"
    by (simp add: debit_def Let_def bal val)
  then show ?thesis
    using p by (simp add: build_batch_def chunk settle_chunk_def solvent Let_def empty_batch_def)
qed

section \<open>Properties\<close>

text \<open>C3. Settlement moves exactly the reported trades: with no concurrent writer, after building a
  batch from any trades every account holds what it held before, plus the values of the reported
  trades it made, minus those it took. Trades that were dropped, failed to prove or belonged to a
  rolled-back chunk leave no trace in any balance.\<close>

theorem settlement_moves_reported_trades:
  "let (l', b) = build_batch g (\<lambda>batch l. l) trades l in
     balance_of a s l'
       + (\<Sum>t \<leftarrow> sb_trades b. if m_taker_trader t = a \<and> m_symbol t = s then m_price t * m_amount t else 0)
     = balance_of a s l
       + (\<Sum>t \<leftarrow> sb_trades b. if m_maker_trader t = a \<and> m_symbol t = s then m_price t * m_amount t else 0)"
  using build_batch_balances [where k = "(a, s)" and g = g and trades = trades and l = l]
  by (simp add: case_prod_beta paid_by_def paid_to_def trade_value_def cong: if_cong)



text \<open>C22. Shape of a settlement batch, for every ledger writer: the reported trades are the
  concatenation of the proven trade batches, the counts are their lengths, there is one proof per
  trade batch, each holds between one and eight trades of a single assigned node, and no trade is
  reported that was not queued, or more often than it was queued.\<close>

theorem settlement_batch_shape:
  "let b = snd (build_batch g env trades l) in
     sb_trades b = concat (map tb_trades (sb_trade_batches b))
   \<and> sb_proof_trade_counts b = map (\<lambda>tb. length (tb_trades tb)) (sb_trade_batches b)
   \<and> length (sb_proofs b) = length (sb_trade_batches b)
   \<and> list_all (\<lambda>tb. tb_trades tb \<noteq> [] \<and> length (tb_trades tb) \<le> MAX_BATCH_TRADES
        \<and> (\<exists>n. list_all (\<lambda>t. m_assigned_node t = n) (tb_trades tb))) (sb_trade_batches b)
   \<and> mset (sb_trades b) \<subseteq># mset trades"
proof -
  have ok: "batch_ok g (snd (build_batch g env trades l))" by (rule build_batch_ok)
  have "list_all (\<lambda>tb. tb_trades tb \<noteq> [] \<and> length (tb_trades tb) \<le> MAX_BATCH_TRADES
      \<and> (\<exists>n. list_all (\<lambda>t. m_assigned_node t = n) (tb_trades tb))) tbs"
    if "list_all2 (\<lambda>p tb. prove_batch g tb = Inr p \<and> Q p tb \<and> R p tb
        \<and> (\<exists>n. \<forall>t \<in> set (tb_trades tb). m_assigned_node t = n)) ps tbs" for Q R ps tbs
    using that by induction (auto simp: list_all_iff dest: prove_batch_ok(1,2))
  with ok show ?thesis
    using build_batch_subset [of g env trades l]
    by (auto simp: batch_ok_def Let_def dest: list_all2_lengthD)
qed

text \<open>C20. Every proof of a settlement batch verifies against its own trade batch, as the watchtower
  re-checks it, provided the values of that batch sum to less than \<open>2 ^ 64\<close>: the post root is that
  sum as a machine word.\<close>

theorem settlement_proofs_verify:
  assumes "groth16_laws g"
    and "(p, tb) \<in> set (zip (sb_proofs (snd (build_batch g env trades l))) (sb_trade_batches (snd (build_batch g env trades l))))"
    and "(\<Sum>t \<leftarrow> tb_trades tb. unat (trade_value t)) < 2 ^ 64"
  shows "verify_proof g p tb"
  using built_proof_verifies [OF assms(1) build_batch_ok assms(2,3)] .

theorem settlement_proofs_verify_witness:
  "\<exists>p. verify_proof demo_groth16 p (chunk_batch demo_ledger [demo_match 3 5])"
proof -
  obtain p where "sb_proofs (snd (build_batch demo_groth16 quiet [demo_match 3 5] demo_ledger)) = [p]"
    "sb_trade_batches (snd (build_batch demo_groth16 quiet [demo_match 3 5] demo_ledger)) = [chunk_batch demo_ledger [demo_match 3 5]]"
    using demo_build by blast
  then show ?thesis
    using settlement_proofs_verify [OF demo_groth16_laws, of p "chunk_batch demo_ledger [demo_match 3 5]" quiet "[demo_match 3 5]" demo_ledger]
    by (auto simp: trade_value_def)
qed

text \<open>Snapshot round trip: for every batcher the program can reach, enqueueing its queued trades
  again into a batcher with empty queues restores it.\<close>

theorem queued_trades_restore:
  assumes "batcher_reachable g env powf b"
  shows "fold enqueue (queued_trades b) (b\<lparr>instant_queue := [], express_queue := [], standard_queue := []\<rparr>) = b"
  using restore_queues [OF tier_ok_reachable [OF assms]] by (simp add: clear_queues_def)

theorem queued_trades_restore_witness:
  "fold enqueue (queued_trades (enqueue (demo_match 3 5) (new_batcher 0))) (new_batcher 0) = enqueue (demo_match 3 5) (new_batcher 0)"
proof -
  have "batcher_reachable demo_groth16 quiet (\<lambda>x y. x) (enqueue (demo_match 3 5) (new_batcher 0))"
    by (intro batcher_reachable.intros)
  from queued_trades_restore [OF this] show ?thesis
    by (simp add: enqueue_def new_batcher_def split: settlement_preference.splits)
qed

text \<open>C38. Every queue drains: with no further trades, as many processing calls as there are instant
  trades, one of them at least an express interval and one at least a standard interval after the
  respective timer, leave all three queues empty.\<close>

theorem queues_drain:
  assumes "length (instant_queue b) \<le> length ticks"
    and "(t, n) \<in> set ticks" and "express_interval b \<le> t - express_timer b"
    and "(t', n') \<in> set ticks" and "standard_interval b \<le> t' - standard_timer b"
  shows "queued_trades (fold (\<lambda>(t, now) b. fst (process_batches g env powf t now b)) ticks b) = []"
  using tick_all_instant [of g env powf ticks b] tick_all_express [of ticks b g env powf]
    tick_all_standard [of ticks b g env powf] assms
  unfolding queued_trades_def tick_all_def by auto

theorem queues_drain_witness:
  "queued_trades (fst (process_batches demo_groth16 quiet (\<lambda>x y. x) (61 * 10 ^ 9) (lit 0) (enqueue (demo_match 3 5) (new_batcher 0)))) = []"
proof -
  have "length (instant_queue (enqueue (demo_match 3 5) (new_batcher 0))) \<le> length [(61 * 10 ^ 9 :: nat, lit 0)]"
    by (simp add: enqueue_def new_batcher_def split: settlement_preference.splits)
  moreover have "express_interval (enqueue (demo_match 3 5) (new_batcher 0)) \<le> 61 * 10 ^ 9 - express_timer (enqueue (demo_match 3 5) (new_batcher 0))"
    "standard_interval (enqueue (demo_match 3 5) (new_batcher 0)) \<le> 61 * 10 ^ 9 - standard_timer (enqueue (demo_match 3 5) (new_batcher 0))"
    by (simp_all add: enqueue_def new_batcher_def split: settlement_preference.splits)
  ultimately show ?thesis
    using queues_drain [of "enqueue (demo_match 3 5) (new_batcher 0)" "[(61 * 10 ^ 9, lit 0)]"] by simp
qed

end
