(* ===== verification/Persistence.thy ===== *)
theory Persistence
  imports Orderlog Batcher
begin

text \<open>
  The write-ahead log of the \<^verbatim>\<open>api\<close> crate (\<^verbatim>\<open>persistence.rs\<close>): its entries, the snapshot slot, the
  truncation of entries a snapshot covers, and the archive of old log entries.

  The embedded database (sled) and the JSON encodings are arguments: \<open>store_ops\<close> holds their
  operations, \<open>store_laws\<close> what is used of them. An operation returns its result and the database
  after it; an error can leave a write behind, as the code does when only the flush fails.
\<close>

section \<open>Entries and snapshots\<close>

type_synonym trade_key = "bytes32 \<times> bytes32"

datatype wal_entry =
    OrderAccepted order order_receipt "u64 option"
  | CommitConfirmed match_rec bytes32
  | BatchSubmitted "trade_key list"
  | OrderQueued order order_receipt

record snapshot =
  sn_order_book_bids :: levels
  sn_order_book_asks :: levels
  sn_active_nodes_cursor :: usize
  sn_order_log :: "order_receipt hash_chain_log"
  sn_match_log :: "match_rec hash_chain_log"
  sn_pending_commits :: "(trade_key \<times> match_rec) list"
  sn_confirmed_trade_hashes :: "(trade_key \<times> bytes32) list"
  sn_applied_order_ids :: "bytes32 set"
  sn_queued_trades :: "match_rec list"

section \<open>The database\<close>

type_synonym ('d, 'a) io = "'d \<Rightarrow> 'd \<times> (string + 'a)"

text \<open>\<^verbatim>\<open>?\<close> on a \<^verbatim>\<open>Result\<close>: an error returns at once.\<close>

definition io_bind :: "('d, 'a) io \<Rightarrow> ('a \<Rightarrow> ('d, 'b) io) \<Rightarrow> ('d, 'b) io" where
  "io_bind m f d = (case m d of (d, Inl e) \<Rightarrow> (d, Inl e) | (d, Inr x) \<Rightarrow> f x d)"

definition io_lift :: "string + 'a \<Rightarrow> ('d, 'a) io" where
  "io_lift r d = (d, r)"

definition io_ok :: "'a \<Rightarrow> ('d, 'a) io" where
  "io_ok x d = (d, Inr x)"

fun io_each :: "('a \<Rightarrow> ('d, unit) io) \<Rightarrow> 'a list \<Rightarrow> ('d, unit) io" where
  "io_each f [] = io_ok ()"
| "io_each f (x # xs) = io_bind (f x) (\<lambda>_. io_each f xs)"

text \<open>Decoding a list of values, stopping at the first error.\<close>

fun decode_all :: "(bytes \<Rightarrow> string + 'a) \<Rightarrow> (string + bytes \<times> bytes) list \<Rightarrow> string + 'a list" where
  "decode_all dec [] = Inr []"
| "decode_all dec (kv # kvs) = (case kv of
     Inl e \<Rightarrow> Inl e
   | Inr (k, v) \<Rightarrow> (case dec v of
       Inl e \<Rightarrow> Inl e
     | Inr x \<Rightarrow> (case decode_all dec kvs of Inl e \<Rightarrow> Inl e | Inr xs \<Rightarrow> Inr (x # xs))))"

record 'd store_ops =
  generate_id :: "('d, u64) io"
  open_tree :: "string \<Rightarrow> ('d, unit) io"
  tree_insert :: "string \<Rightarrow> bytes \<Rightarrow> bytes \<Rightarrow> ('d, unit) io"
  tree_remove :: "string \<Rightarrow> bytes \<Rightarrow> ('d, unit) io"
  tree_flush :: "string \<Rightarrow> ('d, unit) io"
  tree_get :: "string \<Rightarrow> bytes \<Rightarrow> 'd \<Rightarrow> string + bytes option"
  tree_last :: "string \<Rightarrow> 'd \<Rightarrow> string + (bytes \<times> bytes) option"
  tree_from :: "string \<Rightarrow> bytes \<Rightarrow> 'd \<Rightarrow> (string + bytes \<times> bytes) list"
  tree_upto :: "string \<Rightarrow> bytes \<Rightarrow> 'd \<Rightarrow> (string + bytes \<times> bytes) list"
  tree_iter :: "string \<Rightarrow> 'd \<Rightarrow> (string + bytes \<times> bytes) list"
  wal_to_vec :: "wal_entry \<Rightarrow> string + bytes"
  wal_from_slice :: "bytes \<Rightarrow> string + wal_entry"
  snap_to_vec :: "snapshot \<times> u64 \<Rightarrow> string + bytes"
  snap_from_slice :: "bytes \<Rightarrow> string + snapshot \<times> u64"
  receipt_entry_to_vec :: "order_receipt log_entry \<Rightarrow> string + bytes"
  receipt_entry_from_slice :: "bytes \<Rightarrow> string + order_receipt log_entry"
  match_entry_to_vec :: "match_rec log_entry \<Rightarrow> string + bytes"
  match_entry_from_slice :: "bytes \<Rightarrow> string + match_rec log_entry"

section \<open>The persistence log\<close>

definition WAL :: string where
  "WAL = ''wal_entries''"

definition SNAPSHOT :: string where
  "SNAPSHOT = ''snapshot''"

definition ORDER_ARCHIVE :: string where
  "ORDER_ARCHIVE = ''order_log_archive''"

definition MATCH_ARCHIVE :: string where
  "MATCH_ARCHIVE = ''match_log_archive''"

definition append_entry :: "'d store_ops \<Rightarrow> wal_entry \<Rightarrow> ('d, unit) io" where
  "append_entry S entry =
     io_bind (generate_id S) (\<lambda>seq.
     io_bind (io_lift (wal_to_vec S entry)) (\<lambda>bytes.
     io_bind (tree_insert S WAL (be_bytes seq) bytes) (\<lambda>_.
     tree_flush S WAL)))"

definition append_order_accepted :: "'d store_ops \<Rightarrow> order \<Rightarrow> order_receipt \<Rightarrow> u64 option \<Rightarrow> ('d, unit) io" where
  "append_order_accepted S order receipt match_timestamp_us =
     append_entry S (OrderAccepted order receipt match_timestamp_us)"

definition append_commit_confirmed :: "'d store_ops \<Rightarrow> match_rec \<Rightarrow> bytes32 \<Rightarrow> ('d, unit) io" where
  "append_commit_confirmed S m trade_hash = append_entry S (CommitConfirmed m trade_hash)"

definition append_batch_submitted :: "'d store_ops \<Rightarrow> trade_key list \<Rightarrow> ('d, unit) io" where
  "append_batch_submitted S keys = append_entry S (BatchSubmitted keys)"

definition append_order_queued :: "'d store_ops \<Rightarrow> order \<Rightarrow> order_receipt \<Rightarrow> ('d, unit) io" where
  "append_order_queued S order receipt = append_entry S (OrderQueued order receipt)"

definition replay :: "'d store_ops \<Rightarrow> u64 option \<Rightarrow> 'd \<Rightarrow> string + wal_entry list" where
  "replay S after_seq d = (case after_seq of
     Some seq \<Rightarrow> decode_all (wal_from_slice S) (tree_from S WAL (be_bytes (seq + 1)) d)
   | None \<Rightarrow> decode_all (wal_from_slice S) (tree_iter S WAL d))"

text \<open>\<^verbatim>\<open>u64::from_be_bytes\<close> after the length check.\<close>

definition u64_from_be_bytes :: "bytes \<Rightarrow> u64" where
  "u64_from_be_bytes bs = fold (\<lambda>b acc. acc * 256 + ucast b) bs 0"

definition latest_seq :: "'d store_ops \<Rightarrow> 'd \<Rightarrow> string + u64 option" where
  "latest_seq S d = (case tree_last S WAL d of
     Inl e \<Rightarrow> Inl e
   | Inr None \<Rightarrow> Inr None
   | Inr (Some (k, v)) \<Rightarrow>
       if length k \<noteq> 8 then Inl ''corrupt WAL key: wrong length'' else Inr (Some (u64_from_be_bytes k)))"

definition save_snapshot :: "'d store_ops \<Rightarrow> snapshot \<Rightarrow> u64 \<Rightarrow> ('d, unit) io" where
  "save_snapshot S snap covers_up_to_seq =
     io_bind (open_tree S SNAPSHOT) (\<lambda>_.
     io_bind (io_lift (snap_to_vec S (snap, covers_up_to_seq))) (\<lambda>bytes.
     io_bind (tree_insert S SNAPSHOT (as_bytes ''latest'') bytes) (\<lambda>_.
     tree_flush S SNAPSHOT)))"

definition load_snapshot :: "'d store_ops \<Rightarrow> ('d, (snapshot \<times> u64) option) io" where
  "load_snapshot S =
     io_bind (open_tree S SNAPSHOT) (\<lambda>_ d. (d, case tree_get S SNAPSHOT (as_bytes ''latest'') d of
       Inl e \<Rightarrow> Inl e
     | Inr None \<Rightarrow> Inr None
     | Inr (Some bytes) \<Rightarrow> (case snap_from_slice S bytes of Inl e \<Rightarrow> Inl e | Inr sn \<Rightarrow> Inr (Some sn))))"

fun remove_all :: "'d store_ops \<Rightarrow> (string + bytes \<times> bytes) list \<Rightarrow> nat \<Rightarrow> ('d, nat) io" where
  "remove_all S [] removed = io_ok removed"
| "remove_all S (kv # kvs) removed = (case kv of
     Inl e \<Rightarrow> io_lift (Inl e)
   | Inr (k, v) \<Rightarrow> io_bind (tree_remove S WAL k) (\<lambda>_. remove_all S kvs (removed + 1)))"

definition truncate_up_to :: "'d store_ops \<Rightarrow> u64 \<Rightarrow> ('d, nat) io" where
  "truncate_up_to S up_to_seq d =
     io_bind (remove_all S (tree_upto S WAL (be_bytes up_to_seq) d) 0) (\<lambda>removed.
     io_bind (tree_flush S WAL) (\<lambda>_. io_ok removed)) d"

definition archive_entries ::
    "'d store_ops \<Rightarrow> string \<Rightarrow> ('a log_entry \<Rightarrow> string + bytes) \<Rightarrow> 'a log_entry list \<Rightarrow> ('d, unit) io" where
  "archive_entries S tree enc entries =
     io_bind (open_tree S tree) (\<lambda>_.
     io_bind (io_each (\<lambda>entry. io_bind (io_lift (enc entry)) (\<lambda>bytes.
       tree_insert S tree (be_bytes (le_seq entry)) bytes)) entries) (\<lambda>_.
     tree_flush S tree))"

definition archive_order_log_entries :: "'d store_ops \<Rightarrow> order_receipt log_entry list \<Rightarrow> ('d, unit) io" where
  "archive_order_log_entries S entries = archive_entries S ORDER_ARCHIVE (receipt_entry_to_vec S) entries"

definition archive_match_log_entries :: "'d store_ops \<Rightarrow> match_rec log_entry list \<Rightarrow> ('d, unit) io" where
  "archive_match_log_entries S entries = archive_entries S MATCH_ARCHIVE (match_entry_to_vec S) entries"

definition archived_order_log_entries_since :: "'d store_ops \<Rightarrow> u64 \<Rightarrow> ('d, order_receipt log_entry list) io" where
  "archived_order_log_entries_since S since =
     io_bind (open_tree S ORDER_ARCHIVE) (\<lambda>_ d.
       (d, decode_all (receipt_entry_from_slice S) (tree_from S ORDER_ARCHIVE (be_bytes since) d)))"

definition archived_match_log_entries_since :: "'d store_ops \<Rightarrow> u64 \<Rightarrow> ('d, match_rec log_entry list) io" where
  "archived_match_log_entries_since S since =
     io_bind (open_tree S MATCH_ARCHIVE) (\<lambda>_ d.
       (d, decode_all (match_entry_from_slice S) (tree_from S MATCH_ARCHIVE (be_bytes since) d)))"

section \<open>What is used of the database\<close>

text \<open>
  A database has a view: its trees as maps sorted by key, and a lower bound for the ids it will
  generate. A read returns the view; a successful write changes it as named; a failed write leaves
  it or has taken effect; ids grow.
\<close>

record 'd store_view =
  tree :: "'d \<Rightarrow> string \<Rightarrow> (bytes, bytes) btree_map"
  next_id :: "'d \<Rightarrow> nat"

definition wrote :: "'d store_view \<Rightarrow> string \<Rightarrow> ((bytes, bytes) btree_map \<Rightarrow> (bytes, bytes) btree_map) \<Rightarrow> 'd \<Rightarrow> 'd \<Rightarrow> bool" where
  "wrote V t f d d' \<longleftrightarrow> tree V d' = (tree V d)(t := f (tree V d t)) \<and> next_id V d' = next_id V d"

definition store_laws :: "'d store_ops \<Rightarrow> 'd store_view \<Rightarrow> bool" where
  "store_laws S V \<longleftrightarrow>
     (\<forall>d. tree V (fst (generate_id S d)) = tree V d \<and> next_id V d \<le> next_id V (fst (generate_id S d)))
   \<and> (\<forall>d i. snd (generate_id S d) = Inr i \<longrightarrow> next_id V d \<le> unat i \<and> unat i < next_id V (fst (generate_id S d)))
   \<and> (\<forall>t d. wrote V t id d (fst (open_tree S t d)) \<and> wrote V t id d (fst (tree_flush S t d)))
   \<and> (\<forall>t k v d. (snd (tree_insert S t k v d) = Inr () \<longrightarrow> wrote V t (bt_insert k v) d (fst (tree_insert S t k v d)))
        \<and> (wrote V t (bt_insert k v) d (fst (tree_insert S t k v d)) \<or> wrote V t id d (fst (tree_insert S t k v d))))
   \<and> (\<forall>t k d. (snd (tree_remove S t k d) = Inr () \<longrightarrow> wrote V t (bt_remove k) d (fst (tree_remove S t k d)))
        \<and> (wrote V t (bt_remove k) d (fst (tree_remove S t k d)) \<or> wrote V t id d (fst (tree_remove S t k d))))
   \<and> (\<forall>t d. bt_ok (tree V d t))
   \<and> (\<forall>t d. tree_iter S t d = map Inr (tree V d t))
   \<and> (\<forall>t k d. tree_from S t k d = map Inr (filter (\<lambda>(k', _). k \<le> k') (tree V d t)))
   \<and> (\<forall>t k d. tree_upto S t k d = map Inr (filter (\<lambda>(k', _). k' \<le> k) (tree V d t)))
   \<and> (\<forall>t k d. tree_get S t k d = Inr (map_of (tree V d t) k))
   \<and> (\<forall>t d. tree_last S t d = Inr (if tree V d t = [] then None else Some (last (tree V d t))))
   \<and> (\<forall>x b. wal_to_vec S x = Inr b \<longrightarrow> wal_from_slice S b = Inr x)
   \<and> (\<forall>x b. snap_to_vec S x = Inr b \<longrightarrow> snap_from_slice S b = Inr x)
   \<and> (\<forall>x b. receipt_entry_to_vec S x = Inr b \<longrightarrow> receipt_entry_from_slice S b = Inr x)
   \<and> (\<forall>x b. match_entry_to_vec S x = Inr b \<longrightarrow> match_entry_from_slice S b = Inr x)"

section \<open>Big-endian keys\<close>

text \<open>The order of 8-byte keys is the order of the numbers they encode.\<close>

definition byte_val :: "bytes \<Rightarrow> int" where
  "byte_val bs = fold (\<lambda>b acc. acc * 256 + uint b) bs 0"

lemma byte_val_fold: "fold (\<lambda>b acc. acc * 256 + uint (b :: u8)) bs acc = acc * 256 ^ length bs + byte_val bs"
proof (induction bs arbitrary: acc)
  case (Cons b bs)
  from Cons [of "acc * 256 + uint b"] Cons [of "uint b"] show ?case
    by (simp add: byte_val_def algebra_simps)
qed (simp add: byte_val_def)

lemma byte_val_Cons: "byte_val (b # bs) = uint b * 256 ^ length bs + byte_val bs"
  using byte_val_fold [of bs "uint b"] by (simp add: byte_val_def)

lemma byte_val_bounds: "0 \<le> byte_val bs \<and> byte_val bs < 256 ^ length bs"
proof (induction bs)
  case (Cons b bs)
  have "uint b \<le> 255" using uint_bounded [of b] by simp
  then have "uint b * 256 ^ length bs \<le> 255 * 256 ^ length bs" by (intro mult_right_mono) simp_all
  then have "byte_val (b # bs) < 255 * 256 ^ length bs + 256 ^ length bs"
    using Cons unfolding byte_val_Cons by linarith
  moreover have "0 \<le> byte_val (b # bs)" using Cons unfolding byte_val_Cons by simp
  ultimately show ?case by simp
qed (simp add: byte_val_def)

lemma byte_val_less: "length xs = length ys \<Longrightarrow> xs < ys \<longleftrightarrow> byte_val xs < byte_val ys"
proof (induction xs arbitrary: ys)
  case (Cons x xs)
  obtain y zs where ys: "ys = y # zs" "length xs = length zs" using Cons.prems by (cases ys) auto
  have step: "uint a * 256 ^ n + p < uint b * 256 ^ n + q" if "uint a < uint b" "p < 256 ^ n" "0 \<le> q" for a b :: u8 and n p q
  proof -
    have "(uint a + 1) * 256 ^ n \<le> uint b * 256 ^ n" using that(1) by (intro mult_right_mono) simp_all
    then show ?thesis using that by (simp add: algebra_simps)
  qed
  consider "x < y" | "x = y" | "y < x" by (meson linorder_less_linear)
  then show ?case
  proof cases
    case 1
    then have "uint x < uint y" by (simp add: word_less_def)
    then show ?thesis
      using 1 step [of x y "byte_val xs" "length xs" "byte_val zs"] byte_val_bounds [of xs] byte_val_bounds [of zs] ys
      by (simp add: byte_val_Cons)
  next
    case 2
    then show ?thesis using Cons.IH [OF ys(2)] ys by (simp add: byte_val_Cons)
  next
    case 3
    then have "uint y < uint x" by (simp add: word_less_def)
    then show ?thesis
      using 3 step [of y x "byte_val zs" "length xs" "byte_val xs"] byte_val_bounds [of xs] byte_val_bounds [of zs] ys
      by (auto simp: byte_val_Cons)
  qed
qed simp

lemma byte_val_be [simp]: "byte_val (be_bytes (w :: u64)) = uint w"
  using fold_be_bytes [of w 8 0] uint_bounded [of w] by (simp add: byte_val_def be_bytes_def)

lemma be_bytes_less [simp]: "be_bytes (v :: u64) < be_bytes w \<longleftrightarrow> v < w"
  by (subst byte_val_less) (simp_all add: word_less_def)

lemma be_bytes_le [simp]: "be_bytes (v :: u64) \<le> be_bytes w \<longleftrightarrow> v \<le> w"
  by (auto simp: le_less)

lemma u64_from_be_bytes_be [simp]: "u64_from_be_bytes (be_bytes w) = w"
proof -
  have "fold (\<lambda>b acc. acc * 256 + ucast b) bs (of_int acc) = (of_int (fold (\<lambda>b acc. acc * 256 + uint b) bs acc) :: u64)"
    for bs :: bytes and acc
  proof (induction bs arbitrary: acc)
    case (Cons b bs)
    have "(of_int acc * 256 + ucast b :: u64) = of_int (acc * 256 + uint b)" by simp
    then show ?case unfolding fold.simps comp_def Cons.IH [symmetric] by simp
  qed simp
  from this [of "be_bytes w" 0] show ?thesis
    using byte_val_be [of w] unfolding byte_val_def u64_from_be_bytes_def by simp
qed

section \<open>The contents of the log\<close>

lemma bt_insert_last: "\<forall>(k', _) \<in> set m. k' < k \<Longrightarrow> bt_insert k v m = m @ [(k, v)]"
proof (induction m)
  case (Cons a m)
  then show ?case by (cases a) (auto simp: bt_insert_def)
qed (simp add: bt_insert_def)

definition wal_ok :: "'d store_ops \<Rightarrow> 'd store_view \<Rightarrow> 'd \<Rightarrow> bool" where
  "wal_ok S V d \<longleftrightarrow> (\<forall>(k, v) \<in> set (tree V d WAL). (\<exists>i. k = be_bytes (i :: u64) \<and> unat i < next_id V d)
     \<and> (\<exists>e. wal_from_slice S v = Inr e))"

definition wal_items :: "'d store_ops \<Rightarrow> (bytes, bytes) btree_map \<Rightarrow> wal_entry list" where
  "wal_items S m = map (\<lambda>(k, v). projr (wal_from_slice S v)) m"

lemma decode_items:
  "\<forall>(k, v) \<in> set m. \<exists>e. wal_from_slice S v = Inr e \<Longrightarrow> decode_all (wal_from_slice S) (map Inr m) = Inr (wal_items S m)"
  by (induction m) (auto simp: wal_items_def)

lemma replay_items:
  assumes "store_laws S V" "wal_ok S V d"
  shows "replay S None d = Inr (wal_items S (tree V d WAL))"
    and "replay S (Some s) d = Inr (wal_items S (filter (\<lambda>(k, _). be_bytes (s + 1) \<le> k) (tree V d WAL)))"
proof -
  have dec: "\<forall>(k, v) \<in> set (tree V d WAL). \<exists>e. wal_from_slice S v = Inr e" using assms(2) by (auto simp: wal_ok_def)
  have "tree_iter S WAL d = map Inr (tree V d WAL)"
    "tree_from S WAL (be_bytes (s + 1)) d = map Inr (filter (\<lambda>(k', _). be_bytes (s + 1) \<le> k') (tree V d WAL))"
    using assms(1) by (simp_all add: store_laws_def)
  then show "replay S None d = Inr (wal_items S (tree V d WAL))"
    "replay S (Some s) d = Inr (wal_items S (filter (\<lambda>(k, _). be_bytes (s + 1) \<le> k) (tree V d WAL)))"
    using dec by (simp_all add: replay_def decode_items)
qed

text \<open>An append adds one entry with the highest key; a failed one adds it or nothing.\<close>

definition appended :: "'d store_ops \<Rightarrow> 'd store_view \<Rightarrow> wal_entry \<Rightarrow> 'd \<Rightarrow> 'd \<Rightarrow> bool" where
  "appended S V e d d' \<longleftrightarrow> (\<exists>i b. next_id V d \<le> unat (i :: u64) \<and> wal_to_vec S e = Inr b
     \<and> tree V d' = (tree V d)(WAL := tree V d WAL @ [(be_bytes i, b)]) \<and> unat i < next_id V d')"

lemma wrote_id: "wrote V t id d d' \<longleftrightarrow> tree V d' = tree V d \<and> next_id V d' = next_id V d"
  by (simp add: wrote_def)

lemma append_entry_cases:
  assumes laws: "store_laws S V" and ok: "wal_ok S V d" and ap: "append_entry S e d = (d', r)"
  shows "next_id V d \<le> next_id V d' \<and> (appended S V e d d' \<or> tree V d' = tree V d \<and> r \<noteq> Inr ())"
proof -
  obtain d1 r1 where g: "generate_id S d = (d1, r1)" by (cases "generate_id S d")
  have d1: "tree V d1 = tree V d" "next_id V d \<le> next_id V d1"
    using laws g unfolding store_laws_def by (metis fst_conv)+
  show ?thesis
  proof (cases r1)
    case (Inl x)
    then show ?thesis using ap g d1 by (auto simp: append_entry_def io_bind_def)
  next
    case (Inr i)
    have i: "next_id V d \<le> unat i" "unat i < next_id V d1"
      using laws g Inr unfolding store_laws_def by (metis fst_conv snd_conv)+
    show ?thesis
    proof (cases "wal_to_vec S e")
      case (Inl x)
      then show ?thesis using ap g d1 Inr by (auto simp: append_entry_def io_bind_def io_lift_def)
    next
      case b: (Inr b)
      obtain d2 r2 where ins: "tree_insert S WAL (be_bytes i) b d1 = (d2, r2)" by (cases "tree_insert S WAL (be_bytes i) b d1")
      have w: "r2 = Inr () \<longrightarrow> wrote V WAL (bt_insert (be_bytes i) b) d1 d2"
        "wrote V WAL (bt_insert (be_bytes i) b) d1 d2 \<or> wrote V WAL id d1 d2"
        using laws ins unfolding store_laws_def by (metis fst_conv snd_conv)+
      have small: "\<forall>(k', _) \<in> set (tree V d WAL). k' < be_bytes i"
        using ok i(1) by (auto simp: wal_ok_def word_less_nat_alt)
      have app: "appended S V e d x" if "wrote V WAL (bt_insert (be_bytes i) b) d1 d2" "tree V x = tree V d2" "next_id V x = next_id V d2" for x
        using that i b d1(1) bt_insert_last [OF small] unfolding appended_def wrote_def by auto
      have nid: "next_id V d2 = next_id V d1" using w(2) by (auto simp: wrote_def)
      show ?thesis
      proof (cases r2)
        case (Inl x)
        then have "d' = d2" "r = Inl x" using ap g Inr b ins by (auto simp: append_entry_def io_bind_def io_lift_def)
        then show ?thesis using w(2) app [of d2] d1 nid by (auto simp: wrote_id)
      next
        case (Inr u)
        then have d': "d' = fst (tree_flush S WAL d2)"
          using ap g b ins \<open>r1 = Inr i\<close> by (simp add: append_entry_def io_bind_def io_lift_def)
        moreover have "wrote V WAL id d2 (fst (tree_flush S WAL d2))" using laws by (simp add: store_laws_def)
        ultimately have "tree V d' = tree V d2" "next_id V d' = next_id V d2" by (simp_all add: wrote_id)
        then show ?thesis using app [of d'] w(1) Inr d1 nid by simp
      qed
    qed
  qed
qed

lemma appended_items:
  assumes "store_laws S V" "wal_ok S V d" "appended S V e d d'" "next_id V d \<le> next_id V d'"
  shows "wal_ok S V d' \<and> wal_items S (tree V d' WAL) = wal_items S (tree V d WAL) @ [e]"
proof -
  obtain i b where a: "wal_to_vec S e = Inr b" "tree V d' WAL = tree V d WAL @ [(be_bytes i, b)]" "unat (i :: u64) < next_id V d'"
    using assms(3) by (auto simp: appended_def)
  have "wal_from_slice S b = Inr e" using assms(1) a(1) by (simp add: store_laws_def)
  then show ?thesis using assms(2,4) a by (fastforce simp: wal_ok_def wal_items_def)
qed

lemma append_all_items:
  assumes laws: "store_laws S V"
  shows "wal_ok S V d \<Longrightarrow> io_each (append_entry S) es d = (d', Inr ()) \<Longrightarrow>
    next_id V d \<le> next_id V d' \<and> wal_ok S V d'
    \<and> (\<exists>m. tree V d' = (tree V d)(WAL := tree V d WAL @ m) \<and> wal_items S m = es
         \<and> (\<forall>(k, _) \<in> set m. \<exists>i. k = be_bytes (i :: u64) \<and> next_id V d \<le> unat i))"
proof (induction es arbitrary: d)
  case Nil
  then show ?case by (intro conjI exI [of _ "[]"]) (auto simp: io_ok_def wal_items_def)
next
  case (Cons e es)
  obtain d1 r where a: "append_entry S e d = (d1, r)" by (cases "append_entry S e d")
  then have r: "r = Inr ()" and rest: "io_each (append_entry S) es d1 = (d', Inr ())"
    using Cons.prems(2) by (auto simp: io_bind_def split: sum.splits)
  from append_entry_cases [OF laws Cons.prems(1) a] r
  have le: "next_id V d \<le> next_id V d1" and ap: "appended S V e d d1" by auto
  obtain i b where i: "next_id V d \<le> unat (i :: u64)" "wal_to_vec S e = Inr b"
    "tree V d1 = (tree V d)(WAL := tree V d WAL @ [(be_bytes i, b)])"
    using ap unfolding appended_def by blast
  have ok1: "wal_ok S V d1" using appended_items [OF laws Cons.prems(1) ap le] by blast
  from Cons.IH [OF ok1 rest] obtain m where m: "tree V d' = (tree V d1)(WAL := tree V d1 WAL @ m)" "wal_items S m = es"
    "\<forall>(k, _) \<in> set m. \<exists>i. k = be_bytes (i :: u64) \<and> next_id V d1 \<le> unat i"
    and fin: "next_id V d1 \<le> next_id V d'" "wal_ok S V d'" by blast
  have "wal_from_slice S b = Inr e" using laws i(2) by (simp add: store_laws_def)
  then have "wal_items S ((be_bytes i, b) # m) = e # es" using m(2) by (simp add: wal_items_def)
  moreover have "tree V d' = (tree V d)(WAL := tree V d WAL @ (be_bytes i, b) # m)" using m(1) i(3) by simp
  moreover have "\<forall>(k, _) \<in> set ((be_bytes i, b) # m). \<exists>i. k = be_bytes (i :: u64) \<and> next_id V d \<le> unat i"
    using m(3) i(1) le by fastforce
  ultimately show ?case using le fin by (intro conjI exI [of _ "(be_bytes i, b) # m"]) auto
qed

text \<open>Truncation removes only entries up to its bound, whatever fails on the way.\<close>

lemma remove_all_keeps:
  assumes laws: "store_laws S V"
  shows "remove_all S (map Inr kvs) n d = (d', r) \<Longrightarrow> \<forall>(k, _) \<in> set kvs. k \<le> b \<Longrightarrow>
    next_id V d' = next_id V d \<and> (\<forall>t. t \<noteq> WAL \<longrightarrow> tree V d' t = tree V d t)
    \<and> set (tree V d' WAL) \<subseteq> set (tree V d WAL)
    \<and> filter (\<lambda>(k, _). b < k) (tree V d' WAL) = filter (\<lambda>(k, _). b < k) (tree V d WAL)"
proof (induction kvs arbitrary: n d)
  case Nil
  then show ?case by (simp add: io_ok_def)
next
  case (Cons kv kvs)
  obtain k v where kv: "kv = (k, v)" by (cases kv)
  obtain d1 r1 where rm: "tree_remove S WAL k d = (d1, r1)" by (cases "tree_remove S WAL k d")
  have w: "wrote V WAL (bt_remove k) d d1 \<or> wrote V WAL id d d1"
    using laws rm unfolding store_laws_def by (metis fst_conv)
  have kb: "k \<le> b" using Cons.prems(2) kv by simp
  have "filter (\<lambda>(k, _). b < k) (bt_remove k m) = filter (\<lambda>(k, _). b < k) m" for m :: "(bytes, bytes) btree_map"
    using kb unfolding bt_remove_def filter_filter by (intro filter_cong) (auto simp: not_less)
  then have d1: "next_id V d1 = next_id V d" "\<forall>t. t \<noteq> WAL \<longrightarrow> tree V d1 t = tree V d t"
    "set (tree V d1 WAL) \<subseteq> set (tree V d WAL)"
    "filter (\<lambda>(k, _). b < k) (tree V d1 WAL) = filter (\<lambda>(k, _). b < k) (tree V d WAL)"
    using w by (auto simp: wrote_def bt_remove_def)
  show ?case
  proof (cases r1)
    case (Inl e)
    then have "d' = d1" using Cons.prems(1) kv rm by (simp add: io_bind_def)
    then show ?thesis using d1 by simp
  next
    case (Inr u)
    then have "remove_all S (map Inr kvs) (n + 1) d1 = (d', r)" using Cons.prems(1) kv rm by (simp add: io_bind_def)
    from Cons.IH [OF this] Cons.prems(2) d1 show ?thesis by auto
  qed
qed

lemma truncate_keeps:
  assumes laws: "store_laws S V" and tr: "truncate_up_to S s d = (d', r)"
  shows "next_id V d' = next_id V d \<and> (\<forall>t. t \<noteq> WAL \<longrightarrow> tree V d' t = tree V d t)
    \<and> set (tree V d' WAL) \<subseteq> set (tree V d WAL)
    \<and> filter (\<lambda>(k, _). be_bytes s < k) (tree V d' WAL) = filter (\<lambda>(k, _). be_bytes s < k) (tree V d WAL)"
proof -
  have up: "tree_upto S WAL (be_bytes s) d = map Inr (filter (\<lambda>(k, _). k \<le> be_bytes s) (tree V d WAL))"
    using laws by (simp add: store_laws_def)
  obtain d1 r1 where rm: "remove_all S (map Inr (filter (\<lambda>(k, _). k \<le> be_bytes s) (tree V d WAL))) 0 d = (d1, r1)"
    by (cases "remove_all S (map Inr (filter (\<lambda>(k, _). k \<le> be_bytes s) (tree V d WAL))) 0 d")
  note keep = remove_all_keeps [OF laws rm, of "be_bytes s"]
  have "wrote V WAL id d1 (fst (tree_flush S WAL d1))" using laws by (simp add: store_laws_def)
  then have "tree V d' = tree V d1" "next_id V d' = next_id V d1"
    using tr rm up unfolding truncate_up_to_def by (auto simp: io_bind_def io_ok_def wrote_id split: sum.splits prod.splits)
  then show ?thesis using keep by auto
qed

lemma sorted_last: "sorted_wrt (<) (xs :: bytes list) \<Longrightarrow> x \<in> set xs \<Longrightarrow> x \<le> last xs"
proof (induction xs)
  case (Cons y xs)
  then show ?case by (cases "xs = []") (auto intro: less_imp_le)
qed simp

lemma latest_seq_last:
  assumes laws: "store_laws S V" and ok: "wal_ok S V d" and seq: "latest_seq S d = Inr (Some s)"
  shows "unat s < next_id V d" "\<forall>(k, _) \<in> set (tree V d WAL). k \<le> be_bytes s"
proof -
  have "tree_last S WAL d = Inr (if tree V d WAL = [] then None else Some (last (tree V d WAL)))"
    using laws by (simp add: store_laws_def)
  then have ne: "tree V d WAL \<noteq> []" and s: "s = u64_from_be_bytes (fst (last (tree V d WAL)))"
    using seq by (auto simp: latest_seq_def case_prod_beta split: if_splits)
  obtain i where i: "fst (last (tree V d WAL)) = be_bytes (i :: u64)" "unat i < next_id V d"
    using ok last_in_set [OF ne] by (fastforce simp: wal_ok_def)
  then have si: "s = i" using s by simp
  then show "unat s < next_id V d" using i by simp
  have "bt_ok (tree V d WAL)" using laws by (simp add: store_laws_def)
  then have "sorted_wrt (<) (map fst (tree V d WAL))" .
  then have "\<forall>k \<in> set (map fst (tree V d WAL)). k \<le> last (map fst (tree V d WAL))"
    using sorted_last by blast
  then show "\<forall>(k, _) \<in> set (tree V d WAL). k \<le> be_bytes s"
    using i si ne by (auto simp: last_map)
qed

lemma save_snapshot_ok:
  assumes laws: "store_laws S V" and sv: "save_snapshot S snap s d = (d', Inr ())"
  shows "tree V d' WAL = tree V d WAL \<and> next_id V d' = next_id V d
    \<and> (\<exists>b. snap_to_vec S (snap, s) = Inr b \<and> map_of (tree V d' SNAPSHOT) (as_bytes ''latest'') = Some b)"
proof -
  obtain d1 r1 where o: "open_tree S SNAPSHOT d = (d1, r1)" by (cases "open_tree S SNAPSHOT d")
  obtain b where b: "snap_to_vec S (snap, s) = Inr b"
    using sv o by (auto simp: save_snapshot_def io_bind_def io_lift_def split: sum.splits)
  obtain d2 r2 where ins: "tree_insert S SNAPSHOT (as_bytes ''latest'') b d1 = (d2, r2)"
    by (cases "tree_insert S SNAPSHOT (as_bytes ''latest'') b d1")
  have ok: "r2 = Inr ()" "d' = fst (tree_flush S SNAPSHOT d2)"
    using sv o b ins by (auto simp: save_snapshot_def io_bind_def io_lift_def split: sum.splits prod.splits)
  have w: "wrote V SNAPSHOT id d d1" "wrote V SNAPSHOT (bt_insert (as_bytes ''latest'') b) d1 d2"
    "wrote V SNAPSHOT id d2 (fst (tree_flush S SNAPSHOT d2))"
    using laws o ins ok(1) unfolding store_laws_def by (metis fst_conv snd_conv)+
  have ne: "WAL \<noteq> SNAPSHOT" by (simp add: WAL_def SNAPSHOT_def)
  have "bt_ok (tree V d1 SNAPSHOT)" using laws by (simp add: store_laws_def)
  then have "map_of (tree V d' SNAPSHOT) (as_bytes ''latest'') = Some b"
    using w(2,3) ok(2) by (simp add: wrote_def bt_insert_def map_of_bt_alter)
  then show ?thesis using w ok(2) b ne by (auto simp: wrote_def)
qed

section \<open>Properties\<close>

text \<open>C28. Durability of the log: a successful append is replayed as the last entry after everything
  replayed before; a failed append is replayed as the last entry or not at all, and never disturbs
  the earlier entries.\<close>

theorem appended_entry_is_replayed:
  assumes "store_laws S V" and "wal_ok S V d" and "append_entry S e d = (d', r)"
  shows "\<exists>es. replay S None d = Inr es
    \<and> (replay S None d' = Inr (es @ [e]) \<or> (r \<noteq> Inr () \<and> replay S None d' = Inr es))"
proof -
  note c = append_entry_cases [OF assms]
  have "wal_ok S V d'"
    using c appended_items [OF assms(1,2), of e d'] assms(2) by (fastforce simp: wal_ok_def)
  then have rep: "replay S None d' = Inr (wal_items S (tree V d' WAL))" "replay S None d = Inr (wal_items S (tree V d WAL))"
    using replay_items(1) [OF assms(1)] assms(2) by auto
  show ?thesis
  proof (cases "appended S V e d d'")
    case True
    then show ?thesis using rep appended_items [OF assms(1,2) True] c by simp
  next
    case False
    then show ?thesis using rep c by auto
  qed
qed

text \<open>A log-structured store for which the laws hold: the list of writes, replayed on every read.\<close>

type_synonym demo_db = "nat \<times> (string \<times> bytes \<times> bytes option) list"

definition demo_tree :: "demo_db \<Rightarrow> string \<Rightarrow> (bytes, bytes) btree_map" where
  "demo_tree d t = fold (\<lambda>(t', k, v) m. if t' = t then (case v of Some v \<Rightarrow> bt_insert k v m | None \<Rightarrow> bt_remove k m) else m) (snd d) []"

definition demo_snapshot :: snapshot where
  "demo_snapshot = \<lparr>sn_order_book_bids = [], sn_order_book_asks = [], sn_active_nodes_cursor = 0,
     sn_order_log = new_log, sn_match_log = new_log, sn_pending_commits = [], sn_confirmed_trade_hashes = [],
     sn_applied_order_ids = {}, sn_queued_trades = []\<rparr>"

text \<open>It encodes the empty checkpoint and the empty snapshot, and refuses everything else.\<close>

definition demo_store :: "demo_db store_ops" where
  "demo_store =
     \<lparr>generate_id = (\<lambda>d. if fst d < 2 ^ 64 then ((Suc (fst d), snd d), Inr (of_nat (fst d))) else (d, Inl [])),
      open_tree = (\<lambda>t d. (d, Inr ())),
      tree_insert = (\<lambda>t k v d. ((fst d, snd d @ [(t, k, Some v)]), Inr ())),
      tree_remove = (\<lambda>t k d. ((fst d, snd d @ [(t, k, None)]), Inr ())),
      tree_flush = (\<lambda>t d. (d, Inr ())),
      tree_get = (\<lambda>t k d. Inr (map_of (demo_tree d t) k)),
      tree_last = (\<lambda>t d. Inr (if demo_tree d t = [] then None else Some (last (demo_tree d t)))),
      tree_from = (\<lambda>t k d. map Inr (filter (\<lambda>(k', _). k \<le> k') (demo_tree d t))),
      tree_upto = (\<lambda>t k d. map Inr (filter (\<lambda>(k', _). k' \<le> k) (demo_tree d t))),
      tree_iter = (\<lambda>t d. map Inr (demo_tree d t)),
      wal_to_vec = (\<lambda>e. if e = BatchSubmitted [] then Inr [] else Inl []),
      wal_from_slice = (\<lambda>b. Inr (BatchSubmitted [])),
      snap_to_vec = (\<lambda>s. if s = (demo_snapshot, 0) then Inr [] else Inl []),
      snap_from_slice = (\<lambda>b. Inr (demo_snapshot, 0)),
      receipt_entry_to_vec = (\<lambda>e. Inl []), receipt_entry_from_slice = (\<lambda>b. Inl []),
      match_entry_to_vec = (\<lambda>e. Inl []), match_entry_from_slice = (\<lambda>b. Inl [])\<rparr>"

definition demo_view :: "demo_db store_view" where
  "demo_view = \<lparr>tree = demo_tree, next_id = fst\<rparr>"

lemma demo_tree_ok: "bt_ok (demo_tree d t)"
proof -
  have "bt_ok m \<Longrightarrow> bt_ok (fold (\<lambda>(t', k, v) m. if t' = t then (case v of Some v \<Rightarrow> bt_insert k v m | None \<Rightarrow> bt_remove k m) else m) ops m)"
    for ops and m :: "(bytes, bytes) btree_map"
    by (induction ops arbitrary: m) (auto simp: bt_insert_def bt_ok_alter bt_ok_remove split: option.splits)
  then show ?thesis by (simp add: demo_tree_def)
qed

lemma demo_store_laws: "store_laws demo_store demo_view"
  unfolding store_laws_def
  by (intro conjI allI)
    (auto simp: demo_store_def demo_view_def wrote_def demo_tree_def fun_eq_iff unat_of_nat demo_tree_ok [unfolded demo_tree_def]
      split: if_splits)

lemma demo_wal_ok: "wal_ok demo_store demo_view (0, [])"
  by (simp add: wal_ok_def demo_view_def demo_tree_def)

lemma demo_append: "append_entry demo_store (BatchSubmitted []) (n, ops) =
    (if n < 2 ^ 64 then ((Suc n, ops @ [(WAL, be_bytes (of_nat n :: u64), Some [])]), Inr ()) else ((n, ops), Inl []))"
  by (simp add: append_entry_def io_bind_def io_lift_def demo_store_def)

theorem appended_entry_is_replayed_witness:
  "replay demo_store None (fst (append_entry demo_store (BatchSubmitted []) (0, []))) = Inr [BatchSubmitted []]"
proof -
  have "append_entry demo_store (BatchSubmitted []) (0, []) = (fst (append_entry demo_store (BatchSubmitted []) (0, [])), Inr ())"
    by (simp add: demo_append)
  from appended_entry_is_replayed [OF demo_store_laws demo_wal_ok this]
  show ?thesis by (auto simp: replay_def demo_store_def demo_tree_def)
qed

text \<open>Booting from a snapshot: after a snapshot covering the latest sequence number is saved, the log
  truncated up to it with whatever outcome, and further entries appended, loading gives that
  snapshot and replaying after its sequence number gives exactly the entries appended since.\<close>

theorem boot_from_snapshot:
  assumes "store_laws S V" and "wal_ok S V d" and "latest_seq S d = Inr (Some s)" and "s \<noteq> - 1"
    and "save_snapshot S snap s d = (d1, Inr ())" and "truncate_up_to S s d1 = (d2, r)"
    and "io_each (append_entry S) es d2 = (d3, Inr ())" and "snd (open_tree S SNAPSHOT d3) = Inr ()"
  shows "snd (load_snapshot S d3) = Inr (Some (snap, s)) \<and> replay S (Some s) d3 = Inr es"
proof -
  note sv = save_snapshot_ok [OF assms(1,5)] and tr = truncate_keeps [OF assms(1,6)]
  have ok1: "wal_ok S V d1" using assms(2) sv by (simp add: wal_ok_def)
  then have ok2: "wal_ok S V d2" using tr by (auto simp: wal_ok_def)
  from append_all_items [OF assms(1) ok2 assms(7)] obtain m where
    m: "tree V d3 = (tree V d2)(WAL := tree V d2 WAL @ m)" "wal_items S m = es"
    "\<forall>(k, _) \<in> set m. \<exists>i. k = be_bytes (i :: u64) \<and> next_id V d2 \<le> unat i" and ok3: "wal_ok S V d3" by blast
  have old: "\<forall>(k, _) \<in> set (tree V d2 WAL). k \<le> be_bytes s" "unat s < next_id V d"
    using latest_seq_last [OF assms(1-3)] sv tr by auto
  have s1: "unat (s + 1) = unat s + 1"
    using assms(4) by (metis add.commute add_eq_0_iff2 unatSuc Suc_eq_plus1)
  have "filter (\<lambda>(k, _). be_bytes (s + 1) \<le> k) (tree V d2 WAL) = []"
    unfolding filter_empty_conv
  proof (intro ballI notI)
    fix kv assume kv: "kv \<in> set (tree V d2 WAL)" and le: "case kv of (k, _) \<Rightarrow> be_bytes (s + 1) \<le> k"
    obtain k v where "kv = (k, v)" by (cases kv)
    with kv le ok2 old(1) obtain i where "be_bytes (s + 1) \<le> be_bytes (i :: u64)" "be_bytes i \<le> be_bytes s"
      unfolding wal_ok_def by fastforce
    then show False using s1 by (simp add: word_le_nat_alt)
  qed
  moreover have "filter (\<lambda>(k, _). be_bytes (s + 1) \<le> k) m = m"
    using m(3) old(2) sv tr s1 by (auto simp: filter_id_conv word_le_nat_alt)
  ultimately have rep: "replay S (Some s) d3 = Inr es"
    using replay_items(2) [OF assms(1) ok3, of s] m(1,2) by simp
  obtain b where b: "snap_to_vec S (snap, s) = Inr b" "map_of (tree V d1 SNAPSHOT) (as_bytes ''latest'') = Some b"
    using sv by blast
  have ne: "SNAPSHOT \<noteq> WAL" by (simp add: WAL_def SNAPSHOT_def)
  have at3: "map_of (tree V d3 SNAPSHOT) (as_bytes ''latest'') = Some b" using b(2) m(1) tr ne by simp
  obtain d4 where o: "open_tree S SNAPSHOT d3 = (d4, Inr ())" using assms(8) by (metis prod.collapse)
  have "tree V d4 = tree V d3" "tree_get S SNAPSHOT (as_bytes ''latest'') d4 = Inr (map_of (tree V d4 SNAPSHOT) (as_bytes ''latest''))"
    using assms(1) o unfolding store_laws_def wrote_id by (metis fst_conv)+
  moreover have "snap_from_slice S b = Inr (snap, s)" using assms(1) b(1) by (simp add: store_laws_def)
  ultimately show ?thesis using rep at3 o by (simp add: load_snapshot_def io_bind_def)
qed

theorem boot_from_snapshot_witness:
  "\<exists>d3. snd (load_snapshot demo_store d3) = Inr (Some (demo_snapshot, 0)) \<and> replay demo_store (Some 0) d3 = Inr [BatchSubmitted []]"
proof -
  define d where "d = (Suc 0, [(WAL, be_bytes (0 :: u64), Some [])] :: (string \<times> bytes \<times> bytes option) list)"
  define d1 where "d1 = (Suc 0, snd d @ [(SNAPSHOT, as_bytes ''latest'', Some [])])"
  define d2 where "d2 = fst (truncate_up_to demo_store 0 d1)"
  have ok: "wal_ok demo_store demo_view d"
    by (auto simp: wal_ok_def demo_view_def demo_tree_def d_def bt_insert_def demo_store_def)
  have seq: "latest_seq demo_store d = Inr (Some 0)"
    by (simp add: latest_seq_def demo_store_def demo_tree_def d_def bt_insert_def)
  have sv: "save_snapshot demo_store demo_snapshot 0 d = (d1, Inr ())"
    by (simp add: save_snapshot_def io_bind_def io_lift_def demo_store_def d1_def d_def)
  have tr: "truncate_up_to demo_store 0 d1 = (d2, snd (truncate_up_to demo_store 0 d1))" by (simp add: d2_def)
  have "next_id demo_view d2 = 1"
    using truncate_keeps [OF demo_store_laws tr] by (simp add: demo_view_def d1_def)
  then obtain ops where "d2 = (1, ops)" by (cases d2) (simp add: demo_view_def)
  then have ap: "\<exists>d3. io_each (append_entry demo_store) [BatchSubmitted []] d2 = (d3, Inr ())"
    by (simp add: io_bind_def demo_append io_ok_def)
  then obtain d3 where d3: "io_each (append_entry demo_store) [BatchSubmitted []] d2 = (d3, Inr ())" by blast
  have "snd (open_tree demo_store SNAPSHOT d3) = Inr ()" by (simp add: demo_store_def)
  from boot_from_snapshot [OF demo_store_laws ok seq _ sv tr d3 this] show ?thesis by (intro exI [of _ d3]) simp
qed

text \<open>
  A failed append can still take effect: the insert precedes the flush, so when only the flush fails
  the caller is told that nothing was recorded while a later boot replays the entry.
\<close>

lemma failed_append_can_be_replayed:
  "\<exists>S :: demo_db store_ops. store_laws S demo_view \<and> (\<exists>d d' e. append_entry S (BatchSubmitted []) d = (d', Inl e)
     \<and> replay S None d = Inr [] \<and> replay S None d' = Inr [BatchSubmitted []])"
proof (intro exI conjI)
  let ?S = "demo_store\<lparr>tree_flush := \<lambda>t d. (d, Inl ''I/O error'')\<rparr>"
  show "store_laws ?S demo_view"
    using demo_store_laws unfolding store_laws_def by (simp add: wrote_def)
  show "append_entry ?S (BatchSubmitted []) (0, []) = ((1, [(WAL, be_bytes (0 :: u64), Some [])]), Inl ''I/O error'')"
    by (simp add: append_entry_def io_bind_def io_lift_def demo_store_def)
  show "replay ?S None (0, []) = Inr []" "replay ?S None (1, [(WAL, be_bytes (0 :: u64), Some [])]) = Inr [BatchSubmitted []]"
    by (simp_all add: replay_def demo_store_def demo_tree_def bt_insert_def)
qed

end
