(* ===== verification/Validation.thy ===== *)
theory Validation
  imports Prover
begin

text \<open>
  The \<^verbatim>\<open>validation\<close> crate: the checks a submitted order passes before it is received, with the
  per-trader nonces and the cache of seen signatures. The LRU cache is third-party code: its
  operations are the fields of \<open>lru_ops\<close>, what is used of them is \<open>lru_laws\<close>.
\<close>

section \<open>LRU caches\<close>

text \<open>
  \<open>lru_get\<close> promotes the entry it finds; \<open>lru_update\<close> is a write through \<^verbatim>\<open>get_mut\<close>, which
  promotes too.
\<close>

record ('c, 'k, 'v) lru_ops =
  lru_new :: "nat \<Rightarrow> 'c"
  lru_contains :: "'k \<Rightarrow> 'c \<Rightarrow> bool"
  lru_get :: "'k \<Rightarrow> 'c \<Rightarrow> 'v option \<times> 'c"
  lru_put :: "'k \<Rightarrow> 'v \<Rightarrow> 'c \<Rightarrow> 'c"
  lru_update :: "'k \<Rightarrow> ('v \<Rightarrow> 'v) \<Rightarrow> 'c \<Rightarrow> 'c"

definition lru_peek :: "('c, 'k, 'v) lru_ops \<Rightarrow> 'k \<Rightarrow> 'c \<Rightarrow> 'v option" where
  "lru_peek L k c = fst (lru_get L k c)"

text \<open>
  A new cache is empty, a stored value is found again, promoting changes no content, and storing one
  key can only drop another, never change it.
\<close>

definition lru_laws :: "('c, 'k, 'v) lru_ops \<Rightarrow> bool" where
  "lru_laws L \<longleftrightarrow>
     (\<forall>n k. lru_peek L k (lru_new L n) = None)
   \<and> (\<forall>k c. lru_contains L k c \<longleftrightarrow> lru_peek L k c \<noteq> None)
   \<and> (\<forall>k k' c. lru_peek L k (snd (lru_get L k' c)) = lru_peek L k c)
   \<and> (\<forall>k v c. lru_peek L k (lru_put L k v c) = Some v)
   \<and> (\<forall>k k' v c. k \<noteq> k' \<longrightarrow> lru_peek L k (lru_put L k' v c) \<in> {lru_peek L k c, None})
   \<and> (\<forall>k k' f c. lru_peek L k (lru_update L k' f c) =
        (if k = k' then map_option f (lru_peek L k c) else lru_peek L k c))"

section \<open>The validator\<close>

record validation_key =
  vk_message :: bytes
  vk_signature :: bytes

record 'c order_validator =
  v_cache :: 'c
  v_nonces :: "(bytes32, u64) hash_map"

definition new_validator :: "('c, validation_key, bool) lru_ops \<Rightarrow> nat \<Rightarrow> 'c order_validator" where
  "new_validator L cache_size =
     (let cap = (if cache_size = 0 then 1000 else cache_size)
      in \<lparr>v_cache = lru_new L cap, v_nonces = []\<rparr>)"

definition serialize_order_message :: "order \<Rightarrow> bytes" where
  "serialize_order_message order =
     o_id order @ o_trader order @ as_bytes (o_symbol order) @ be_bytes (o_price order)
     @ be_bytes (o_amount order) @ be_bytes (o_nonce order) @ be_bytes (o_expiry order)"

definition validate_order ::
    "ed25519 \<Rightarrow> ('c, validation_key, bool) lru_ops \<Rightarrow> u64 \<Rightarrow> order \<Rightarrow> 'c order_validator \<Rightarrow> 'c order_validator \<times> bool" where
  "validate_order ed L now order self =
     (if o_amount order = 0 then (self, False)
      else if (ucast (- 1 :: u64) :: u128) < ucast (o_amount order) * ucast (o_price order) then (self, False)
      else if 0 < o_expiry order \<and> o_expiry order < now then (self, False)
      else if (case map_of (v_nonces self) (o_trader order) of
                 Some last_nonce \<Rightarrow> o_nonce order \<le> last_nonce | None \<Rightarrow> False) then (self, False)
      else if o_signature order = [] \<or> o_trader order = zero32 then (self, False)
      else let msg = serialize_order_message order;
               key = \<lparr>vk_message = msg, vk_signature = o_signature order\<rparr>
           in if lru_contains L key (v_cache self) then (self, False)
              else if \<not> vk_from_bytes_ok ed (o_trader order) then (self, False)
              else if \<not> sig_from_slice_ok ed (o_signature order) then (self, False)
              else let is_valid = vk_verify ed (o_trader order) msg (o_signature order)
                   in if is_valid
                      then (self\<lparr>v_cache := lru_put L key False (v_cache self),
                                 v_nonces := AList.update (o_trader order) (o_nonce order) (v_nonces self)\<rparr>, True)
                      else (self, False))"

section \<open>Acceptance\<close>

text \<open>What acceptance means, with the checks in the naturals.\<close>

definition acceptable :: "ed25519 \<Rightarrow> u64 \<Rightarrow> order \<Rightarrow> bool" where
  "acceptable ed now order \<longleftrightarrow>
     0 < unat (o_amount order) \<and> unat (o_amount order) * unat (o_price order) < 2 ^ 64
   \<and> (o_expiry order = 0 \<or> now \<le> o_expiry order) \<and> o_signature order \<noteq> [] \<and> o_trader order \<noteq> zero32
   \<and> vk_from_bytes_ok ed (o_trader order) \<and> sig_from_slice_ok ed (o_signature order)
   \<and> vk_verify ed (o_trader order) (serialize_order_message order) (o_signature order)"

definition key_of :: "order \<Rightarrow> validation_key" where
  "key_of order = \<lparr>vk_message = serialize_order_message order, vk_signature = o_signature order\<rparr>"

definition fresh_nonce :: "order \<Rightarrow> 'c order_validator \<Rightarrow> bool" where
  "fresh_nonce order self \<longleftrightarrow> (\<forall>n. map_of (v_nonces self) (o_trader order) = Some n \<longrightarrow> n < o_nonce order)"

lemma validate_order_spec:
  "validate_order ed L now order self =
     (if acceptable ed now order \<and> fresh_nonce order self \<and> \<not> lru_contains L (key_of order) (v_cache self)
      then (self\<lparr>v_cache := lru_put L (key_of order) False (v_cache self),
                 v_nonces := AList.update (o_trader order) (o_nonce order) (v_nonces self)\<rparr>, True)
      else (self, False))"
  unfolding validate_order_def notional_guard acceptable_def fresh_nonce_def key_of_def Let_def
  by (auto simp: not_less not_le word_neq_0_conv unat_gt_0 split: option.splits)

lemma validate_order_nonce:
  "map_of (v_nonces (fst (validate_order ed L now order self))) t =
     (if snd (validate_order ed L now order self) \<and> t = o_trader order then Some (o_nonce order)
      else map_of (v_nonces self) t)"
  by (simp add: validate_order_spec update_conv')

text \<open>A run of submissions with the clock readings they were validated at.\<close>

fun validate_all ::
    "ed25519 \<Rightarrow> ('c, validation_key, bool) lru_ops \<Rightarrow> (u64 \<times> order) list \<Rightarrow> 'c order_validator \<Rightarrow> 'c order_validator \<times> order list" where
  "validate_all ed L [] self = (self, [])"
| "validate_all ed L ((now, order) # rest) self =
     (let (self, ok) = validate_order ed L now order self;
          (self, accepted) = validate_all ed L rest self
      in (self, if ok then order # accepted else accepted))"

definition nonces_of :: "bytes32 \<Rightarrow> order list \<Rightarrow> u64 list" where
  "nonces_of t orders = map o_nonce (filter (\<lambda>ord. o_trader ord = t) orders)"

lemma validate_all_nonces:
  "sorted_wrt (<) (nonces_of t (snd (validate_all ed L subs self)))
   \<and> (\<forall>n. map_of (v_nonces self) t = Some n \<longrightarrow> (\<forall>m \<in> set (nonces_of t (snd (validate_all ed L subs self))). n < m))"
proof (induction subs arbitrary: self)
  case (Cons sub subs)
  obtain now order where sub: "sub = (now, order)" by (cases sub)
  let ?v = "fst (validate_order ed L now order self)"
  show ?case
  proof (cases "snd (validate_order ed L now order self)")
    case True
    then have fresh: "fresh_nonce order self" by (simp add: validate_order_spec split: if_splits)
    have "map_of (v_nonces ?v) (o_trader order) = Some (o_nonce order)"
      using True by (simp add: validate_order_nonce)
    moreover have "map_of (v_nonces ?v) t = map_of (v_nonces self) t" if "t \<noteq> o_trader order"
      using that by (simp add: validate_order_nonce)
    ultimately show ?thesis
      using Cons [of ?v] True fresh sub
      by (cases "t = o_trader order")
        (auto simp: nonces_of_def case_prod_beta Let_def fresh_nonce_def intro: order.strict_trans)
  next
    case False
    then have "?v = self" by (auto simp: validate_order_spec split: if_splits)
    then show ?thesis using Cons [of self] False sub by (simp add: case_prod_beta Let_def)
  qed
qed (simp add: nonces_of_def)

section \<open>Properties\<close>


text \<open>C11. No replay: over any run of submissions, with any cache however small, the accepted orders of a
  trader have strictly increasing nonces, so no accepted order is accepted again.\<close>

theorem accepted_nonces_increase:
  "sorted_wrt (<) (map o_nonce (filter (\<lambda>ord. o_trader ord = t) (snd (validate_all ed L subs (new_validator L n)))))"
  using validate_all_nonces [of t ed L subs "new_validator L n"] by (simp add: nonces_of_def)

text \<open>The signed bytes leave out the side and the settlement choice, so one signature covers orders
  that differ in them.\<close>

lemma signature_ignores_side:
  "serialize_order_message (order\<lparr>o_side := d, o_settlement_preference := p, o_settlement_requester := r\<rparr>)
     = serialize_order_message order"
  by (simp add: serialize_order_message_def)

end
