(* ===== verification/Sequencing.thy ===== *)
theory Sequencing
  imports Validation F64
begin

text \<open>
  Order sequencing of the \<^verbatim>\<open>protocol\<close> crate: the latency baseline of every peer (\<^verbatim>\<open>latency.rs\<close>), the
  origin-time estimates and their comparison (\<^verbatim>\<open>ordering.rs\<close>), the sequencer that resolves a
  window of orders (\<^verbatim>\<open>sequencer.rs\<close>), and the quorum on a resolved batch (\<^verbatim>\<open>batch_quorum.rs\<close>).

  SHA-256, the LRU cache and the square root are arguments. \<open>None\<close> on the outside of a result is the
  panic of an \<^verbatim>\<open>unwrap\<close>.
\<close>

section \<open>Latency baselines\<close>

definition WINDOW_SIZE :: nat where
  "WINDOW_SIZE = 50"

definition ANOMALY_STDDEV_MULTIPLIER :: f64 where
  "ANOMALY_STDDEV_MULTIPLIER = lit 4"

definition MIN_TOLERANCE_MS :: f64 where
  "MIN_TOLERANCE_MS = lit 25"

record peer_latency_stats =
  samples :: "(node_id, f64 list) hash_map"

definition new_latency_stats :: peer_latency_stats where
  "new_latency_stats = \<lparr>samples = []\<rparr>"

definition record_rtt :: "node_id \<Rightarrow> f64 \<Rightarrow> peer_latency_stats \<Rightarrow> peer_latency_stats" where
  "record_rtt peer rtt_ms self =
     (let window = (case map_of (samples self) peer of Some w \<Rightarrow> w | None \<Rightarrow> []);
          window = window @ [rtt_ms];
          window = (if WINDOW_SIZE < length window then tl window else window)
      in self\<lparr>samples := AList.update peer window (samples self)\<rparr>)"

definition sample_count :: "node_id \<Rightarrow> peer_latency_stats \<Rightarrow> nat" where
  "sample_count peer self = (case map_of (samples self) peer of Some w \<Rightarrow> length w | None \<Rightarrow> 0)"

type_synonym sqrt_fn = "f64 \<Rightarrow> f64"

definition f64_sum :: "f64 list \<Rightarrow> f64" where
  "f64_sum xs = fold (\<lambda>x acc. fadd acc x) xs (lit 0)"

definition mean_stddev :: "sqrt_fn \<Rightarrow> node_id \<Rightarrow> peer_latency_stats \<Rightarrow> (f64 \<times> f64) option" where
  "mean_stddev sqrtf peer self =
     Option.bind (map_of (samples self) peer) (\<lambda>window.
       if window = [] then None
       else let n = f64_of_word (of_nat (length window) :: u64);
                mean = fdiv (f64_sum window) n;
                variance = fdiv (f64_sum (map (\<lambda>v. fmul (fsub v mean) (fsub v mean)) window)) n
            in Some (mean, sqrtf variance))"

definition expected_one_way_bound_ms :: "sqrt_fn \<Rightarrow> node_id \<Rightarrow> peer_latency_stats \<Rightarrow> f64 option" where
  "expected_one_way_bound_ms sqrtf peer self =
     map_option (\<lambda>(mean, stddev).
       let one_way_mean = fdiv mean (lit 2);
           tolerance = fmax (fmul stddev ANOMALY_STDDEV_MULTIPLIER) MIN_TOLERANCE_MS
       in fadd one_way_mean tolerance) (mean_stddev sqrtf peer self)"

definition mean_one_way_ms :: "sqrt_fn \<Rightarrow> node_id \<Rightarrow> peer_latency_stats \<Rightarrow> f64 option" where
  "mean_one_way_ms sqrtf peer self = map_option (\<lambda>(mean, _). fdiv mean (lit 2)) (mean_stddev sqrtf peer self)"

definition is_anomalous :: "sqrt_fn \<Rightarrow> node_id \<Rightarrow> f64 \<Rightarrow> peer_latency_stats \<Rightarrow> bool" where
  "is_anomalous sqrtf peer observed_one_way_ms self =
     (case expected_one_way_bound_ms sqrtf peer self of
        Some bound \<Rightarrow> flt bound observed_one_way_ms | None \<Rightarrow> False)"

definition is_implausibly_fast :: "sqrt_fn \<Rightarrow> node_id \<Rightarrow> f64 \<Rightarrow> peer_latency_stats \<Rightarrow> bool" where
  "is_implausibly_fast sqrtf peer observed_one_way_ms self =
     (case mean_stddev sqrtf peer self of
        None \<Rightarrow> False
      | Some (mean, stddev) \<Rightarrow>
          let one_way_mean = fdiv mean (lit 2);
              tolerance = fmax (fmul stddev ANOMALY_STDDEV_MULTIPLIER) MIN_TOLERANCE_MS
          in flt observed_one_way_ms (fsub one_way_mean tolerance))"

section \<open>Origin-time estimates\<close>

definition AMBIGUITY_WINDOW_MS :: f64 where
  "AMBIGUITY_WINDOW_MS = lit 25"

datatype ordering_decision = ByTimestamp ordering | TieBroken ordering

type_synonym sha256_fn = "bytes \<Rightarrow> bytes32"

definition tie_break_key :: "sha256_fn \<Rightarrow> bytes32 \<Rightarrow> node_id \<Rightarrow> bytes32" where
  "tie_break_key sha order_id witnessing_hop = sha (order_id @ be_bytes witnessing_hop)"

definition compare_by_evidence ::
    "sha256_fn \<Rightarrow> bytes32 \<Rightarrow> node_id \<times> f64 \<Rightarrow> bytes32 \<Rightarrow> node_id \<times> f64 \<Rightarrow> ordering_decision option" where
  "compare_by_evidence sha order_a evidence_a order_b evidence_b =
     (let (hop_a, t_a) = evidence_a; (hop_b, t_b) = evidence_b
      in if fle AMBIGUITY_WINDOW_MS (fabs (fsub t_a t_b)) then map_option ByTimestamp (partial_cmp t_a t_b)
         else let key_a = tie_break_key sha order_a hop_a; key_b = tie_break_key sha order_b hop_b
              in Some (TieBroken (cmp key_a key_b)))"

type_synonym estimate = "node_id \<times> f64 \<times> bool"

record 'c origin_time_estimator =
  estimates :: 'c

definition new_estimator :: "('c, bytes32, estimate list) lru_ops \<Rightarrow> 'c origin_time_estimator" where
  "new_estimator L = \<lparr>estimates = lru_new L 10000\<rparr>"

definition record_estimate ::
    "('c, bytes32, estimate list) lru_ops \<Rightarrow> bytes32 \<Rightarrow> node_id \<Rightarrow> f64 \<Rightarrow> 'c origin_time_estimator \<Rightarrow> 'c origin_time_estimator" where
  "record_estimate L order_id witnessing_hop estimate_ms self =
     (if lru_contains L order_id (estimates self)
      then self\<lparr>estimates := lru_update L order_id (\<lambda>v. v @ [(witnessing_hop, estimate_ms, False)]) (estimates self)\<rparr>
      else self\<lparr>estimates := lru_put L order_id [(witnessing_hop, estimate_ms, False)] (estimates self)\<rparr>)"

definition mark_anomalous ::
    "('c, bytes32, estimate list) lru_ops \<Rightarrow> bytes32 \<Rightarrow> node_id \<Rightarrow> 'c origin_time_estimator \<Rightarrow> 'c origin_time_estimator" where
  "mark_anomalous L order_id witnessing_hop self =
     (if lru_contains L order_id (estimates self)
      then self\<lparr>estimates := lru_update L order_id
             (map (\<lambda>(hop, t, anomalous). (hop, t, if hop = witnessing_hop then True else anomalous))) (estimates self)\<rparr>
      else self)"

text \<open>\<^verbatim>\<open>Iterator::min_by\<close> keeps the first of equal elements.\<close>

fun min_by_time :: "node_id \<times> f64 \<Rightarrow> (node_id \<times> f64) list \<Rightarrow> (node_id \<times> f64) option" where
  "min_by_time best [] = Some best"
| "min_by_time best (y # ys) = (case partial_cmp (snd best) (snd y) of
     None \<Rightarrow> None
   | Some Greater \<Rightarrow> min_by_time y ys
   | Some _ \<Rightarrow> min_by_time best ys)"

definition earliest_in :: "estimate list \<Rightarrow> (node_id \<times> f64) option option" where
  "earliest_in entries =
     (let has_honest = list_ex (\<lambda>(_, _, anomalous). \<not> anomalous) entries;
          pool = map (\<lambda>(hop, t, _). (hop, t)) (filter (\<lambda>(_, _, anomalous). \<not> has_honest \<or> \<not> anomalous) entries)
      in case pool of [] \<Rightarrow> Some None | x # xs \<Rightarrow> map_option Some (min_by_time x xs))"

definition earliest_witness ::
    "('c, bytes32, estimate list) lru_ops \<Rightarrow> bytes32 \<Rightarrow> 'c origin_time_estimator \<Rightarrow>
     'c origin_time_estimator \<times> (node_id \<times> f64) option option" where
  "earliest_witness L order_id self =
     (case lru_get L order_id (estimates self) of
        (None, c) \<Rightarrow> (self\<lparr>estimates := c\<rparr>, Some None)
      | (Some entries, c) \<Rightarrow> (self\<lparr>estimates := c\<rparr>, earliest_in entries))"

definition earliest_estimate_ms ::
    "('c, bytes32, estimate list) lru_ops \<Rightarrow> bytes32 \<Rightarrow> 'c origin_time_estimator \<Rightarrow> 'c origin_time_estimator \<times> f64 option option" where
  "earliest_estimate_ms L order_id self =
     (let (self, w) = earliest_witness L order_id self in (self, map_option (map_option snd) w))"

definition compare_orders ::
    "sha256_fn \<Rightarrow> ('c, bytes32, estimate list) lru_ops \<Rightarrow> bytes32 \<Rightarrow> bytes32 \<Rightarrow> 'c origin_time_estimator \<Rightarrow>
     'c origin_time_estimator \<times> ordering_decision option option" where
  "compare_orders sha L order_a order_b self =
     (case earliest_witness L order_a self of
        (self, None) \<Rightarrow> (self, None)
      | (self, Some None) \<Rightarrow> (self, Some None)
      | (self, Some (Some wa)) \<Rightarrow>
          (case earliest_witness L order_b self of
             (self, None) \<Rightarrow> (self, None)
           | (self, Some None) \<Rightarrow> (self, Some None)
           | (self, Some (Some wb)) \<Rightarrow> (self, map_option Some (compare_by_evidence sha order_a wa order_b wb))))"

section \<open>The sequencer\<close>

record pending_order =
  p_order_id :: bytes32
  p_arrival_seq :: u64

record order_sequencer =
  pending :: "pending_order list"
  next_arrival_seq :: u64

definition new_sequencer :: order_sequencer where
  "new_sequencer = \<lparr>pending = [], next_arrival_seq = 0\<rparr>"

definition seq_add :: "bytes32 \<Rightarrow> order_sequencer \<Rightarrow> order_sequencer" where
  "seq_add order_id self =
     self\<lparr>pending := pending self @ [\<lparr>p_order_id = order_id, p_arrival_seq = next_arrival_seq self\<rparr>],
          next_arrival_seq := next_arrival_seq self + 1\<rparr>"

definition pending_order_ids :: "order_sequencer \<Rightarrow> bytes32 list" where
  "pending_order_ids self = map p_order_id (pending self)"

definition pending_len :: "order_sequencer \<Rightarrow> nat" where
  "pending_len self = length (pending self)"

type_synonym evidence = "(bytes32, node_id \<times> f64) hash_map"

text \<open>The panic branch of \<open>compare_by_evidence\<close> is never taken (\<open>compare_by_evidence_total\<close>).\<close>

definition compare_pending :: "sha256_fn \<Rightarrow> evidence \<Rightarrow> pending_order \<Rightarrow> pending_order \<Rightarrow> ordering" where
  "compare_pending sha evidence a b =
     (case (map_of evidence (p_order_id a), map_of evidence (p_order_id b)) of
        (Some ea, Some eb) \<Rightarrow> (case compare_by_evidence sha (p_order_id a) ea (p_order_id b) eb of
             Some (ByTimestamp d) \<Rightarrow> d | Some (TieBroken d) \<Rightarrow> d | None \<Rightarrow> Equal)
      | (Some _, None) \<Rightarrow> Less
      | (None, Some _) \<Rightarrow> Greater
      | (None, None) \<Rightarrow> cmp (p_arrival_seq a) (p_arrival_seq b))"

definition flush :: "sha256_fn \<Rightarrow> evidence \<Rightarrow> order_sequencer \<Rightarrow> order_sequencer \<times> bytes32 list" where
  "flush sha evidence self =
     (let batch = sort_by (compare_pending sha evidence) (pending self)
      in (self\<lparr>pending := []\<rparr>, map p_order_id batch))"

section \<open>The batch quorum\<close>

definition compute_batch_key :: "sha256_fn \<Rightarrow> bytes32 list \<Rightarrow> bytes32" where
  "compute_batch_key sha order_ids = sha (concat (sort order_ids))"

definition compute_proposal_hash :: "sha256_fn \<Rightarrow> bytes32 list \<Rightarrow> bytes32" where
  "compute_proposal_hash sha resolved_order_ids = sha (concat resolved_order_ids)"

type_synonym reporters = "(node_id, f64) hash_map"

record order_batch_quorum =
  proposals :: "(bytes32, (bytes32, reporters) hash_map) hash_map"
  q_min_reporters :: nat
  q_window_secs :: f64

definition new_batch_quorum :: "nat \<Rightarrow> f64 \<Rightarrow> order_batch_quorum" where
  "new_batch_quorum min_reporters window_secs =
     \<lparr>proposals = [], q_min_reporters = min_reporters, q_window_secs = window_secs\<rparr>"

definition record_proposal ::
    "bytes32 \<Rightarrow> node_id \<Rightarrow> bytes32 \<Rightarrow> f64 \<Rightarrow> order_batch_quorum \<Rightarrow> order_batch_quorum \<times> bytes32 option" where
  "record_proposal batch_key reporter proposed_hash now self =
     (let by_hash = (case map_of (proposals self) batch_key of Some m \<Rightarrow> m | None \<Rightarrow> []);
          by_hash = map (\<lambda>(h, rs). (h, hm_retain (\<lambda>_ last_seen. flt (fsub now last_seen) (q_window_secs self)) rs)) by_hash;
          by_hash = hm_retain (\<lambda>_ rs. rs \<noteq> []) by_hash;
          reporters = (case map_of by_hash proposed_hash of Some rs \<Rightarrow> rs | None \<Rightarrow> []);
          reporters = AList.update reporter now reporters;
          by_hash = AList.update proposed_hash reporters by_hash;
          self = self\<lparr>proposals := AList.update batch_key by_hash (proposals self)\<rparr>
      in (self, if q_min_reporters self \<le> length reporters then Some proposed_hash else None))"

definition distinct_hash_count :: "bytes32 \<Rightarrow> order_batch_quorum \<Rightarrow> nat" where
  "distinct_hash_count batch_key self = (case map_of (proposals self) batch_key of Some m \<Rightarrow> length m | None \<Rightarrow> 0)"

section \<open>Comparison by evidence\<close>

lemma rnd_val_abs: "\<bar>rnd_val x\<bar> = rnd_val \<bar>x\<bar>"
  using rnd_val_nonneg [of x] rnd_val_nonneg [of "- x"] by (cases "0 \<le> x") (simp_all add: rnd_val_minus)

definition far :: "f64 \<Rightarrow> f64 \<Rightarrow> bool" where
  "far a b = fle AMBIGUITY_WINDOW_MS (fabs (fsub a b))"

lemma ambiguity_window: "AMBIGUITY_WINDOW_MS = Fin 25"
  by (simp add: AMBIGUITY_WINDOW_MS_def)

lemma far_Fin: "far (Fin a) (Fin b) \<longleftrightarrow> 25 \<le> rnd_val \<bar>a - b\<bar>"
proof -
  let ?r = "rnd_val (a - b)"
  have "25 \<le> \<bar>?r\<bar>" if "?r \<noteq> 0" "1024 \<le> ilog2 \<bar>?r\<bar>"
  proof -
    have "(25 :: rat) \<le> 2 powi 1024" by (simp add: power_int_def)
    also have "(2 :: rat) powi 1024 \<le> 2 powi ilog2 \<bar>?r\<bar>" using that(2) by (subst pow2_le_iff)
    also have "\<dots> \<le> \<bar>?r\<bar>" using ilog2_bounds [of "\<bar>?r\<bar>"] that(1) by simp
    finally show ?thesis .
  qed
  then show ?thesis
    unfolding rnd_val_abs [symmetric] far_def ambiguity_window by (auto simp: fsub_def rnd_def Let_def fle_def)
qed

lemma far_mono: "far (Fin a) (Fin b) \<Longrightarrow> \<bar>a - b\<bar> \<le> \<bar>c - d\<bar> \<Longrightarrow> far (Fin c) (Fin d)"
  using rnd_val_mono [of "\<bar>a - b\<bar>" "\<bar>c - d\<bar>"] by (simp add: far_Fin)

lemma far_sym: "far (Fin a) (Fin b) = far (Fin b) (Fin a)"
  by (simp add: far_Fin abs_minus_commute)

lemma far_irrefl [simp]: "\<not> far (Fin a) (Fin a)"
  by (simp add: far_Fin)

lemma far_numbers: "far a b \<Longrightarrow> a \<noteq> NaN \<and> b \<noteq> NaN"
  by (cases a; cases b) (auto simp: far_def fsub_def fle_def)

lemma compare_by_evidence_total: "\<exists>d. compare_by_evidence sha i ei j ej = Some d"
proof (cases ei; cases ej)
  fix hi ti hj tj assume e: "ei = (hi, ti)" "ej = (hj, tj)"
  show ?thesis using far_numbers [of ti tj]
    by (auto simp: e compare_by_evidence_def Let_def far_def partial_cmp_def)
qed

section \<open>Agreement of sequencers\<close>

definition cmp_ids :: "sha256_fn \<Rightarrow> evidence \<Rightarrow> bytes32 \<Rightarrow> bytes32 \<Rightarrow> ordering" where
  "cmp_ids sha ev i j = (case compare_by_evidence sha i (the (map_of ev i)) j (the (map_of ev j)) of
     Some (ByTimestamp d) \<Rightarrow> d | Some (TieBroken d) \<Rightarrow> d | None \<Rightarrow> Equal)"

text \<open>
  Evidence is clear on a set of orders when every order has a finite estimate, being too close to call
  is transitive among them, and their tie-break keys differ.
\<close>

definition time_of :: "evidence \<Rightarrow> bytes32 \<Rightarrow> f64" where
  "time_of ev i = snd (the (map_of ev i))"

definition key_in :: "sha256_fn \<Rightarrow> evidence \<Rightarrow> bytes32 \<Rightarrow> bytes32" where
  "key_in sha ev i = tie_break_key sha i (fst (the (map_of ev i)))"

definition clear_evidence :: "sha256_fn \<Rightarrow> evidence \<Rightarrow> bytes32 set \<Rightarrow> bool" where
  "clear_evidence sha ev I \<longleftrightarrow>
     (\<forall>i \<in> I. map_of ev i \<noteq> None \<and> (\<exists>q. time_of ev i = Fin q))
   \<and> (\<forall>i \<in> I. \<forall>j \<in> I. \<forall>k \<in> I. \<not> far (time_of ev i) (time_of ev j) \<and> \<not> far (time_of ev j) (time_of ev k)
        \<longrightarrow> \<not> far (time_of ev i) (time_of ev k))
   \<and> inj_on (key_in sha ev) I"

lemma cmp_ids_cases:
  assumes "time_of ev i = Fin a" "time_of ev j = Fin b"
  shows "cmp_ids sha ev i j = (if far (Fin a) (Fin b) then cmp a b else cmp (key_in sha ev i) (key_in sha ev j))"
proof -
  obtain hi hj where e: "the (map_of ev i) = (hi, Fin a)" "the (map_of ev j) = (hj, Fin b)"
    using assms by (metis time_of_def prod.collapse)
  then show ?thesis
    by (auto simp: cmp_ids_def compare_by_evidence_def Let_def far_def partial_cmp_def key_in_def cmp_def)
qed

lemma cmp_neq_Greater: "cmp a b \<noteq> Greater \<longleftrightarrow> a \<le> b"
  by (auto simp: cmp_def)

lemma cmp_ids_reverse:
  assumes "clear_evidence sha ev I" "i \<in> I" "j \<in> I"
  shows "cmp_ids sha ev j i = reverse_ordering (cmp_ids sha ev i j)"
proof -
  obtain a b where t: "time_of ev i = Fin a" "time_of ev j = Fin b"
    using assms unfolding clear_evidence_def by blast
  show ?thesis unfolding cmp_ids_cases [OF t] cmp_ids_cases [OF t(2,1)]
    using cmp_reverse far_sym by metis
qed

lemma cmp_ids_trans:
  assumes clear: "clear_evidence sha ev I" and mem: "i \<in> I" "j \<in> I" "k \<in> I"
    and ij: "cmp_ids sha ev i j \<noteq> Greater" and jk: "cmp_ids sha ev j k \<noteq> Greater"
  shows "cmp_ids sha ev i k \<noteq> Greater"
proof -
  have fin: "\<forall>i \<in> I. \<exists>q. time_of ev i = Fin q" using clear by (simp add: clear_evidence_def)
  obtain a b c where t: "time_of ev i = Fin a" "time_of ev j = Fin b" "time_of ev k = Fin c"
    using bspec [OF fin mem(1)] bspec [OF fin mem(2)] bspec [OF fin mem(3)] by blast
  have close: "\<not> far (Fin x) (Fin y) \<Longrightarrow> \<not> far (Fin y) (Fin z) \<Longrightarrow> \<not> far (Fin x) (Fin z)"
    if "{x, y, z} \<subseteq> {a, b, c}" for x y z
  proof -
    have "\<exists>i' \<in> I. time_of ev i' = Fin w" if "w \<in> {a, b, c}" for w using that t mem by auto
    then have "\<exists>i' j' k'. i' \<in> I \<and> j' \<in> I \<and> k' \<in> I \<and> time_of ev i' = Fin x \<and> time_of ev j' = Fin y \<and> time_of ev k' = Fin z"
      using \<open>{x, y, z} \<subseteq> {a, b, c}\<close> by (meson insert_subset)
    then show "\<not> far (Fin x) (Fin y) \<Longrightarrow> \<not> far (Fin y) (Fin z) \<Longrightarrow> \<not> far (Fin x) (Fin z)"
      using clear unfolding clear_evidence_def by metis
  qed
  note ik = cmp_ids_cases [OF t(1,3), of sha] and c1 = cmp_ids_cases [OF t(1,2), of sha] and c2 = cmp_ids_cases [OF t(2,3), of sha]
  show ?thesis
  proof (cases "far (Fin a) (Fin b)")
    case ab: True
    then have "a \<le> b" using ij c1 by (simp add: cmp_neq_Greater)
    then have "a < b" using ab by (cases "a = b") auto
    show ?thesis
    proof (cases "far (Fin b) (Fin c)")
      case True
      then have "b \<le> c" using jk c2 by (simp add: cmp_neq_Greater)
      then have "far (Fin a) (Fin c)" using far_mono [OF ab, of a c] \<open>a < b\<close> by simp
      then show ?thesis using ik \<open>a < b\<close> \<open>b \<le> c\<close> by (simp add: cmp_neq_Greater)
    next
      case False
      then have "far (Fin a) (Fin c)" using ab close [of a c b] far_sym by auto
      moreover have "a \<le> c"
      proof (rule ccontr)
        assume "\<not> a \<le> c"
        then have "\<bar>a - b\<bar> \<le> \<bar>b - c\<bar>" using \<open>a < b\<close> by simp
        with ab False far_mono show False by blast
      qed
      ultimately show ?thesis using ik by (simp add: cmp_neq_Greater)
    qed
  next
    case ab: False
    show ?thesis
    proof (cases "far (Fin b) (Fin c)")
      case True
      then have "b \<le> c" using jk c2 by (simp add: cmp_neq_Greater)
      have "far (Fin a) (Fin c)" using True ab close [of b a c] far_sym by auto
      moreover have "a \<le> c"
      proof (rule ccontr)
        assume "\<not> a \<le> c"
        then have "\<bar>b - c\<bar> \<le> \<bar>a - b\<bar>" using \<open>b \<le> c\<close> by simp
        with True ab far_mono show False by blast
      qed
      ultimately show ?thesis using ik by (simp add: cmp_neq_Greater)
    next
      case False
      then have "\<not> far (Fin a) (Fin c)" using ab close [of a b c] by simp
      then show ?thesis using ik ij jk c1 c2 ab False by (simp add: cmp_neq_Greater)
    qed
  qed
qed

lemma cmp_ids_total: "clear_evidence sha ev I \<Longrightarrow> total_order_cmp (cmp_ids sha ev) I"
  unfolding total_order_cmp_def using cmp_ids_reverse cmp_ids_trans by (metis (no_types, lifting))

lemma cmp_ids_antisym:
  assumes "clear_evidence sha ev I" "i \<in> I" "j \<in> I" "cmp_ids sha ev i j \<noteq> Greater" "cmp_ids sha ev j i \<noteq> Greater"
  shows "i = j"
proof -
  obtain a b where t: "time_of ev i = Fin a" "time_of ev j = Fin b"
    using assms unfolding clear_evidence_def by blast
  have "\<not> far (Fin a) (Fin b)" "key_in sha ev i = key_in sha ev j"
    using assms(4,5) far_sym [of a b] unfolding cmp_ids_cases [OF t] cmp_ids_cases [OF t(2,1)]
    by (auto simp: cmp_neq_Greater split: if_splits)
  then show ?thesis using assms(1-3) unfolding clear_evidence_def inj_on_def by blast
qed

lemma sorted_wrt_unique:
  assumes "sorted_wrt R xs" "sorted_wrt R ys" "mset xs = mset ys"
    and "\<And>a b. a \<in> set xs \<Longrightarrow> b \<in> set xs \<Longrightarrow> R a b \<Longrightarrow> R b a \<Longrightarrow> a = b"
  shows "xs = ys"
  using assms
proof (induction xs arbitrary: ys)
  case (Cons x xs)
  obtain y zs where ys: "ys = y # zs" using Cons.prems(3) by (cases ys) auto
  have "set (x # xs) = set (y # zs)" using Cons.prems(3) ys by (metis mset_eq_setD)
  then have "x = y \<or> (R x y \<and> R y x)" using Cons.prems(1,2) ys by auto
  then have xy: "x = y" using Cons.prems(4) \<open>set (x # xs) = set (y # zs)\<close> by auto
  then show ?case using Cons.IH [of zs] Cons.prems ys by simp
qed simp

lemma sort_by_unique:
  assumes "total_order_cmp c (set xs)" "mset xs = mset ys"
    and "\<And>a b. a \<in> set xs \<Longrightarrow> b \<in> set xs \<Longrightarrow> c a b \<noteq> Greater \<Longrightarrow> c b a \<noteq> Greater \<Longrightarrow> a = b"
  shows "sort_by c xs = sort_by c ys"
proof (rule sorted_wrt_unique [where R = "\<lambda>a b. c a b \<noteq> Greater"])
  show "sorted_wrt (\<lambda>a b. c a b \<noteq> Greater) (sort_by c xs)" by (rule sort_by_sorted [OF assms(1)])
  show "sorted_wrt (\<lambda>a b. c a b \<noteq> Greater) (sort_by c ys)"
    by (rule sort_by_sorted) (use assms(1,2) mset_eq_setD in metis)
qed (use assms in auto)

lemma sort_by_map:
  "(\<And>a b. a \<in> set xs \<Longrightarrow> b \<in> set xs \<Longrightarrow> c a b = d (f a) (f b)) \<Longrightarrow> map f (sort_by c xs) = sort_by d (map f xs)"
proof -
  assume eq: "\<And>a b. a \<in> set xs \<Longrightarrow> b \<in> set xs \<Longrightarrow> c a b = d (f a) (f b)"
  have one: "map f (shift_left c x acc) = shift_left d (f x) (map f acc)" if "x \<in> set xs" "set acc \<subseteq> set xs" for x acc
    using that by (induction acc) (auto simp: eq)
  have "map f (fold (shift_left c) us acc) = fold (shift_left d) (map f us) (map f acc)"
    if "set us \<subseteq> set xs" "set acc \<subseteq> set xs" for us acc
    using that by (induction us arbitrary: acc) (auto simp: one)
  then show ?thesis by (simp add: sort_by_def rev_map [symmetric])
qed

lemma flush_ids:
  assumes "\<forall>i \<in> set (pending_order_ids s). map_of ev i \<noteq> None"
  shows "snd (flush sha ev s) = sort_by (cmp_ids sha ev) (pending_order_ids s)"
  unfolding flush_def Let_def pending_order_ids_def snd_conv
proof (rule sort_by_map)
  fix a b assume "a \<in> set (pending s)" "b \<in> set (pending s)"
  then obtain ea eb where "map_of ev (p_order_id a) = Some ea" "map_of ev (p_order_id b) = Some eb"
    using assms unfolding pending_order_ids_def by (metis image_eqI image_set not_None_eq)
  then show "compare_pending sha ev a b = cmp_ids sha ev (p_order_id a) (p_order_id b)"
    by (simp add: compare_pending_def cmp_ids_def)
qed

lemma flush_agree:
  assumes "mset (pending_order_ids s) = mset (pending_order_ids s')"
    and "clear_evidence sha ev (set (pending_order_ids s))"
    and "\<forall>i \<in> set (pending_order_ids s). map_of ev' i \<noteq> None"
    and "\<forall>i \<in> set (pending_order_ids s). \<forall>j \<in> set (pending_order_ids s). cmp_ids sha ev i j = cmp_ids sha ev' i j"
  shows "snd (flush sha ev s) = snd (flush sha ev' s')"
proof -
  have set_eq: "set (pending_order_ids s) = set (pending_order_ids s')" using assms(1) by (rule mset_eq_setD)
  have "snd (flush sha ev s) = sort_by (cmp_ids sha ev) (pending_order_ids s)"
    using assms(2) by (intro flush_ids) (auto simp: clear_evidence_def)
  also have "\<dots> = sort_by (cmp_ids sha ev) (pending_order_ids s')"
    using cmp_ids_total [OF assms(2)] assms(1) cmp_ids_antisym [OF assms(2)] by (intro sort_by_unique)
  also have "\<dots> = sort_by (cmp_ids sha ev') (pending_order_ids s')"
    using sort_by_map [of "pending_order_ids s'" "cmp_ids sha ev" "cmp_ids sha ev'" "\<lambda>x. x"] assms(4) set_eq by simp
  also have "\<dots> = snd (flush sha ev' s')" using assms(3) set_eq by (intro flush_ids [symmetric]) simp
  finally show ?thesis .
qed

section \<open>Votes in a window\<close>

definition quorum_ok :: "(bytes32 \<times> node_id \<times> bytes32 \<times> f64) set \<Rightarrow> order_batch_quorum \<Rightarrow> bool" where
  "quorum_ok hist q \<longleftrightarrow> hm_ok (proposals q) \<and> (\<forall>k m. (k, m) \<in> set (proposals q) \<longrightarrow> hm_ok m
     \<and> (\<forall>h rs. (h, rs) \<in> set m \<longrightarrow> hm_ok rs \<and> (\<forall>r t. (r, t) \<in> set rs \<longrightarrow> (k, r, h, t) \<in> hist)))"

lemma update_set: "(k', v') \<in> set (AList.update k v m) \<Longrightarrow> (k' = k \<and> v' = v) \<or> (k', v') \<in> set m"
  by (induction m) (auto split: if_splits)

lemma map_of_in: "map_of m k = Some v \<Longrightarrow> (k, v) \<in> set m"
  by (rule map_of_SomeD)

definition live_reporters :: "bytes32 \<Rightarrow> bytes32 \<Rightarrow> f64 \<Rightarrow> order_batch_quorum \<Rightarrow> reporters" where
  "live_reporters k h now q =
     (case map_of (hm_retain (\<lambda>_ rs. rs \<noteq> []) (map (\<lambda>(h, rs).
        (h, hm_retain (\<lambda>_ last_seen. flt (fsub now last_seen) (q_window_secs q)) rs))
          (case map_of (proposals q) k of Some m \<Rightarrow> m | None \<Rightarrow> []))) h of Some rs \<Rightarrow> rs | None \<Rightarrow> [])"

lemma live_reporters_in:
  assumes "quorum_ok hist q"
  shows "hm_ok (live_reporters k h now q) \<and> (\<forall>(r, t) \<in> set (live_reporters k h now q).
    (k, r, h, t) \<in> hist \<and> flt (fsub now t) (q_window_secs q))"
proof (cases "live_reporters k h now q = []")
  case False
  let ?ret = "\<lambda>rs. hm_retain (\<lambda>_ last_seen. flt (fsub now last_seen) (q_window_secs q)) rs"
  from False obtain m where m: "map_of (proposals q) k = Some m"
    by (auto simp: live_reporters_def hm_retain_def split: option.splits)
  have "\<exists>rs0. map_of (hm_retain (\<lambda>_ rs. rs \<noteq> []) (map (\<lambda>(h, rs). (h, ?ret rs)) m)) h = Some rs0
      \<and> live_reporters k h now q = rs0"
    using False m by (cases "map_of (hm_retain (\<lambda>_ rs. rs \<noteq> []) (map (\<lambda>(h, rs). (h, ?ret rs)) m)) h")
      (simp_all add: live_reporters_def)
  then obtain rs where rs: "(h, rs) \<in> set m" "live_reporters k h now q = ?ret rs"
    by (auto dest!: map_of_SomeD simp: hm_retain_def)
  have "(k, m) \<in> set (proposals q)" using m by (rule map_of_SomeD)
  then have "hm_ok rs" "\<forall>r t. (r, t) \<in> set rs \<longrightarrow> (k, r, h, t) \<in> hist" using assms rs(1) unfolding quorum_ok_def by blast+
  then show ?thesis using rs(2) by (auto simp: hm_retain_def distinct_map_filter)
qed simp

lemma record_proposal_result:
  "record_proposal k r h now q =
     (q\<lparr>proposals := proposals (fst (record_proposal k r h now q))\<rparr>,
      if q_min_reporters q \<le> length (AList.update r now (live_reporters k h now q)) then Some h else None)"
  by (simp add: record_proposal_def Let_def live_reporters_def)

lemma quorum_ok_record:
  assumes "quorum_ok hist q"
  shows "quorum_ok (insert (k, r, h, now) hist) (fst (record_proposal k r h now q))"
proof -
  define m where "m = (case map_of (proposals q) k of Some m \<Rightarrow> m | None \<Rightarrow> [])"
  define live where "live = hm_retain (\<lambda>_ rs. rs \<noteq> []) (map (\<lambda>(h, rs).
    (h, hm_retain (\<lambda>_ last_seen. flt (fsub now last_seen) (q_window_secs q)) rs)) m)"
  define new where "new = AList.update h (AList.update r now (live_reporters k h now q)) live"
  have q': "fst (record_proposal k r h now q) = q\<lparr>proposals := AList.update k new (proposals q)\<rparr>"
    by (simp add: record_proposal_def Let_def new_def live_def m_def live_reporters_def)
  have m: "hm_ok m \<and> (\<forall>h rs. (h, rs) \<in> set m \<longrightarrow> hm_ok rs \<and> (\<forall>r t. (r, t) \<in> set rs \<longrightarrow> (k, r, h, t) \<in> hist))"
    using assms unfolding quorum_ok_def m_def by (auto split: option.splits dest!: map_of_SomeD)
  have keys: "map fst (map (\<lambda>(h, rs). (h, f rs)) m) = map fst m" for f :: "reporters \<Rightarrow> reporters" by (induction m) auto
  then have "hm_ok live" using m unfolding live_def by (intro hm_retain_ok) (simp only: keys)
  then have ok: "hm_ok new" by (simp add: new_def distinct_update)
  have ent: "hm_ok rs \<and> (\<forall>r' t. (r', t) \<in> set rs \<longrightarrow> (k, r', h', t) \<in> insert (k, r, h, now) hist)" if "(h', rs) \<in> set new" for h' rs
  proof -
    from update_set [OF that [unfolded new_def]]
    consider "h' = h" "rs = AList.update r now (live_reporters k h now q)" | "(h', rs) \<in> set live" by blast
    then show ?thesis
    proof cases
      case 1
      then show ?thesis
        using live_reporters_in [OF assms, of k h now] by (auto simp: distinct_update dest!: update_set)
    next
      case 2
      then obtain rs0 where "(h', rs0) \<in> set m"
        "rs = hm_retain (\<lambda>_ last_seen. flt (fsub now last_seen) (q_window_secs q)) rs0"
        by (auto simp: live_def hm_retain_def)
      with m show ?thesis by (auto simp: hm_retain_def distinct_map_filter)
    qed
  qed
  show ?thesis
    using assms ok ent unfolding q' quorum_ok_def by (auto simp: distinct_update dest!: update_set)
qed

definition run_votes :: "(bytes32 \<times> node_id \<times> bytes32 \<times> f64) list \<Rightarrow> order_batch_quorum \<Rightarrow> order_batch_quorum" where
  "run_votes = fold (\<lambda>(k, r, h, now) q. fst (record_proposal k r h now q))"

lemma run_votes_ok:
  "quorum_ok hist q \<Longrightarrow> quorum_ok (set votes \<union> hist) (run_votes votes q)
     \<and> q_min_reporters (run_votes votes q) = q_min_reporters q \<and> q_window_secs (run_votes votes q) = q_window_secs q"
proof (induction votes arbitrary: hist q)
  case (Cons v votes)
  obtain k r h now where v: "v = (k, r, h, now)" by (metis prod_cases4)
  let ?q = "fst (record_proposal k r h now q)"
  have "quorum_ok (insert v hist) ?q" using quorum_ok_record [OF Cons.prems] v by simp
  moreover have "q_min_reporters ?q = q_min_reporters q" "q_window_secs ?q = q_window_secs q"
    by (simp_all add: record_proposal_def Let_def)
  ultimately show ?case using Cons.IH [of "insert v hist" ?q] by (simp add: run_votes_def v)
qed (simp add: run_votes_def)

section \<open>Honest witnesses\<close>

lemma min_by_time_least:
  "min_by_time b ys = Some w \<Longrightarrow> w \<in> set (b # ys) \<and> (\<forall>y \<in> set (b # ys). y = w \<or> fle (snd w) (snd y))"
proof (induction ys arbitrary: b)
  case (Cons y ys)
  then obtain d where d: "partial_cmp (snd b) (snd y) = Some d" by (auto split: option.splits)
  then have num: "snd b \<noteq> NaN" "snd y \<noteq> NaN" by (auto simp: partial_cmp_def split: if_splits)
  show ?case
  proof (cases "d = Greater")
    case True
    then have "fle (snd y) (snd b)"
      using d num by (auto simp: partial_cmp_def not_flt_iff split: if_splits)
    moreover have "min_by_time y ys = Some w" using Cons.prems d True by simp
    ultimately show ?thesis using Cons.IH [of y] by (auto intro: fle_trans)
  next
    case False
    then have le: "fle (snd b) (snd y)"
      using d num by (auto simp: partial_cmp_def fle_def split: if_splits)
    have "min_by_time b ys = Some w" using Cons.prems d False by (cases d) auto
    then show ?thesis using Cons.IH [of b] le by (auto intro: fle_trans)
  qed
qed simp

lemma min_by_time_total: "\<forall>y \<in> set (b # ys). snd y \<noteq> NaN \<Longrightarrow> \<exists>w. min_by_time b ys = Some w"
proof (induction ys arbitrary: b)
  case (Cons y ys)
  then have "partial_cmp (snd b) (snd y) \<noteq> None" by (simp add: partial_cmp_def)
  then obtain d where d: "partial_cmp (snd b) (snd y) = Some d" by blast
  with Cons.IH [of b] Cons.IH [of y] Cons.prems show ?case by (cases d) auto
qed simp

lemma batch_key_set: "mset ids = mset ids' \<Longrightarrow> compute_batch_key sha ids = compute_batch_key sha ids'"
  unfolding compute_batch_key_def by (metis properties_for_sort sorted_sort mset_sort)

lemma cmp_ids_cong:
  "compare_by_evidence sha i (the (map_of ev i)) j (the (map_of ev j))
     = compare_by_evidence sha i (the (map_of ev' i)) j (the (map_of ev' j)) \<Longrightarrow>
   cmp_ids sha ev i j = cmp_ids sha ev' i j"
  by (simp add: cmp_ids_def)

section \<open>Properties\<close>


definition demo_id :: "u8 \<Rightarrow> bytes32" where
  "demo_id n = replicate 32 n"

lemma demo_id_inj [simp]: "demo_id a = demo_id b \<longleftrightarrow> a = b"
  by (simp add: demo_id_def)

lemma far_0_100: "far (Fin 0) (Fin 100)"
  by code_simp


text \<open>C25. A batch is confirmed only by distinct reporters: when a proposal is confirmed after any history
  of proposals, at least the required number of different reporters proposed that very hash for
  that batch, each within the window.\<close>

theorem quorum_needs_distinct_reporters:
  assumes "snd (record_proposal k r h now (run_votes votes (new_batch_quorum n w))) = Some h'"
  shows "h' = h \<and> (\<exists>S. n \<le> card S \<and> (\<forall>x \<in> S. \<exists>t. (k, x, h, t) \<in> insert (k, r, h, now) (set votes)
    \<and> ((x, t) = (r, now) \<or> flt (fsub now t) w)))"
proof -
  let ?q = "run_votes votes (new_batch_quorum n w)"
  have "quorum_ok {} (new_batch_quorum n w)" by (simp add: quorum_ok_def new_batch_quorum_def)
  from run_votes_ok [OF this, of votes] have q: "quorum_ok (set votes) ?q" "q_min_reporters ?q = n" "q_window_secs ?q = w"
    by (simp_all add: new_batch_quorum_def)
  let ?live = "live_reporters k h now ?q" and ?rs = "AList.update r now (live_reporters k h now ?q)"
  note live = live_reporters_in [OF q(1), of k h now]
  have res: "h' = h" "n \<le> length ?rs"
    using assms q(2) record_proposal_result [of k r h now ?q] by (auto simp: prod_eq_iff split: if_splits)
  have "hm_ok ?rs" using live by (simp add: distinct_update)
  then have "card (fst ` set ?rs) = length ?rs" by (metis distinct_card length_map set_map)
  moreover have "\<exists>t. (k, x, h, t) \<in> insert (k, r, h, now) (set votes) \<and> ((x, t) = (r, now) \<or> flt (fsub now t) w)"
    if "x \<in> fst ` set ?rs" for x
    using that live q(3) by (auto dest!: update_set) fastforce
  ultimately show ?thesis using res by (intro conjI exI [of _ "fst ` set ?rs"]) auto
qed

theorem quorum_needs_distinct_reporters_witness:
  "\<exists>S. 2 \<le> card S \<and> (\<forall>x \<in> S. \<exists>t. (demo_id 1, x, demo_id 2, t)
      \<in> insert (demo_id 1, 8, demo_id 2, Fin 1) (set [(demo_id 1, 7 :: node_id, demo_id 2, Fin 0)])
    \<and> ((x, t) = (8, Fin 1) \<or> flt (fsub (Fin 1) t) (Fin 10)))"
proof -
  have "snd (record_proposal (demo_id 1) 8 (demo_id 2) (Fin 1)
      (run_votes [(demo_id 1, 7, demo_id 2, Fin 0)] (new_batch_quorum 2 (Fin 10)))) = Some (demo_id 2)"
    by code_simp
  from quorum_needs_distinct_reporters [OF this] show ?thesis by blast
qed

text \<open>C40. Anomalous witnesses are used only as a last resort: the estimate chosen for an order is one of
  those recorded, comes from a witness not marked anomalous whenever there is one, and is the
  earliest of the eligible estimates; choosing does not panic when no estimate is NaN.\<close>

theorem earliest_is_honest_minimum:
  assumes "\<forall>(hop, t, anomalous) \<in> set entries. t \<noteq> NaN" and "entries \<noteq> []"
  shows "\<exists>hop t anomalous. earliest_in entries = Some (Some (hop, t)) \<and> (hop, t, anomalous) \<in> set entries
    \<and> (anomalous \<longrightarrow> (\<forall>(_, _, a) \<in> set entries. a))
    \<and> (\<forall>(_, t', a) \<in> set entries. anomalous \<or> \<not> a \<longrightarrow> fle t t')"
proof -
  define hh where "hh = list_ex (\<lambda>(_, _, a). \<not> a) entries"
  define pool where "pool = map (\<lambda>(hop, t, _). (hop, t)) (filter (\<lambda>(_, _, a). \<not> hh \<or> \<not> a) entries)"
  have mem: "(hop, t) \<in> set pool \<longleftrightarrow> (\<exists>a. (hop, t, a) \<in> set entries \<and> (hh \<longrightarrow> \<not> a))" for hop t
    by (force simp: pool_def)
  have "\<exists>e. e \<in> set entries \<and> (hh \<longrightarrow> \<not> snd (snd e))"
  proof (cases hh)
    case True
    then show ?thesis unfolding hh_def list_ex_iff by (metis (mono_tags, lifting) case_prod_beta)
  next
    case False
    then show ?thesis using assms(2) by (cases entries) auto
  qed
  then have "pool \<noteq> []" by (auto simp: pool_def filter_empty_conv split: prod.splits) blast
  then obtain x xs where p: "pool = x # xs" by (cases pool) auto
  have "\<forall>y \<in> set (x # xs). snd y \<noteq> NaN" using assms(1) mem unfolding p [symmetric] by fastforce
  then obtain w where w: "min_by_time x xs = Some w" using min_by_time_total by blast
  note least = min_by_time_least [OF w]
  obtain hop t where ht: "w = (hop, t)" by (cases w)
  then obtain a where a: "(hop, t, a) \<in> set entries" "hh \<longrightarrow> \<not> a" using least mem p by auto
  have e: "earliest_in entries = Some (Some (hop, t))"
    using w ht p unfolding earliest_in_def Let_def hh_def [symmetric] pool_def [symmetric] by simp
  have all: "fle t t'" if "(h', t', a') \<in> set entries" "a \<or> \<not> a'" for h' t' a'
  proof -
    have "hh \<longrightarrow> \<not> a'" using that(2) a(2) by blast
    then have "(h', t') \<in> set pool" using mem that(1) by blast
    moreover have "t \<noteq> NaN" using assms(1) a(1) by auto
    ultimately show ?thesis using least p ht by auto
  qed
  have "a \<longrightarrow> (\<forall>(_, _, a) \<in> set entries. a)" using a(2) unfolding hh_def list_ex_iff by fastforce
  then show ?thesis using e a(1) all by (intro exI [of _ hop] exI [of _ t] exI [of _ a]) auto
qed

theorem earliest_is_honest_minimum_witness:
  "earliest_in [(1, Fin 3, True), (2, Fin 9, False)] = Some (Some (2, Fin 9))"
proof -
  let ?es = "[(1, Fin 3, True), (2, Fin 9, False)] :: estimate list"
  have "\<exists>hop t anomalous. earliest_in ?es = Some (Some (hop, t)) \<and> (hop, t, anomalous) \<in> set ?es
      \<and> (anomalous \<longrightarrow> (\<forall>(_, _, a) \<in> set ?es. a)) \<and> (\<forall>(_, t', a) \<in> set ?es. anomalous \<or> \<not> a \<longrightarrow> fle t t')"
    by (rule earliest_is_honest_minimum) auto
  then show ?thesis by auto
qed

text \<open>
  Without the transitivity condition the sequence depends on the arrival order: three orders 20 ms
  apart, whose outer two are decided by time and the others by their keys, can form a cycle.
\<close>

lemma ambiguity_cycle:
  "let sha = (\<lambda>m. [255 - hd m]);
       ev = [(demo_id 1, (1, Fin 0)), (demo_id 2, (1, Fin 20)), (demo_id 3, (1, Fin 40))];
       s = fold seq_add [demo_id 1, demo_id 2, demo_id 3] new_sequencer;
       s' = fold seq_add [demo_id 3, demo_id 2, demo_id 1] new_sequencer
   in mset (pending_order_ids s) = mset (pending_order_ids s') \<and> snd (flush sha ev s) \<noteq> snd (flush sha ev s')"
  by code_simp

end
