(* ===== verification/Server.thy ===== *)
theory Server
  imports Persistence Sequencing
begin

text \<open>
  The order and confirmation handlers of the \<^verbatim>\<open>api\<close> crate (\<^verbatim>\<open>server.rs\<close>), the sequencing and gossip
  loops that feed them (\<^verbatim>\<open>order_sequencing.rs\<close>, \<^verbatim>\<open>gossip_replication.rs\<close>), the snapshot loop
  (\<^verbatim>\<open>snapshot_loop.rs\<close>), and recovery at boot.

  A handler is a function of the state it holds the lock of. The code outside the crates is in
  \<open>api_env\<close>; \<open>clock\<close> is the one reading of the wall clock a handler makes. Messages handed to the
  WebSocket channel and to the mesh are kept in the state in the order they are sent. HTTP
  routing, rate limiting and metrics are not modelled.
\<close>

section \<open>State\<close>

record ('c, 'd) api_env =
  env_sha :: sha_fn
  env_ser_receipt :: "order_receipt \<Rightarrow> bytes"
  env_ser_match :: "match_rec \<Rightarrow> bytes"
  env_ed :: ed25519
  env_lru :: "('c, validation_key, bool) lru_ops"
  env_store :: "'d store_ops"
  env_powf :: powf_fn

record clock =
  clk_us :: u64
  clk_secs :: u64
  clk_secs_f :: f64
  clk_ms_f :: f64

record mesh_handle =
  mh_node_id :: node_id
  mh_region :: region
  mh_peer_ids :: "node_id list"

datatype mesh_out =
    FloodOut flood_message
  | LogEntryOut node_id "order_receipt log_entry"
  | SettlementProofOut node_id trade_batch bytes

record ('c, 'd) app_state =
  a_node_id :: node_id
  a_order_book :: order_book
  a_validator :: "'c order_validator"
  a_ws_sent :: "match_rec list"
  a_reputation :: reputation_engine
  a_pending_commits :: "(trade_key, match_rec) hash_map"
  a_confirmed_trade_hashes :: "(trade_key, bytes32) hash_map"
  a_batcher :: settlement_batcher
  a_receipt_signing_key :: bytes32
  a_order_log :: "order_receipt hash_chain_log"
  a_match_log :: "match_rec hash_chain_log"
  a_mesh :: "mesh_handle option"
  a_mesh_sent :: "mesh_out list"
  a_order_sequencer :: "order_sequencer option"
  a_pending_order_data :: "(bytes32, order \<times> order_receipt) hash_map"
  a_applied_order_ids :: "bytes32 set"
  a_persistence :: "'d option"

definition trade_key_of :: "match_rec \<Rightarrow> trade_key" where
  "trade_key_of m = (m_maker_order_id m, m_taker_order_id m)"

text \<open>\<^verbatim>\<open>if let Some(log) = &guard.persistence { ... }\<close>\<close>

definition persist :: "('d, unit) io \<Rightarrow> ('c, 'd) app_state \<Rightarrow> ('c, 'd) app_state \<times> (string + unit)" where
  "persist f guard = (case a_persistence guard of
     None \<Rightarrow> (guard, Inr ())
   | Some d \<Rightarrow> let (d, r) = f d in (guard\<lparr>a_persistence := Some d\<rparr>, r))"

section \<open>Applying an accepted order\<close>

definition record_match :: "('c, 'd) api_env \<Rightarrow> clock \<Rightarrow> match_rec \<Rightarrow> ('c, 'd) app_state \<Rightarrow> ('c, 'd) app_state" where
  "record_match E clk m guard =
     guard\<lparr>a_match_log := fst (log_append (env_sha E) (env_ser_match E) m (a_match_log guard)),
           a_ws_sent := a_ws_sent guard @ [m],
           a_reputation := on_order_matched (env_powf E) (a_node_id guard) m (clk_secs_f clk) (clk_secs_f clk) (a_reputation guard),
           a_pending_commits := AList.update (trade_key_of m) m (a_pending_commits guard)\<rparr>"

definition flood_accepted ::
    "clock \<Rightarrow> order \<Rightarrow> order_receipt log_entry \<Rightarrow> ('c, 'd) app_state \<Rightarrow> ('c, 'd) app_state" where
  "flood_accepted clk order log_entry guard = (case a_mesh guard of
     None \<Rightarrow> guard
   | Some mesh \<Rightarrow>
       let flood_msg = \<lparr>f_order = order, f_hop_count = 0, f_path = [mh_node_id mesh],
                        f_timestamp = clk_ms_f clk, f_source_region = mh_region mesh\<rparr>
       in guard\<lparr>a_mesh_sent := a_mesh_sent guard @ FloodOut flood_msg
                  # map (\<lambda>peer_id. LogEntryOut peer_id log_entry) (mh_peer_ids mesh)\<rparr>)"

definition apply_accepted_order_locally ::
    "('c, 'd) api_env \<Rightarrow> clock \<Rightarrow> order \<Rightarrow> order_receipt \<Rightarrow> u64 option \<Rightarrow> bool \<Rightarrow> ('c, 'd) app_state \<Rightarrow>
     ('c, 'd) app_state \<times> match_rec list" where
  "apply_accepted_order_locally E clk order receipt match_timestamp_us flood_to_mesh guard =
     (let guard = guard\<lparr>a_applied_order_ids := insert (o_id order) (a_applied_order_ids guard)\<rparr>;
          (olog, log_entry) = log_append (env_sha E) (env_ser_receipt E) receipt (a_order_log guard);
          guard = guard\<lparr>a_order_log := olog\<rparr>;
          guard = (if flood_to_mesh then flood_accepted clk order log_entry guard else guard);
          (book, matches) = (case match_timestamp_us of
             Some t \<Rightarrow> add_order_at order t (a_order_book guard)
           | None \<Rightarrow> add_order (clk_us clk) order (a_order_book guard));
          guard = guard\<lparr>a_order_book := book\<rparr>
      in (fold (record_match E clk) matches guard, matches))"

definition apply_accepted_order ::
    "('c, 'd) api_env \<Rightarrow> clock \<Rightarrow> order \<Rightarrow> order_receipt \<Rightarrow> u64 option \<Rightarrow> ('c, 'd) app_state \<Rightarrow>
     ('c, 'd) app_state \<times> (string + match_rec list)" where
  "apply_accepted_order E clk order receipt match_timestamp_us guard =
     (case persist (append_order_accepted (env_store E) order receipt match_timestamp_us) guard of
        (guard, Inl e) \<Rightarrow> (guard, Inl e)
      | (guard, Inr _) \<Rightarrow>
          let (guard, matches) = apply_accepted_order_locally E clk order receipt match_timestamp_us True guard
          in (guard, Inr matches))"

definition replay_accepted_order ::
    "('c, 'd) api_env \<Rightarrow> clock \<Rightarrow> order \<Rightarrow> order_receipt \<Rightarrow> u64 option \<Rightarrow> ('c, 'd) app_state \<Rightarrow> ('c, 'd) app_state" where
  "replay_accepted_order E clk order receipt match_timestamp_us guard =
     fst (apply_accepted_order_locally E clk order receipt match_timestamp_us False guard)"

text \<open>Both callers have checked that there is a sequencer, so the \<^verbatim>\<open>unwrap\<close> does not panic.\<close>

definition queue_for_sequencing ::
    "('c, 'd) api_env \<Rightarrow> order \<Rightarrow> order_receipt \<Rightarrow> ('c, 'd) app_state \<Rightarrow> ('c, 'd) app_state \<times> (string + unit)" where
  "queue_for_sequencing E order receipt guard =
     (case persist (append_order_queued (env_store E) order receipt) guard of
        (guard, Inl e) \<Rightarrow> (guard, Inl e)
      | (guard, Inr _) \<Rightarrow>
          (guard\<lparr>a_order_sequencer := map_option (seq_add (o_id order)) (a_order_sequencer guard),
                 a_pending_order_data := AList.update (o_id order) (order, receipt) (a_pending_order_data guard)\<rparr>,
           Inr ()))"

section \<open>Submitting an order\<close>

record submit_order_request =
  q_trader :: bytes32
  q_symbol :: string
  q_side :: order_side
  q_price :: u64
  q_amount :: u64
  q_signature :: bytes
  q_nonce :: u64
  q_expiry :: u64
  q_settlement_preference :: settlement_preference
  q_settlement_requester :: settlement_requester

datatype submit_error = InvalidSignature | AlreadySubmitted | NotRecorded string

record submit_order_response =
  resp_success :: bool
  resp_order_id :: bytes32
  resp_matches :: "match_rec list"
  resp_error :: "submit_error option"
  resp_receipt :: "order_receipt option"
  resp_pending :: bool

definition order_id_of :: "submit_order_request \<Rightarrow> bytes32" where
  "order_id_of payload = take 16 (q_trader payload) @ be_bytes (q_nonce payload) @ replicate 8 0"

definition order_of :: "submit_order_request \<Rightarrow> order" where
  "order_of payload =
     \<lparr>o_id = order_id_of payload, o_trader = q_trader payload, o_symbol = q_symbol payload,
      o_side = q_side payload, o_price = q_price payload, o_amount = q_amount payload,
      o_signature = q_signature payload, o_nonce = q_nonce payload, o_expiry = q_expiry payload,
      o_settlement_preference = q_settlement_preference payload,
      o_settlement_requester = q_settlement_requester payload\<rparr>"

definition rejected :: "bytes32 \<Rightarrow> submit_error \<Rightarrow> submit_order_response" where
  "rejected order_id err =
     \<lparr>resp_success = False, resp_order_id = order_id, resp_matches = [], resp_error = Some err, resp_receipt = None, resp_pending = False\<rparr>"

definition receipt_for :: "('c, 'd) api_env \<Rightarrow> clock \<Rightarrow> order \<Rightarrow> ('c, 'd) app_state \<Rightarrow> order_receipt" where
  "receipt_for E clk order guard =
     sign_receipt (env_ed E) (clk_us clk) (a_receipt_signing_key guard) (o_id order) (o_trader order) (o_symbol order)
       (o_side order) (o_price order) (o_amount order) (o_nonce order) (o_expiry order)
       (o_settlement_preference order) (o_settlement_requester order)"

definition known_order :: "bytes32 \<Rightarrow> ('c, 'd) app_state \<Rightarrow> bool" where
  "known_order order_id guard \<longleftrightarrow>
     map_of (a_pending_order_data guard) order_id \<noteq> None \<or> order_id \<in> a_applied_order_ids guard"

definition submit_order ::
    "('c, 'd) api_env \<Rightarrow> clock \<Rightarrow> submit_order_request \<Rightarrow> ('c, 'd) app_state \<Rightarrow> ('c, 'd) app_state \<times> submit_order_response" where
  "submit_order E clk payload guard =
     (let order_id = order_id_of payload;
          order = order_of payload;
          (validator, valid) = validate_order (env_ed E) (env_lru E) (clk_secs clk) order (a_validator guard);
          guard = guard\<lparr>a_validator := validator\<rparr>
      in if \<not> valid then (guard, rejected order_id InvalidSignature)
         else let receipt = receipt_for E clk order guard
         in if a_order_sequencer guard \<noteq> None
            then if known_order order_id guard then (guard, rejected order_id AlreadySubmitted)
                 else case queue_for_sequencing E order receipt guard of
                   (guard, Inl e) \<Rightarrow> (guard, rejected order_id (NotRecorded e))
                 | (guard, Inr _) \<Rightarrow>
                     (guard, \<lparr>resp_success = True, resp_order_id = order_id, resp_matches = [], resp_error = None,
                              resp_receipt = Some receipt, resp_pending = True\<rparr>)
            else case apply_accepted_order E clk order receipt None guard of
                   (guard, Inl e) \<Rightarrow> (guard, rejected order_id (NotRecorded e))
                 | (guard, Inr matches) \<Rightarrow>
                     (guard, \<lparr>resp_success = True, resp_order_id = order_id, resp_matches = matches, resp_error = None,
                              resp_receipt = Some receipt, resp_pending = False\<rparr>))"

section \<open>Confirming a commit\<close>

definition confirm_committed_locally :: "match_rec \<Rightarrow> bytes32 \<Rightarrow> ('c, 'd) app_state \<Rightarrow> ('c, 'd) app_state" where
  "confirm_committed_locally m trade_hash guard =
     (let key = trade_key_of m;
          trade_value = m_price m * m_amount m
      in guard\<lparr>a_confirmed_trade_hashes := AList.update key trade_hash (a_confirmed_trade_hashes guard),
               a_batcher := enqueue m (batcher_deposit (m_taker_trader m) (m_symbol m) trade_value (a_batcher guard))\<rparr>)"

datatype confirm_error = NoPendingMatch | ConfirmNotRecorded string

definition confirm_committed ::
    "('c, 'd) api_env \<Rightarrow> trade_key \<Rightarrow> bytes32 \<Rightarrow> ('c, 'd) app_state \<Rightarrow> ('c, 'd) app_state \<times> confirm_error option" where
  "confirm_committed E key trade_hash guard =
     (case map_of (a_pending_commits guard) key of
        None \<Rightarrow> (guard, Some NoPendingMatch)
      | Some m \<Rightarrow>
          let guard = guard\<lparr>a_pending_commits := AList.delete key (a_pending_commits guard)\<rparr>
          in case persist (append_commit_confirmed (env_store E) m trade_hash) guard of
               (guard, Inl e) \<Rightarrow>
                 (guard\<lparr>a_pending_commits := AList.update key m (a_pending_commits guard)\<rparr>, Some (ConfirmNotRecorded e))
             | (guard, Inr _) \<Rightarrow> (confirm_committed_locally m trade_hash guard, None))"

section \<open>Gossiped orders\<close>

text \<open>One iteration of \<^verbatim>\<open>run_gossip_replication_loop\<close>, for one flood message.\<close>

definition gossip_step :: "('c, 'd) api_env \<Rightarrow> clock \<Rightarrow> flood_message \<Rightarrow> ('c, 'd) app_state \<Rightarrow> ('c, 'd) app_state" where
  "gossip_step E clk flood_msg guard =
     (let order = f_order flood_msg
      in if a_order_sequencer guard = None then guard
         else if known_order (o_id order) guard then guard
         else let (validator, valid) = validate_order (env_ed E) (env_lru E) (clk_secs clk) order (a_validator guard);
                  guard = guard\<lparr>a_validator := validator\<rparr>
              in if \<not> valid then guard
                 else fst (queue_for_sequencing E order (receipt_for E clk order guard) guard))"

section \<open>Sequencing\<close>

definition match_timestamp :: "evidence \<Rightarrow> bytes32 \<Rightarrow> u64 option" where
  "match_timestamp evidence order_id =
     map_option (\<lambda>(_, estimate_ms). word_of_f64 (fmul estimate_ms (lit 1000))) (map_of evidence order_id)"

definition apply_resolved ::
    "('c, 'd) api_env \<Rightarrow> clock \<Rightarrow> evidence \<Rightarrow> bytes32 \<Rightarrow> ('c, 'd) app_state \<Rightarrow> ('c, 'd) app_state" where
  "apply_resolved E clk evidence order_id guard =
     (case map_of (a_pending_order_data guard) order_id of
        None \<Rightarrow> guard
      | Some (order, receipt) \<Rightarrow>
          fst (apply_accepted_order E clk order receipt (match_timestamp evidence order_id)
                 (guard\<lparr>a_pending_order_data := AList.delete order_id (a_pending_order_data guard)\<rparr>)))"

definition apply_resolved_batch ::
    "('c, 'd) api_env \<Rightarrow> clock \<Rightarrow> bytes32 list \<Rightarrow> evidence \<Rightarrow> ('c, 'd) app_state \<Rightarrow> ('c, 'd) app_state" where
  "apply_resolved_batch E clk resolved evidence guard = fold (apply_resolved E clk evidence) resolved guard"

text \<open>
  One round of \<^verbatim>\<open>run_order_sequencing_loop\<close>, in the two sections that hold the lock: flushing the
  queue, and acting on the confirmation that arrived for the proposed batch (\<open>None\<close> after the
  timeout). The evidence is what the mesh node answered in between.
\<close>

definition flush_pending :: "('c, 'd) api_env \<Rightarrow> evidence \<Rightarrow> ('c, 'd) app_state \<Rightarrow> ('c, 'd) app_state \<times> bytes32 list" where
  "flush_pending E evidence guard = (case a_order_sequencer guard of
     None \<Rightarrow> (guard, [])
   | Some seq \<Rightarrow> let (seq, resolved) = flush (env_sha E) evidence seq
                in (guard\<lparr>a_order_sequencer := Some seq\<rparr>, resolved))"

text \<open>
  The confirmations waiting in the channel: those of other batches are skipped, an exhausted channel
  stands for the timeout.
\<close>

fun wait_for_batch_confirmation :: "bytes32 \<Rightarrow> (bytes32 \<times> bytes32) list \<Rightarrow> bytes32 option" where
  "wait_for_batch_confirmation batch_key [] = None"
| "wait_for_batch_confirmation batch_key ((k, h) # rest) =
     (if k = batch_key then Some h else wait_for_batch_confirmation batch_key rest)"

definition resolve_batch ::
    "('c, 'd) api_env \<Rightarrow> clock \<Rightarrow> bytes32 list \<Rightarrow> evidence \<Rightarrow> bytes32 option \<Rightarrow> ('c, 'd) app_state \<Rightarrow> ('c, 'd) app_state" where
  "resolve_batch E clk resolved evidence confirmed guard = (case confirmed of
     Some agreed_hash \<Rightarrow>
       if agreed_hash = compute_proposal_hash (env_sha E) resolved
       then apply_resolved_batch E clk resolved evidence guard
       else guard\<lparr>a_order_sequencer := map_option (fold seq_add resolved) (a_order_sequencer guard)\<rparr>
   | None \<Rightarrow> apply_resolved_batch E clk resolved evidence guard)"

section \<open>Queries\<close>

record order_book_response =
  ob_symbol :: string
  ob_bids :: "(u64 \<times> u64) list"
  ob_asks :: "(u64 \<times> u64) list"

definition price_levels :: "levels \<Rightarrow> (u64 \<times> u64) list" where
  "price_levels = map (\<lambda>(price, orders). (price, sum_list (map o_amount orders)))"

definition get_orderbook :: "('c, 'd) app_state \<Rightarrow> order_book_response" where
  "get_orderbook guard =
     \<lparr>ob_symbol = symbol (a_order_book guard),
      ob_bids = price_levels (bids (a_order_book guard)), ob_asks = price_levels (asks (a_order_book guard))\<rparr>"

definition order_log_root :: "('c, 'd) app_state \<Rightarrow> bytes32 \<times> u64" where
  "order_log_root guard = (log_root (a_order_log guard), next_seq (a_order_log guard))"

definition match_log_root :: "('c, 'd) app_state \<Rightarrow> bytes32 \<times> u64" where
  "match_log_root guard = (log_root (a_match_log guard), next_seq (a_match_log guard))"

text \<open>The archive followed by the hot window, when the range starts before the hot window.\<close>

definition spanning_entries ::
    "(u64 \<Rightarrow> ('d, 'a log_entry list) io) \<Rightarrow> u64 \<Rightarrow> 'a hash_chain_log \<Rightarrow> ('c, 'd) app_state \<Rightarrow>
     ('c, 'd) app_state \<times> (string + 'a log_entry list)" where
  "spanning_entries archived_since since hot guard =
     (let hot_base_seq = next_seq hot - log_len hot;
          hot_entries = entries_since since hot
      in if hot_base_seq \<le> since then (guard, Inr hot_entries)
         else case a_persistence guard of
           None \<Rightarrow> (guard, Inr hot_entries)
         | Some d \<Rightarrow> (case archived_since since d of
             (d, Inl e) \<Rightarrow> (guard\<lparr>a_persistence := Some d\<rparr>, Inl e)
           | (d, Inr archived) \<Rightarrow> (guard\<lparr>a_persistence := Some d\<rparr>, Inr (archived @ hot_entries))))"

definition order_log_entries ::
    "('c, 'd) api_env \<Rightarrow> u64 \<Rightarrow> ('c, 'd) app_state \<Rightarrow> ('c, 'd) app_state \<times> (string + order_receipt log_entry list)" where
  "order_log_entries E since guard =
     spanning_entries (archived_order_log_entries_since (env_store E)) since (a_order_log guard) guard"

definition match_log_entries ::
    "('c, 'd) api_env \<Rightarrow> u64 \<Rightarrow> ('c, 'd) app_state \<Rightarrow> ('c, 'd) app_state \<times> (string + match_rec log_entry list)" where
  "match_log_entries E since guard =
     spanning_entries (archived_match_log_entries_since (env_store E)) since (a_match_log guard) guard"

section \<open>Authorisation and trader streams\<close>

unbundle bit_operations_syntax

definition constant_time_eq :: "string \<Rightarrow> string \<Rightarrow> bool" where
  "constant_time_eq a b =
     (let (a, b) = (as_bytes a, as_bytes b)
      in if length a \<noteq> length b then False
         else fold (\<lambda>(x, y) acc. acc OR (x XOR y)) (zip a b) 0 = 0)"

text \<open>The header's value, when it is present and text; the handler runs exactly on success.\<close>

definition check_auth :: "string \<Rightarrow> string option \<Rightarrow> bool" where
  "check_auth api_key header = (case header of Some v \<Rightarrow> constant_time_eq v api_key | None \<Rightarrow> False)"

text \<open>\<^verbatim>\<open>trim_start_matches\<close> removes its pattern as often as it occurs.\<close>

fun trim_start_0 :: "char \<Rightarrow> string \<Rightarrow> string" where
  "trim_start_0 x (a # b # s) = (if a = CHR ''0'' \<and> b = x then trim_start_0 x s else a # b # s)"
| "trim_start_0 x s = s"

definition parse_trader_hex :: "(string \<Rightarrow> bytes option) \<Rightarrow> string \<Rightarrow> bytes32 option" where
  "parse_trader_hex hex_decode s =
     (case hex_decode (trim_start_0 CHR ''X'' (trim_start_0 CHR ''x'' s)) of
        None \<Rightarrow> None
      | Some bytes \<Rightarrow> if length bytes = 32 then Some bytes else None)"

text \<open>
  The loop of a trader's socket over the broadcast matches. \<open>to_string\<close> is the JSON encoding, \<open>alive\<close>
  tells how many more messages the socket takes before it reports that it is closed.
\<close>

fun trader_socket :: "(match_rec \<Rightarrow> string option) \<Rightarrow> bytes32 \<Rightarrow> match_rec list \<Rightarrow> nat \<Rightarrow> string list" where
  "trader_socket to_string trader [] alive = []"
| "trader_socket to_string trader (msg # msgs) alive =
     (if m_maker_trader msg \<noteq> trader \<and> m_taker_trader msg \<noteq> trader then trader_socket to_string trader msgs alive
      else case to_string msg of
        None \<Rightarrow> trader_socket to_string trader msgs alive
      | Some serialized \<Rightarrow>
          if alive = 0 then [] else serialized # trader_socket to_string trader msgs (alive - 1))"

end
