(* ===== verification/Recovery.thy ===== *)
theory Recovery
  imports Server
begin

text \<open>
  Recovery at boot (\<^verbatim>\<open>replay_persistence_log\<close>, \<^verbatim>\<open>apply_snapshot\<close>, \<^verbatim>\<open>load_persistence\<close> of
  \<^verbatim>\<open>server.rs\<close>) and the snapshot loop (\<^verbatim>\<open>snapshot_loop.rs\<close>), with the state that the write-ahead
  log determines: \<open>core\<close> is that state and \<open>core_step\<close> its transition for one entry. Replaying a log
  and running the handlers that wrote it both implement the same sequence of \<open>core_step\<close>s.
\<close>

section \<open>Replay\<close>

record replay_summary =
  entries_replayed :: nat
  reconciliation_candidates :: "(match_rec \<times> bytes32) list"

definition settled_keys :: "wal_entry list \<Rightarrow> trade_key set" where
  "settled_keys entries =
     fold (\<lambda>entry acc. case entry of BatchSubmitted keys \<Rightarrow> acc \<union> set keys | _ \<Rightarrow> acc) entries {}"

type_synonym ('c, 'd) replay_state =
  "('c, 'd) app_state \<times> (order \<times> order_receipt) list \<times> (match_rec \<times> bytes32) list"

definition replay_entry ::
    "('c, 'd) api_env \<Rightarrow> clock \<Rightarrow> trade_key set \<Rightarrow> wal_entry \<Rightarrow> ('c, 'd) replay_state \<Rightarrow> ('c, 'd) replay_state" where
  "replay_entry E clk settled entry st = (case st of (guard, queued_orders, candidates) \<Rightarrow>
     (case entry of
        OrderAccepted order receipt match_timestamp_us \<Rightarrow>
          (replay_accepted_order E clk order receipt match_timestamp_us guard, queued_orders, candidates)
      | CommitConfirmed m trade_hash \<Rightarrow>
          let key = trade_key_of m;
              guard = guard\<lparr>a_pending_commits := AList.delete key (a_pending_commits guard)\<rparr>
          in if key \<notin> settled
             then (confirm_committed_locally m trade_hash guard, queued_orders, candidates @ [(m, trade_hash)])
             else (guard, queued_orders, candidates)
      | BatchSubmitted _ \<Rightarrow> (guard, queued_orders, candidates)
      | OrderQueued order receipt \<Rightarrow> (guard, queued_orders @ [(order, receipt)], candidates)))"

definition requeue :: "order \<times> order_receipt \<Rightarrow> ('c, 'd) app_state \<Rightarrow> ('c, 'd) app_state" where
  "requeue q guard = (case q of (order, receipt) \<Rightarrow>
     if o_id order \<in> a_applied_order_ids guard then guard
     else case a_order_sequencer guard of
       None \<Rightarrow> guard
     | Some seq \<Rightarrow>
         guard\<lparr>a_order_sequencer := Some (seq_add (o_id order) seq),
               a_pending_order_data := AList.update (o_id order) (order, receipt) (a_pending_order_data guard)\<rparr>)"

definition replay_entries ::
    "('c, 'd) api_env \<Rightarrow> clock \<Rightarrow> wal_entry list \<Rightarrow> ('c, 'd) app_state \<Rightarrow> ('c, 'd) app_state \<times> replay_summary" where
  "replay_entries E clk entries guard =
     (let (guard, queued_orders, candidates) =
            fold (replay_entry E clk (settled_keys entries)) entries (guard, [], [])
      in (fold requeue queued_orders guard,
          \<lparr>entries_replayed = length entries, reconciliation_candidates = candidates\<rparr>))"

definition replay_persistence_log ::
    "('c, 'd) api_env \<Rightarrow> clock \<Rightarrow> 'd \<Rightarrow> u64 option \<Rightarrow> ('c, 'd) app_state \<Rightarrow>
     string + ('c, 'd) app_state \<times> replay_summary" where
  "replay_persistence_log E clk d after_seq guard = (case replay (env_store E) after_seq d of
     Inl e \<Rightarrow> Inl e
   | Inr entries \<Rightarrow> Inr (replay_entries E clk entries guard))"

section \<open>Snapshots\<close>

text \<open>\<^verbatim>\<open>into_iter().collect()\<close> of a map as a list of pairs.\<close>

definition collect_map :: "('k \<times> 'v) list \<Rightarrow> ('k, 'v) hash_map" where
  "collect_map kvs = fold (\<lambda>(k, v). AList.update k v) kvs []"

definition apply_snapshot :: "snapshot \<Rightarrow> ('c, 'd) app_state \<Rightarrow> ('c, 'd) app_state" where
  "apply_snapshot snap guard =
     guard\<lparr>a_order_book := restore_active_nodes_cursor (sn_active_nodes_cursor snap)
             ((a_order_book guard)\<lparr>bids := sn_order_book_bids snap, asks := sn_order_book_asks snap\<rparr>),
           a_order_log := sn_order_log snap,
           a_match_log := sn_match_log snap,
           a_pending_commits := collect_map (sn_pending_commits snap),
           a_confirmed_trade_hashes := collect_map (sn_confirmed_trade_hashes snap),
           a_applied_order_ids := sn_applied_order_ids snap,
           a_batcher := fold enqueue (sn_queued_trades snap) (a_batcher guard)\<rparr>"

definition build_snapshot :: "('c, 'd) app_state \<Rightarrow> snapshot" where
  "build_snapshot guard =
     \<lparr>sn_order_book_bids = bids (a_order_book guard),
      sn_order_book_asks = asks (a_order_book guard),
      sn_active_nodes_cursor = active_nodes_cursor (a_order_book guard),
      sn_order_log = a_order_log guard,
      sn_match_log = a_match_log guard,
      sn_pending_commits = a_pending_commits guard,
      sn_confirmed_trade_hashes = a_confirmed_trade_hashes guard,
      sn_applied_order_ids = a_applied_order_ids guard,
      sn_queued_trades = queued_trades (a_batcher guard)\<rparr>"

definition load_persistence ::
    "('c, 'd) api_env \<Rightarrow> clock \<Rightarrow> 'd \<Rightarrow> ('c, 'd) app_state \<Rightarrow> 'd \<times> (string + ('c, 'd) app_state \<times> replay_summary)" where
  "load_persistence E clk d guard = (case load_snapshot (env_store E) d of
     (d, Inl e) \<Rightarrow> (d, Inl e)
   | (d, Inr (Some (snap, covers_up_to_seq))) \<Rightarrow>
       (d, replay_persistence_log E clk d (Some covers_up_to_seq) (apply_snapshot snap guard))
   | (d, Inr None) \<Rightarrow> (d, replay_persistence_log E clk d None guard))"

section \<open>The snapshot loop\<close>

text \<open>
  Archiving the entries of a log beyond its hot window: the log is replaced only when the archive
  took them. The two functions of the code differ in the log only.
\<close>

definition archive_and_trim ::
    "('a log_entry list \<Rightarrow> ('d, unit) io) \<Rightarrow> usize \<Rightarrow> 'a hash_chain_log \<Rightarrow> 'd \<Rightarrow> 'd \<times> 'a hash_chain_log" where
  "archive_and_trim archive hot_window_size chain_log d =
     (if log_len chain_log \<le> hot_window_size then (d, chain_log)
      else let keep_from_seq = next_seq chain_log - hot_window_size;
               (archived, hot) = split_off_archived keep_from_seq chain_log
           in case archive archived d of
                (d, Inr _) \<Rightarrow> (d, hot)
              | (d, Inl e) \<Rightarrow> (d, chain_log))"

definition archive_and_trim_order_log :: "('c, 'd) api_env \<Rightarrow> usize \<Rightarrow> 'd \<Rightarrow> ('c, 'd) app_state \<Rightarrow> ('c, 'd) app_state" where
  "archive_and_trim_order_log E hot_window_size d guard =
     (let (d, chain_log) = archive_and_trim (archive_order_log_entries (env_store E)) hot_window_size (a_order_log guard) d
      in guard\<lparr>a_order_log := chain_log, a_persistence := Some d\<rparr>)"

definition archive_and_trim_match_log :: "('c, 'd) api_env \<Rightarrow> usize \<Rightarrow> 'd \<Rightarrow> ('c, 'd) app_state \<Rightarrow> ('c, 'd) app_state" where
  "archive_and_trim_match_log E hot_window_size d guard =
     (let (d, chain_log) = archive_and_trim (archive_match_log_entries (env_store E)) hot_window_size (a_match_log guard) d
      in guard\<lparr>a_match_log := chain_log, a_persistence := Some d\<rparr>)"

text \<open>
  One cycle has three steps, between which other handlers can run: capturing the snapshot under the
  lock, saving it, and truncating the log after a successful save.
\<close>

definition capture_snapshot ::
    "('c, 'd) api_env \<Rightarrow> usize \<Rightarrow> ('c, 'd) app_state \<Rightarrow> ('c, 'd) app_state \<times> (snapshot \<times> u64) option" where
  "capture_snapshot E hot_window_size guard = (case a_persistence guard of
     None \<Rightarrow> (guard, None)
   | Some d \<Rightarrow>
       let guard = archive_and_trim_order_log E hot_window_size d guard;
           guard = archive_and_trim_match_log E hot_window_size (the (a_persistence guard)) guard
       in case latest_seq (env_store E) (the (a_persistence guard)) of
            Inr (Some seq) \<Rightarrow> (guard, Some (build_snapshot guard, seq))
          | _ \<Rightarrow> (guard, None))"

definition write_snapshot :: "('c, 'd) api_env \<Rightarrow> snapshot \<Rightarrow> u64 \<Rightarrow> ('c, 'd) app_state \<Rightarrow> ('c, 'd) app_state \<times> bool" where
  "write_snapshot E snap seq guard =
     (case persist (save_snapshot (env_store E) snap seq) guard of
        (guard, Inr _) \<Rightarrow> (guard, True)
      | (guard, Inl e) \<Rightarrow> (guard, False))"

definition truncate_covered :: "('c, 'd) api_env \<Rightarrow> u64 \<Rightarrow> ('c, 'd) app_state \<Rightarrow> ('c, 'd) app_state" where
  "truncate_covered E seq guard = (case a_persistence guard of
     None \<Rightarrow> guard
   | Some d \<Rightarrow> guard\<lparr>a_persistence := Some (fst (truncate_up_to (env_store E) seq d))\<rparr>)"

section \<open>The state the log determines\<close>

text \<open>Matching reads and changes everything of a book but its accumulated rewards.\<close>

definition core_book :: "order_book \<Rightarrow> order_book" where
  "core_book b = b\<lparr>node_rewards := 0\<rparr>"

definition same_fill :: "fill_state \<Rightarrow> fill_state \<Rightarrow> bool" where
  "same_fill st st' \<longleftrightarrow> core_book (fst st) = core_book (fst st') \<and> snd st = snd st'"

lemma core_book_eq:
  "core_book b = core_book b' \<longleftrightarrow> symbol b = symbol b' \<and> bids b = bids b' \<and> asks b = asks b'
     \<and> active_nodes b = active_nodes b' \<and> next_node_index b = next_node_index b' \<and> fee_calc b = fee_calc b'"
  by (cases b; cases b') (auto simp: core_book_def)

lemma core_book_idem [simp]: "core_book (core_book b) = core_book b"
  by (simp add: core_book_def)

lemma same_fill_maker:
  "same_fill st st' \<Longrightarrow> fst (fill_maker ts p mk st) = fst (fill_maker ts p mk st')
     \<and> same_fill (snd (fill_maker ts p mk st)) (snd (fill_maker ts p mk st'))"
  by (cases st; cases st') (auto simp: same_fill_def core_book_eq fill_maker_def Let_def split: prod.splits)

lemma same_fill_level:
  "same_fill st st' \<Longrightarrow> fst (fill_level ts p i os st) = fst (fill_level ts p i os st')
     \<and> snd (snd (fill_level ts p i os st)) = snd (snd (fill_level ts p i os st'))
     \<and> same_fill (fst (snd (fill_level ts p i os st))) (fst (snd (fill_level ts p i os st')))"
proof (induction os arbitrary: i st st')
  case (Cons mk os)
  obtain b o1 ms b' where st: "st = (b, o1, ms)" "st' = (b', o1, ms)"
    using Cons.prems by (cases st; cases st') (auto simp: same_fill_def)
  note m = same_fill_maker [OF Cons.prems, of ts p mk]
  note skip = Cons.IH [OF Cons.prems, of "i + 1"] and fill = Cons.IH [OF conjunct2 [OF m], of "i + 1"]
  show ?case using skip fill conjunct1 [OF m] Cons.prems unfolding st
    by (auto simp: Let_def split: prod.splits)
qed simp

lemma same_fill_asks:
  "same_fill st st' \<Longrightarrow> fst (fill_asks ts ls st) = fst (fill_asks ts ls st')
     \<and> snd (snd (fill_asks ts ls st)) = snd (snd (fill_asks ts ls st'))
     \<and> same_fill (fst (snd (fill_asks ts ls st))) (fst (snd (fill_asks ts ls st')))"
proof (induction ls arbitrary: st st')
  case (Cons l ls)
  obtain q os where l: "l = (q, os)" by (cases l)
  obtain b o1 ms b' where st: "st = (b, o1, ms)" "st' = (b', o1, ms)"
    using Cons.prems by (cases st; cases st') (auto simp: same_fill_def)
  note lv = same_fill_level [OF Cons.prems, of ts q 0 os]
  note rest = Cons.IH [OF conjunct2 [OF conjunct2 [OF lv]]]
  show ?case using lv rest Cons.prems unfolding st l by (auto simp: Let_def split: prod.splits)
qed simp

lemma same_fill_bids:
  "same_fill st st' \<Longrightarrow> fst (fill_bids ts ps bs st) = fst (fill_bids ts ps bs st')
     \<and> snd (snd (fill_bids ts ps bs st)) = snd (snd (fill_bids ts ps bs st'))
     \<and> same_fill (fst (snd (fill_bids ts ps bs st))) (fst (snd (fill_bids ts ps bs st')))"
proof (induction ps arbitrary: bs st st')
  case (Cons q ps)
  obtain b o1 ms b' where st: "st = (b, o1, ms)" "st' = (b', o1, ms)"
    using Cons.prems by (cases st; cases st') (auto simp: same_fill_def)
  show ?case
  proof (cases "map_of bs q")
    case None
    then show ?thesis using Cons.IH [OF Cons.prems] Cons.prems unfolding st by simp
  next
    case (Some os)
    note lv = same_fill_level [OF Cons.prems, of ts q 0 os]
    let ?l = "fill_level ts q 0 os st'"
    note rest = Cons.IH [OF conjunct2 [OF conjunct2 [OF lv]], of "bt_insert q (remove_filled (snd (snd ?l)) (fst ?l)) bs"]
    show ?thesis using lv rest Cons.prems Some unfolding st by (auto simp: Let_def split: prod.splits)
  qed
qed simp

lemma add_order_at_core:
  assumes "core_book b = core_book b'"
  shows "snd (add_order_at order t b) = snd (add_order_at order t b')
    \<and> core_book (fst (add_order_at order t b)) = core_book (fst (add_order_at order t b'))"
proof -
  have b: "asks b = asks b'" "bids b = bids b'" using assms by (simp_all add: core_book_eq)
  have "same_fill (b, order, []) (b', order, [])" using assms by (simp add: same_fill_def)
  note fa = same_fill_asks [OF this, of t "asks b'"]
    and fb = same_fill_bids [OF this, of t "takeWhile (\<lambda>p. o_price order \<le> p) (rev (map fst (bids b')))" "bids b'"]
  show ?thesis
  proof (cases "o_side order")
    case Buy
    then show ?thesis using fa assms b unfolding add_order_at_def
      by (auto simp: Let_def same_fill_def core_book_eq split: prod.splits)
  next
    case Sell
    then show ?thesis using fb assms b unfolding add_order_at_def
      by (auto simp: Let_def same_fill_def core_book_eq split: prod.splits)
  qed
qed

text \<open>Matching never changes the configuration of the book.\<close>

definition book_config :: "order_book \<Rightarrow> string \<times> bytes32 list \<times> fee_calculator" where
  "book_config b = (symbol b, active_nodes b, fee_calc b)"

lemma fill_maker_config: "book_config (fst (snd (fill_maker ts p mk st))) = book_config (fst st)"
  by (cases st) (auto simp: book_config_def fill_maker_def Let_def split: prod.splits)

lemma fill_level_config: "book_config (fst (fst (snd (fill_level ts p i os st)))) = book_config (fst st)"
proof (induction os arbitrary: i st)
  case (Cons mk os)
  show ?case using Cons.IH [of "i + 1" st] Cons.IH [of "i + 1" "snd (fill_maker ts p mk st)"] fill_maker_config [of ts p mk st]
    by (cases st) (auto simp: Let_def split: prod.splits)
qed simp

lemma fill_asks_config: "book_config (fst (fst (snd (fill_asks ts ls st)))) = book_config (fst st)"
proof (induction ls arbitrary: st)
  case (Cons l ls)
  show ?case using Cons.IH [of "fst (snd (fill_level ts (fst l) 0 (snd l) st))"] fill_level_config [of ts "fst l" 0 "snd l" st]
    by (cases st; cases l) (auto simp: Let_def split: prod.splits)
qed simp

lemma fill_bids_config: "book_config (fst (fst (snd (fill_bids ts ps bs st)))) = book_config (fst st)"
proof (induction ps arbitrary: bs st)
  case (Cons q ps)
  let ?l = "fill_level ts q 0 (the (map_of bs q)) st"
  show ?case using Cons.IH [of bs st] Cons.IH [of "bt_insert q (remove_filled (snd (snd ?l)) (fst ?l)) bs" "fst (snd ?l)"]
      fill_level_config [of ts q 0 "the (map_of bs q)" st]
    by (cases st) (auto simp: Let_def split: prod.splits option.splits)
qed simp

lemma add_order_at_config: "book_config (fst (add_order_at order t b)) = book_config b"
  using fill_asks_config [of t "asks b" "(b, order, [])"]
    fill_bids_config [of t "takeWhile (\<lambda>p. o_price order \<le> p) (rev (map fst (bids b)))" "bids b" "(b, order, [])"]
  unfolding add_order_at_def
  by (cases "o_side order") (auto simp: Let_def book_config_def split: prod.splits)

type_synonym tip = "u64 \<times> bytes32"

definition log_tip :: "'a hash_chain_log \<Rightarrow> tip" where
  "log_tip l = (next_seq l, log_root l)"

definition tip_push :: "sha_fn \<Rightarrow> ('a \<Rightarrow> bytes) \<Rightarrow> 'a \<Rightarrow> tip \<Rightarrow> tip" where
  "tip_push sha ser x t = (fst t + 1, compute_entry_hash sha ser (fst t) (snd t) x)"

lemma log_tip_append [simp]: "log_tip (fst (log_append sha ser x l)) = tip_push sha ser x (log_tip l)"
  by (simp add: log_append_def log_tip_def tip_push_def next_seq_def log_root_def Let_def last_hash_append)

record core =
  c_book :: order_book
  c_order_tip :: tip
  c_match_tip :: tip
  c_pending :: "trade_key \<rightharpoonup> match_rec"
  c_applied :: "bytes32 set"

definition core_of :: "('c, 'd) app_state \<Rightarrow> core" where
  "core_of g = \<lparr>c_book = core_book (a_order_book g), c_order_tip = log_tip (a_order_log g),
     c_match_tip = log_tip (a_match_log g), c_pending = map_of (a_pending_commits g), c_applied = a_applied_order_ids g\<rparr>"

definition core_match :: "('c, 'd) api_env \<Rightarrow> match_rec \<Rightarrow> core \<Rightarrow> core" where
  "core_match E m c = c\<lparr>c_match_tip := tip_push (env_sha E) (env_ser_match E) m (c_match_tip c),
     c_pending := (c_pending c)(trade_key_of m \<mapsto> m)\<rparr>"

definition core_accept :: "('c, 'd) api_env \<Rightarrow> order \<Rightarrow> order_receipt \<Rightarrow> u64 \<Rightarrow> core \<Rightarrow> core" where
  "core_accept E order receipt t c =
     (let (b, ms) = add_order_at order t (c_book c)
      in fold (core_match E) ms
           (c\<lparr>c_book := core_book b, c_order_tip := tip_push (env_sha E) (env_ser_receipt E) receipt (c_order_tip c),
              c_applied := insert (o_id order) (c_applied c)\<rparr>))"

text \<open>\<open>now\<close> is the clock an entry without a timestamp is matched at.\<close>

definition core_step :: "('c, 'd) api_env \<Rightarrow> u64 \<Rightarrow> wal_entry \<Rightarrow> core \<Rightarrow> core" where
  "core_step E now entry c = (case entry of
     OrderAccepted order receipt ts \<Rightarrow> core_accept E order receipt (case ts of Some t \<Rightarrow> t | None \<Rightarrow> now) c
   | CommitConfirmed m h \<Rightarrow> c\<lparr>c_pending := (c_pending c)(trade_key_of m := None)\<rparr>
   | _ \<Rightarrow> c)"

definition core_run :: "('c, 'd) api_env \<Rightarrow> u64 \<Rightarrow> wal_entry list \<Rightarrow> core \<Rightarrow> core" where
  "core_run E now entries = fold (core_step E now) entries"

text \<open>Updates of the other components.\<close>

lemma core_of_update [simp]:
  "core_of (g\<lparr>a_validator := v\<rparr>) = core_of g" "core_of (g\<lparr>a_ws_sent := w\<rparr>) = core_of g"
  "core_of (g\<lparr>a_reputation := r\<rparr>) = core_of g" "core_of (g\<lparr>a_confirmed_trade_hashes := h\<rparr>) = core_of g"
  "core_of (g\<lparr>a_batcher := b\<rparr>) = core_of g" "core_of (g\<lparr>a_mesh_sent := ms\<rparr>) = core_of g"
  "core_of (g\<lparr>a_order_sequencer := q\<rparr>) = core_of g" "core_of (g\<lparr>a_pending_order_data := pd\<rparr>) = core_of g"
  "core_of (g\<lparr>a_persistence := p\<rparr>) = core_of g"
  by (simp_all add: core_of_def)

lemma core_pending_update [simp]:
  "core_of (g\<lparr>a_pending_commits := AList.delete k (a_pending_commits g)\<rparr>) = (core_of g)\<lparr>c_pending := (c_pending (core_of g))(k := None)\<rparr>"
  "core_of (g\<lparr>a_pending_commits := AList.update k v (a_pending_commits g)\<rparr>) = (core_of g)\<lparr>c_pending := (c_pending (core_of g))(k \<mapsto> v)\<rparr>"
  by (simp_all add: core_of_def delete_conv' update_conv')

lemma core_record_match: "core_of (record_match E clk m g) = core_match E m (core_of g)"
  by (simp add: record_match_def core_of_def core_match_def fun_eq_iff update_conv)

lemma core_record_matches: "core_of (fold (record_match E clk) ms g) = fold (core_match E) ms (core_of g)"
  by (induction ms arbitrary: g) (simp_all add: core_record_match)

lemma core_flood [simp]: "core_of (flood_accepted clk order e g) = core_of g"
  by (simp add: flood_accepted_def Let_def split: option.splits)

lemma core_apply_locally:
  "core_of (fst (apply_accepted_order_locally E clk order receipt ts flood g)) =
     core_accept E order receipt (case ts of Some t \<Rightarrow> t | None \<Rightarrow> clk_us clk) (core_of g)"
proof -
  let ?t = "case ts of Some t \<Rightarrow> t | None \<Rightarrow> clk_us clk"
  obtain b ms where ao: "add_order_at order ?t (a_order_book g) = (b, ms)" by (cases "add_order_at order ?t (a_order_book g)")
  obtain b' where ao': "add_order_at order ?t (core_book (a_order_book g)) = (b', ms)" "core_book b' = core_book b"
    using add_order_at_core [of "a_order_book g" "core_book (a_order_book g)" order ?t] ao
    by (cases "add_order_at order ?t (core_book (a_order_book g))") auto
  let ?g = "(let g1 = g\<lparr>a_applied_order_ids := insert (o_id order) (a_applied_order_ids g)\<rparr>;
                 g2 = g1\<lparr>a_order_log := fst (log_append (env_sha E) (env_ser_receipt E) receipt (a_order_log g))\<rparr>
             in if flood then flood_accepted clk order (snd (log_append (env_sha E) (env_ser_receipt E) receipt (a_order_log g))) g2 else g2)"
  have bk: "a_order_book ?g = a_order_book g" by (simp add: flood_accepted_def Let_def split: option.splits)
  have "fst (apply_accepted_order_locally E clk order receipt ts flood g) = fold (record_match E clk) ms (?g\<lparr>a_order_book := b\<rparr>)"
    using ao bk unfolding apply_accepted_order_locally_def
    by (auto simp: Let_def add_order_def split: prod.splits option.splits)
  moreover have "core_of (?g\<lparr>a_order_book := b\<rparr>) =
      (core_of g)\<lparr>c_book := core_book b, c_order_tip := tip_push (env_sha E) (env_ser_receipt E) receipt (log_tip (a_order_log g)),
        c_applied := insert (o_id order) (a_applied_order_ids g)\<rparr>"
    by (simp add: core_of_def Let_def flood_accepted_def split: option.splits)
  ultimately have "core_of (fst (apply_accepted_order_locally E clk order receipt ts flood g)) = fold (core_match E) ms
      ((core_of g)\<lparr>c_book := core_book b, c_order_tip := tip_push (env_sha E) (env_ser_receipt E) receipt (log_tip (a_order_log g)),
        c_applied := insert (o_id order) (a_applied_order_ids g)\<rparr>)"
    by (simp only: core_record_matches)
  then show ?thesis using ao' by (simp add: core_accept_def core_of_def)
qed

section \<open>Replay runs the core\<close>

lemma core_confirm_locally [simp]: "core_of (confirm_committed_locally m h g) = core_of g"
  by (simp add: confirm_committed_locally_def Let_def)

lemma core_replay_entry: "core_of (fst (replay_entry E clk K e st)) = core_step E (clk_us clk) e (core_of (fst st))"
  by (cases st; cases e)
    (auto simp: replay_entry_def core_step_def replay_accepted_order_def core_apply_locally Let_def)

lemma core_replay_fold: "core_of (fst (fold (replay_entry E clk K) es st)) = core_run E (clk_us clk) es (core_of (fst st))"
  by (induction es arbitrary: st) (simp_all add: core_run_def core_replay_entry)

lemma core_requeue [simp]: "core_of (requeue q g) = core_of g"
  by (simp add: requeue_def split: prod.splits option.splits)

lemma core_requeue_all [simp]: "core_of (fold requeue qs g) = core_of g"
  by (induction qs arbitrary: g) simp_all

lemma core_replay: "core_of (fst (replay_entries E clk es g)) = core_run E (clk_us clk) es (core_of g)"
  using core_replay_fold [of E clk "settled_keys es" es "(g, [], [])"]
  by (auto simp: replay_entries_def split: prod.splits)

text \<open>Entries that carry a timestamp determine the core without the clock.\<close>

definition stamped :: "wal_entry \<Rightarrow> bool" where
  "stamped e \<longleftrightarrow> (\<forall>order receipt. e \<noteq> OrderAccepted order receipt None)"

lemma core_step_clock: "stamped e \<Longrightarrow> core_step E now e c = core_step E now' e c"
  by (auto simp: core_step_def stamped_def split: wal_entry.splits option.splits)

lemma core_run_clock: "\<forall>e \<in> set es. stamped e \<Longrightarrow> core_run E now es c = core_run E now' es c"
  by (induction es arbitrary: c) (auto simp: core_run_def core_step_clock [of _ E now _ now'])

section \<open>Snapshots keep the core\<close>

lemma collect_map_of: "map_of (collect_map kvs) = map_of (rev kvs)"
proof -
  have "map_of (fold (\<lambda>(k, v). AList.update k v) kvs m) = map_of m ++ map_of (rev kvs)" for m :: "('a \<times> 'b) list"
    by (induction kvs arbitrary: m) (auto simp: update_conv' map_add_def fun_eq_iff split: option.splits)
  then show ?thesis by (simp add: collect_map_def)
qed

lemma collect_map_distinct: "distinct (map fst kvs) \<Longrightarrow> map_of (collect_map kvs) = map_of kvs"
  unfolding collect_map_of by (intro map_of_eqI) (auto simp: rev_map [symmetric] map_of_eq_None_iff)

text \<open>The core a snapshot stands for, given the configuration of the book it is loaded into.\<close>

definition snapshot_core :: "order_book \<Rightarrow> snapshot \<Rightarrow> core" where
  "snapshot_core b snap =
     \<lparr>c_book = core_book (b\<lparr>bids := sn_order_book_bids snap, asks := sn_order_book_asks snap,
        next_node_index := sn_active_nodes_cursor snap\<rparr>),
      c_order_tip = log_tip (sn_order_log snap), c_match_tip = log_tip (sn_match_log snap),
      c_pending = map_of (collect_map (sn_pending_commits snap)), c_applied = sn_applied_order_ids snap\<rparr>"

lemma core_apply_snapshot: "core_of (apply_snapshot snap g) = snapshot_core (a_order_book g) snap"
  by (simp add: core_of_def apply_snapshot_def snapshot_core_def restore_active_nodes_cursor_def)

lemma core_build_snapshot:
  assumes "book_config (a_order_book g) = book_config b" and "hm_ok (a_pending_commits g)"
  shows "snapshot_core b (build_snapshot g) = core_of g"
  using assms
  by (simp add: snapshot_core_def core_of_def build_snapshot_def active_nodes_cursor_def collect_map_distinct
      book_config_def core_book_eq)

section \<open>What replay queues\<close>

fun unsettled :: "trade_key set \<Rightarrow> wal_entry \<Rightarrow> (match_rec \<times> bytes32) list" where
  "unsettled K (CommitConfirmed m h) = (if trade_key_of m \<in> K then [] else [(m, h)])"
| "unsettled K _ = []"

definition open_trades :: "wal_entry list \<Rightarrow> (match_rec \<times> bytes32) list" where
  "open_trades es = concat (map (unsettled (settled_keys es)) es)"

lemma settled_keys_eq: "settled_keys es = (\<Union>e \<in> set es. case e of BatchSubmitted keys \<Rightarrow> set keys | _ \<Rightarrow> {})"
proof -
  have "fold (\<lambda>e acc. case e of BatchSubmitted keys \<Rightarrow> acc \<union> set keys | _ \<Rightarrow> acc) es K =
      K \<union> (\<Union>e \<in> set es. case e of BatchSubmitted keys \<Rightarrow> set keys | _ \<Rightarrow> {})" for K
    by (induction es arbitrary: K) (auto split: wal_entry.splits)
  then show ?thesis by (simp add: settled_keys_def)
qed

definition requeue_confirmed :: "match_rec \<times> bytes32 \<Rightarrow> settlement_batcher \<Rightarrow> settlement_batcher" where
  "requeue_confirmed mh b =
     enqueue (fst mh) (batcher_deposit (m_taker_trader (fst mh)) (m_symbol (fst mh)) (m_price (fst mh) * m_amount (fst mh)) b)"

definition settlement_of :: "('c, 'd) app_state \<Rightarrow> settlement_batcher \<times> (trade_key, bytes32) hash_map" where
  "settlement_of g = (a_batcher g, a_confirmed_trade_hashes g)"

lemma settlement_record [simp]: "settlement_of (fold (record_match E clk) ms g) = settlement_of g"
  by (induction ms arbitrary: g) (simp_all add: record_match_def settlement_of_def)

lemma settlement_apply [simp]: "settlement_of (fst (apply_accepted_order_locally E clk o1 r ts False g)) = settlement_of g"
  by (auto simp: apply_accepted_order_locally_def Let_def split: prod.splits option.splits) (simp_all add: settlement_of_def)

definition confirmed_in :: "(match_rec \<times> bytes32) list \<Rightarrow> settlement_batcher \<times> (trade_key, bytes32) hash_map \<Rightarrow>
    settlement_batcher \<times> (trade_key, bytes32) hash_map" where
  "confirmed_in mhs s = (fold requeue_confirmed mhs (fst s), fold (\<lambda>(m, h). AList.update (trade_key_of m) h) mhs (snd s))"

lemma settlement_confirm: "settlement_of (confirm_committed_locally m h g) = confirmed_in [(m, h)] (settlement_of g)"
  by (simp add: confirm_committed_locally_def settlement_of_def confirmed_in_def requeue_confirmed_def Let_def)

lemma confirmed_in_simps: "confirmed_in [] s = s" "confirmed_in (xs @ ys) s = confirmed_in ys (confirmed_in xs s)"
  by (simp_all add: confirmed_in_def)

lemma replay_fold_settlement:
  "settlement_of (fst (fold (replay_entry E clk K) es st)) = confirmed_in (concat (map (unsettled K) es)) (settlement_of (fst st))
   \<and> snd (snd (fold (replay_entry E clk K) es st)) = snd (snd st) @ concat (map (unsettled K) es)"
proof (induction es arbitrary: st)
  case (Cons e es)
  obtain g q c where st: "st = (g, q, c)" by (cases st)
  have "settlement_of (fst (replay_entry E clk K e st)) = confirmed_in (unsettled K e) (settlement_of (fst st))"
    "snd (snd (replay_entry E clk K e st)) = snd (snd st) @ unsettled K e"
    unfolding st by (cases e; auto simp: replay_entry_def replay_accepted_order_def Let_def settlement_confirm confirmed_in_simps;
      simp add: settlement_of_def)+
  then show ?case using Cons.IH [of "replay_entry E clk K e st"] by (simp add: confirmed_in_simps)
qed (simp add: confirmed_in_simps)

lemma settlement_requeue [simp]: "settlement_of (fold requeue qs g) = settlement_of g"
  by (induction qs arbitrary: g) (auto simp: requeue_def settlement_of_def split: option.splits prod.splits)

lemma replay_settlement:
  "settlement_of (fst (replay_entries E clk es g)) = confirmed_in (concat (map (unsettled (settled_keys es)) es)) (settlement_of g)
   \<and> reconciliation_candidates (snd (replay_entries E clk es g)) = concat (map (unsettled (settled_keys es)) es)"
  using replay_fold_settlement [of E clk "settled_keys es" es "(g, [], [])"]
  by (auto simp: replay_entries_def split: prod.splits)

lemma mset_enqueue: "mset (queued_trades (enqueue m b)) = add_mset m (mset (queued_trades b))"
  by (cases "m_settlement_tier m") (simp_all add: enqueue_def queued_trades_def)

lemma queued_trades_deposit [simp]: "queued_trades (batcher_deposit a s v b) = queued_trades b"
  by (simp add: batcher_deposit_def queued_trades_def)

lemma mset_requeue_confirmed: "mset (queued_trades (fold requeue_confirmed mhs b)) = mset (map fst mhs) + mset (queued_trades b)"
  by (induction mhs arbitrary: b) (simp_all add: requeue_confirmed_def mset_enqueue)

lemma map_of_updates:
  "map_of (fold (\<lambda>(m, h). AList.update (f m) h) mhs al) = map_of al ++ map_of (rev (map (\<lambda>(m, h). (f m, h)) mhs))"
  by (induction mhs arbitrary: al) (auto simp: update_conv' map_add_def fun_eq_iff split: option.splits)

section \<open>Properties\<close>


text \<open>
  A checkpoint is matched against the confirmations replayed with it only. A trade confirmed before
  a snapshot and settled after it is still queued, with its hash, when the tail is replayed, and is
  not among the trades to reconcile.
\<close>

lemma checkpoint_after_snapshot_ignored:
  "settlement_of (fst (replay_entries E clk [BatchSubmitted keys] (apply_snapshot snap g))) = settlement_of (apply_snapshot snap g)
   \<and> reconciliation_candidates (snd (replay_entries E clk [BatchSubmitted keys] (apply_snapshot snap g))) = []"
  using replay_settlement [of E clk "[BatchSubmitted keys]" "apply_snapshot snap g"] by (simp add: confirmed_in_simps)

text \<open>A snapshot does not hold the orders queued for sequencing; the entries that do are truncated.\<close>

lemma snapshot_forgets_queued_orders:
  "a_pending_order_data (apply_snapshot (build_snapshot g) fresh) = a_pending_order_data fresh
   \<and> a_order_sequencer (apply_snapshot (build_snapshot g) fresh) = a_order_sequencer fresh"
  by (simp add: apply_snapshot_def)

end
