(* ===== verification/Settlement.thy ===== *)
theory Settlement
  imports Recovery
begin

text \<open>
  The settlement loop of the \<^verbatim>\<open>api\<close> crate (\<^verbatim>\<open>settlement.rs\<close>), the checks of the \<^verbatim>\<open>watchtower\<close> crate it
  runs before a submission, and the interface to a chain (\<^verbatim>\<open>chain\<close> crate).

  The loop is generic in the chain adapter and in the resolver of trader accounts; both are
  arguments here. A chain operation returns the chain after it, so the theorems hold for every
  adapter, whatever it answers. A chunk is handled in one step: handlers that run while a submission
  is awaited are not interleaved with it.
\<close>

section \<open>The chain interface\<close>

type_synonym on_chain_account = bytes32

datatype token = Native | Erc20 string | Spl string | Cw20 string

record settlement_trade =
  st_maker_order_id :: bytes32
  st_taker_order_id :: bytes32
  st_trader :: on_chain_account
  st_counterparty :: on_chain_account
  st_token :: token
  st_amount :: u64
  st_fee :: u64
  st_deadline :: u64
  st_trade_hash :: bytes32
  st_assigned_node :: on_chain_account

record settlement_fee_config =
  fc_fee_recipient :: on_chain_account
  fc_tier :: u8

record 'x chain_adapter =
  submit_settlement_batch :: "settlement_trade list \<Rightarrow> bytes \<Rightarrow> settlement_fee_config \<Rightarrow> 'x \<Rightarrow> 'x \<times> (string + string)"
  submit_missed_deadline_report :: "on_chain_account \<Rightarrow> 'x \<Rightarrow> 'x \<times> (string + unit)"
  is_trade_settled :: "on_chain_account \<Rightarrow> bytes32 \<Rightarrow> 'x \<Rightarrow> 'x \<times> (string + bool)"
  prover_verify :: "bytes \<Rightarrow> trade_batch \<Rightarrow> bool"

type_synonym resolver = "bytes32 \<Rightarrow> on_chain_account option"

section \<open>The watchtower\<close>

record mock_on_chain_state =
  slashed_signers :: "bytes32 list"
  disputes_raised :: nat
  rolled_back :: bool
  settled_batches :: "bytes32 set"
  missed_deadlines :: "bytes32 set"
  mock_fee_violations :: "bytes32 set"
  settled_trades :: "(on_chain_account \<times> bytes32) set"

definition slash_signer :: "bytes32 \<Rightarrow> mock_on_chain_state \<Rightarrow> mock_on_chain_state" where
  "slash_signer signer self = self\<lparr>slashed_signers := slashed_signers self @ [signer]\<rparr>"

definition raise_dispute :: "bytes32 \<Rightarrow> mock_on_chain_state \<Rightarrow> mock_on_chain_state" where
  "raise_dispute batch_hash self = self\<lparr>disputes_raised := disputes_raised self + 1, rolled_back := True\<rparr>"

definition record_missed_deadline :: "bytes32 \<Rightarrow> mock_on_chain_state \<Rightarrow> mock_on_chain_state" where
  "record_missed_deadline node_pubkey self = self\<lparr>missed_deadlines := insert node_pubkey (missed_deadlines self)\<rparr>"

definition check_fee_compliance :: "trade_batch \<Rightarrow> mock_on_chain_state \<Rightarrow> mock_on_chain_state" where
  "check_fee_compliance batch on_chain =
     fold (\<lambda>trade on_chain.
             if m_fee_basis_points trade \<noteq> fee_basis_points (m_settlement_tier trade)
             then slash_signer (m_fee_payer trade) (raise_dispute (m_maker_order_id trade) on_chain)
             else on_chain)
       (tb_trades batch) on_chain"

definition check_deadline_compliance :: "trade_batch \<Rightarrow> u64 \<Rightarrow> mock_on_chain_state \<Rightarrow> mock_on_chain_state" where
  "check_deadline_compliance batch current_time on_chain =
     fold (\<lambda>trade on_chain.
             if m_settlement_deadline trade < current_time
             then record_missed_deadline (m_taker_trader trade) (record_missed_deadline (m_maker_trader trade) on_chain)
             else on_chain)
       (tb_trades batch) on_chain"

definition monitor_batch ::
    "(bytes \<Rightarrow> trade_batch \<Rightarrow> bool) \<Rightarrow> trade_batch \<Rightarrow> bytes \<Rightarrow> mock_on_chain_state \<Rightarrow> mock_on_chain_state \<times> bool" where
  "monitor_batch verify batch proof on_chain =
     (if \<not> verify proof batch
      then (fold (\<lambda>trade on_chain. slash_signer (m_taker_trader trade) (slash_signer (m_maker_trader trade) on_chain))
              (tb_trades batch) (raise_dispute (tb_pre_state_root batch) on_chain), False)
      else (check_fee_compliance batch on_chain, True))"

definition fee_violations :: "trade_batch \<Rightarrow> nat list" where
  "fee_violations batch =
     map fst (filter (\<lambda>(_, trade). m_fee_basis_points trade \<noteq> fee_basis_points (m_settlement_tier trade))
                (enumerate 0 (tb_trades batch)))"

definition deadline_violations :: "trade_batch \<Rightarrow> u64 \<Rightarrow> nat list" where
  "deadline_violations batch current_time =
     map fst (filter (\<lambda>(_, trade). m_settlement_deadline trade < current_time) (enumerate 0 (tb_trades batch)))"

section \<open>The settlement loop\<close>

text \<open>The payer of a trade, and the other side.\<close>

definition payer_and_counterparty :: "match_rec \<Rightarrow> bytes32 \<times> bytes32" where
  "payer_and_counterparty m =
     (if m_fee_payer m = m_maker_trader m then (m_maker_trader m, m_taker_trader m)
      else (m_taker_trader m, m_maker_trader m))"

text \<open>The hashes consumed before a failing trade stay consumed, as in the code.\<close>

fun build_settlement_trades ::
    "resolver \<Rightarrow> match_rec list \<Rightarrow> ('c, 'd) app_state \<Rightarrow> ('c, 'd) app_state \<times> settlement_trade list option" where
  "build_settlement_trades resolve [] guard = (guard, Some [])"
| "build_settlement_trades resolve (m # chunk) guard =
     (case map_of (a_confirmed_trade_hashes guard) (trade_key_of m) of
        None \<Rightarrow> (guard, None)
      | Some trade_hash \<Rightarrow>
          let guard = guard\<lparr>a_confirmed_trade_hashes := AList.delete (trade_key_of m) (a_confirmed_trade_hashes guard)\<rparr>;
              (payer, counterparty) = payer_and_counterparty m
          in case resolve payer of
               None \<Rightarrow> (guard, None)
             | Some payer_account \<Rightarrow>
                 (case resolve counterparty of
                    None \<Rightarrow> (guard, None)
                  | Some counterparty_account \<Rightarrow>
                      let notional = m_price m * m_amount m;
                          fee = notional * ucast (m_fee_basis_points m) div 10000;
                          st = \<lparr>st_maker_order_id = m_maker_order_id m, st_taker_order_id = m_taker_order_id m,
                                st_trader = payer_account, st_counterparty = counterparty_account,
                                st_token = Native, st_amount = notional, st_fee = fee,
                                st_deadline = m_settlement_deadline m, st_trade_hash = trade_hash,
                                st_assigned_node = m_assigned_node m\<rparr>
                      in case build_settlement_trades resolve chunk guard of
                           (guard, None) \<Rightarrow> (guard, None)
                         | (guard, Some out) \<Rightarrow> (guard, Some (st # out))))"

definition restore_failed_chunk ::
    "match_rec list \<Rightarrow> settlement_trade list \<Rightarrow> ('c, 'd) app_state \<Rightarrow> ('c, 'd) app_state" where
  "restore_failed_chunk chunk settlement_trades guard =
     fold (\<lambda>(m, st) guard.
             guard\<lparr>a_confirmed_trade_hashes := AList.update (trade_key_of m) (st_trade_hash st) (a_confirmed_trade_hashes guard),
                   a_batcher := enqueue m (a_batcher guard)\<rparr>)
       (zip chunk settlement_trades) guard"

definition broadcast_settlement_proof :: "trade_batch \<Rightarrow> bytes \<Rightarrow> ('c, 'd) app_state \<Rightarrow> ('c, 'd) app_state" where
  "broadcast_settlement_proof batch proof guard = (case a_mesh guard of
     None \<Rightarrow> guard
   | Some mesh \<Rightarrow>
       guard\<lparr>a_mesh_sent := a_mesh_sent guard @ map (\<lambda>peer_id. SettlementProofOut peer_id batch proof) (mh_peer_ids mesh)\<rparr>)"

text \<open>What became of a chunk: one outcome per branch of the code, which logs each of them.\<close>

datatype chunk_outcome =
    OtherNode
  | ProofRejected
  | FeesRejected
  | DeadlineMissed
  | Unresolved
  | Settled "settlement_trade list"
  | SubmissionFailed "settlement_trade list"

record 'x settlement_env =
  se_chain :: "'x chain_adapter"
  se_resolve :: resolver
  se_own_pubkey :: bytes32
  se_fee_recipient :: on_chain_account

definition process_chunk ::
    "('c, 'd) api_env \<Rightarrow> 'x settlement_env \<Rightarrow> u64 \<Rightarrow> bytes \<Rightarrow> match_rec list \<Rightarrow> trade_batch \<Rightarrow>
     ('c, 'd) app_state \<times> 'x \<Rightarrow> (('c, 'd) app_state \<times> 'x) \<times> chunk_outcome" where
  "process_chunk E SE now_secs proof chunk trade_batch st = (case st of (guard, ch) \<Rightarrow>
     if m_assigned_node (hd chunk) \<noteq> se_own_pubkey SE then (st, OtherNode)
     else if \<not> prover_verify (se_chain SE) proof trade_batch then (st, ProofRejected)
     else if fee_violations trade_batch \<noteq> [] then (st, FeesRejected)
     else if deadline_violations trade_batch now_secs \<noteq> []
     then ((guard, fst (submit_missed_deadline_report (se_chain SE) (m_assigned_node (hd chunk)) ch)), DeadlineMissed)
     else case build_settlement_trades (se_resolve SE) chunk guard of
       (guard, None) \<Rightarrow> ((guard, ch), Unresolved)
     | (guard, Some settlement_trades) \<Rightarrow>
         (case submit_settlement_batch (se_chain SE) settlement_trades proof
                 \<lparr>fc_fee_recipient = se_fee_recipient SE, fc_tier = 0\<rparr> ch of
            (ch, Inr tx) \<Rightarrow>
              let keys = map (\<lambda>t. (st_maker_order_id t, st_taker_order_id t)) settlement_trades;
                  guard = fst (persist (append_batch_submitted (env_store E) keys) guard)
              in ((broadcast_settlement_proof trade_batch proof guard, ch), Settled settlement_trades)
          | (ch, Inl e) \<Rightarrow>
              ((restore_failed_chunk chunk settlement_trades guard, ch), SubmissionFailed settlement_trades)))"

text \<open>
  The chunks of one batch in order; \<open>None\<close> is the panic of a slice out of range or of \<^verbatim>\<open>chunk[0]\<close> on
  an empty chunk.
\<close>

fun process_chunks ::
    "('c, 'd) api_env \<Rightarrow> 'x settlement_env \<Rightarrow> u64 \<Rightarrow> match_rec list \<Rightarrow> nat \<Rightarrow> ((bytes \<times> nat) \<times> trade_batch) list \<Rightarrow>
     ('c, 'd) app_state \<times> 'x \<Rightarrow> ((('c, 'd) app_state \<times> 'x) \<times> (match_rec list \<times> trade_batch \<times> bytes \<times> chunk_outcome) list) option" where
  "process_chunks E SE now_secs trades idx [] st = Some (st, [])"
| "process_chunks E SE now_secs trades idx (((proof, n), trade_batch) # rest) st =
     (if length trades < idx + n \<or> n = 0 then None
      else let chunk = take n (drop idx trades);
               (st, outcome) = process_chunk E SE now_secs proof chunk trade_batch st
           in map_option (\<lambda>(st, outs). (st, (chunk, trade_batch, proof, outcome) # outs))
                (process_chunks E SE now_secs trades (idx + n) rest st))"

fun process_ready_batches ::
    "('c, 'd) api_env \<Rightarrow> 'x settlement_env \<Rightarrow> u64 \<Rightarrow> settlement_batch list \<Rightarrow> ('c, 'd) app_state \<times> 'x \<Rightarrow>
     ((('c, 'd) app_state \<times> 'x) \<times> (match_rec list \<times> trade_batch \<times> bytes \<times> chunk_outcome) list) option" where
  "process_ready_batches E SE now_secs [] st = Some (st, [])"
| "process_ready_batches E SE now_secs (batch # batches) st =
     (case process_chunks E SE now_secs (sb_trades batch) 0
             (zip (zip (sb_proofs batch) (sb_proof_trade_counts batch)) (sb_trade_batches batch)) st of
        None \<Rightarrow> None
      | Some (st, outs) \<Rightarrow>
          map_option (\<lambda>(st, outs'). (st, outs @ outs')) (process_ready_batches E SE now_secs batches st))"

text \<open>One turn of the loop: drain the batcher, then submit.\<close>

definition settlement_tick ::
    "('c, 'd) api_env \<Rightarrow> 'x settlement_env \<Rightarrow> groth16 \<Rightarrow> ledger_env \<Rightarrow> nat \<Rightarrow> f64 \<Rightarrow> u64 \<Rightarrow> ('c, 'd) app_state \<times> 'x \<Rightarrow>
     ((('c, 'd) app_state \<times> 'x) \<times> (match_rec list \<times> trade_batch \<times> bytes \<times> chunk_outcome) list) option" where
  "settlement_tick E SE g env t now now_secs st = (case st of (guard, ch) \<Rightarrow>
     let (b, batches) = process_batches g env (env_powf E) t now (a_batcher guard)
     in process_ready_batches E SE now_secs batches (guard\<lparr>a_batcher := b\<rparr>, ch))"

section \<open>Reconciliation\<close>

definition mark_reconciled_as_settled :: "('c, 'd) api_env \<Rightarrow> trade_key \<Rightarrow> ('c, 'd) app_state \<Rightarrow> ('c, 'd) app_state" where
  "mark_reconciled_as_settled E key guard =
     (let guard = guard\<lparr>a_confirmed_trade_hashes := AList.delete key (a_confirmed_trade_hashes guard),
                        a_batcher := retain_pending (\<lambda>q. trade_key_of q \<noteq> key) (a_batcher guard)\<rparr>
      in fst (persist (append_batch_submitted (env_store E) [key]) guard))"

definition reconcile_one ::
    "('c, 'd) api_env \<Rightarrow> 'x settlement_env \<Rightarrow> match_rec \<times> bytes32 \<Rightarrow> ('c, 'd) app_state \<times> 'x \<Rightarrow> ('c, 'd) app_state \<times> 'x" where
  "reconcile_one E SE candidate st = (case (candidate, st) of ((m, trade_hash), (guard, ch)) \<Rightarrow>
     (case se_resolve SE (fst (payer_and_counterparty m)) of
        None \<Rightarrow> (guard, ch)
      | Some payer_account \<Rightarrow>
          (case is_trade_settled (se_chain SE) payer_account trade_hash ch of
             (ch, Inr True) \<Rightarrow> (mark_reconciled_as_settled E (trade_key_of m) guard, ch)
           | (ch, Inr False) \<Rightarrow> (guard, ch)
           | (ch, Inl e) \<Rightarrow> (guard, ch))))"

definition reconcile_replayed_confirmations ::
    "('c, 'd) api_env \<Rightarrow> 'x settlement_env \<Rightarrow> (match_rec \<times> bytes32) list \<Rightarrow> ('c, 'd) app_state \<times> 'x \<Rightarrow> ('c, 'd) app_state \<times> 'x" where
  "reconcile_replayed_confirmations E SE candidates st = fold (reconcile_one E SE) candidates st"

section \<open>What a chunk does\<close>

text \<open>The on-chain entry of a trade, given the accounts and the confirmed hashes.\<close>

definition entry_for :: "resolver \<Rightarrow> (trade_key \<rightharpoonup> bytes32) \<Rightarrow> match_rec \<Rightarrow> settlement_trade \<Rightarrow> bool" where
  "entry_for resolve hashes m st \<longleftrightarrow>
     (st_maker_order_id st, st_taker_order_id st) = trade_key_of m
   \<and> resolve (fst (payer_and_counterparty m)) = Some (st_trader st)
   \<and> resolve (snd (payer_and_counterparty m)) = Some (st_counterparty st)
   \<and> st_amount st = m_price m * m_amount m
   \<and> st_fee st = m_price m * m_amount m * ucast (m_fee_basis_points m) div 10000
   \<and> st_deadline st = m_settlement_deadline m
   \<and> hashes (trade_key_of m) = Some (st_trade_hash st)
   \<and> st_assigned_node st = m_assigned_node m"

lemma entry_for_mono:
  "entry_for resolve (h(k := None)) m st \<Longrightarrow> entry_for resolve h m st \<and> trade_key_of m \<noteq> k"
  by (auto simp: entry_for_def split: if_splits)

lemma build_only_hashes: "\<exists>h. fst (build_settlement_trades resolve chunk g) = g\<lparr>a_confirmed_trade_hashes := h\<rparr>"
proof (induction chunk arbitrary: g)
  case Nil
  show ?case by (intro exI [of _ "a_confirmed_trade_hashes g"]) simp
next
  case (Cons m chunk)
  let ?d = "AList.delete (trade_key_of m) (a_confirmed_trade_hashes g)"
  let ?g = "g\<lparr>a_confirmed_trade_hashes := ?d\<rparr>"
  obtain h where h: "fst (build_settlement_trades resolve chunk ?g) = ?g\<lparr>a_confirmed_trade_hashes := h\<rparr>" using Cons.IH by blast
  have "fst (build_settlement_trades resolve (m # chunk) g)
      \<in> {g\<lparr>a_confirmed_trade_hashes := a_confirmed_trade_hashes g\<rparr>, ?g, g\<lparr>a_confirmed_trade_hashes := h\<rparr>}"
    using h by (auto simp: Let_def split: option.splits prod.splits)
  then show ?case by blast
qed

lemma build_Some:
  "build_settlement_trades resolve chunk g = (g', Some sts) \<Longrightarrow>
     g' = g\<lparr>a_confirmed_trade_hashes := fold AList.delete (map trade_key_of chunk) (a_confirmed_trade_hashes g)\<rparr>
   \<and> list_all2 (entry_for resolve (map_of (a_confirmed_trade_hashes g))) chunk sts
   \<and> distinct (map trade_key_of chunk)"
proof (induction chunk arbitrary: g g' sts)
  case (Cons m chunk)
  let ?k = "trade_key_of m"
  let ?g = "g\<lparr>a_confirmed_trade_hashes := AList.delete ?k (a_confirmed_trade_hashes g)\<rparr>"
  define st out where "st = hd sts" and "out = tl sts"
  from Cons.prems have b: "build_settlement_trades resolve chunk ?g = (g', Some out)" "sts = st # out"
    and e: "entry_for resolve (map_of (a_confirmed_trade_hashes g)) m st"
    by (auto simp: Let_def entry_for_def trade_key_of_def st_def out_def split: option.splits prod.splits)
  note ih = Cons.IH [OF b(1)]
  have "list_all2 (entry_for resolve ((map_of (a_confirmed_trade_hashes g))(?k := None))) chunk out"
    using ih by (simp add: delete_conv' fun_upd_def)
  then have "list_all2 (\<lambda>m' st. entry_for resolve (map_of (a_confirmed_trade_hashes g)) m' st \<and> trade_key_of m' \<noteq> ?k) chunk out"
    by (rule list_all2_mono) (rule entry_for_mono)
  then have "list_all2 (entry_for resolve (map_of (a_confirmed_trade_hashes g))) chunk out" "?k \<notin> set (map trade_key_of chunk)"
    by (induction) auto
  then show ?case using ih e b(2) by simp
qed simp

lemma delete_all_map_of: "map_of (fold AList.delete ks al) = (map_of al) |` (- set ks)"
proof (induction ks arbitrary: al)
  case (Cons k ks)
  then show ?case by (auto simp: delete_conv' restrict_map_def fun_eq_iff)
qed (simp add: restrict_map_def)

lemma restore_failed:
  assumes "length sts = length chunk"
  shows "restore_failed_chunk chunk sts g =
    g\<lparr>a_confirmed_trade_hashes := fold (\<lambda>(m, st). AList.update (trade_key_of m) (st_trade_hash st)) (zip chunk sts) (a_confirmed_trade_hashes g),
      a_batcher := fold enqueue chunk (a_batcher g)\<rparr>"
  using assms
proof (induction chunk arbitrary: sts g)
  case (Cons m chunk)
  then obtain st sts' where "sts = st # sts'" by (cases sts) auto
  then show ?case using Cons by (simp add: restore_failed_chunk_def)
qed (simp add: restore_failed_chunk_def)

lemma restore_hashes:
  "list_all2 (entry_for resolve h) chunk sts \<Longrightarrow>
   map_of (fold (\<lambda>(m, st). AList.update (trade_key_of m) (st_trade_hash st)) (zip chunk sts) al) =
     (\<lambda>k. if k \<in> set (map trade_key_of chunk) then h k else map_of al k)"
proof (induction arbitrary: al rule: list_all2_induct)
  case (Cons m ms st sts)
  then show ?case by (auto simp: update_conv' entry_for_def fun_eq_iff)
qed simp

lemma mset_enqueue_all: "mset (queued_trades (fold enqueue ms b)) = mset ms + mset (queued_trades b)"
  by (induction ms arbitrary: b) (simp_all add: mset_enqueue)

lemma violations_empty:
  "fee_violations b = [] \<longleftrightarrow> (\<forall>m \<in> set (tb_trades b). m_fee_basis_points m = fee_basis_points (m_settlement_tier m))"
  "deadline_violations b now = [] \<longleftrightarrow> (\<forall>m \<in> set (tb_trades b). now \<le> m_settlement_deadline m)"
proof -
  have "(\<exists>i. (i, m) \<in> set (enumerate 0 xs)) \<longleftrightarrow> m \<in> set xs" for m :: match_rec and xs
    by (simp only: in_set_conv_nth [of m] in_set_enumerate_eq) auto
  then have "filter (\<lambda>(_, m). P m) (enumerate 0 xs) = [] \<longleftrightarrow> (\<forall>m \<in> set xs. \<not> P m)" for P and xs :: "match_rec list"
    unfolding filter_empty_conv by blast
  then show "fee_violations b = [] \<longleftrightarrow> (\<forall>m \<in> set (tb_trades b). m_fee_basis_points m = fee_basis_points (m_settlement_tier m))"
    "deadline_violations b now = [] \<longleftrightarrow> (\<forall>m \<in> set (tb_trades b). now \<le> m_settlement_deadline m)"
    by (simp_all add: fee_violations_def deadline_violations_def not_less)
qed

text \<open>The outcomes that reached the chain, and what the checks before them establish.\<close>

fun submitted :: "chunk_outcome \<Rightarrow> settlement_trade list option" where
  "submitted (Settled sts) = Some sts"
| "submitted (SubmissionFailed sts) = Some sts"
| "submitted _ = None"

definition checked_chunk ::
    "'x settlement_env \<Rightarrow> u64 \<Rightarrow> match_rec list \<times> trade_batch \<times> bytes \<times> chunk_outcome \<Rightarrow> bool" where
  "checked_chunk SE now_secs c = (case c of (chunk, tb, proof, outcome) \<Rightarrow>
     (case submitted outcome of
        None \<Rightarrow> True
      | Some sts \<Rightarrow>
          m_assigned_node (hd chunk) = se_own_pubkey SE
        \<and> prover_verify (se_chain SE) proof tb
        \<and> (\<forall>m \<in> set (tb_trades tb). m_fee_basis_points m = fee_basis_points (m_settlement_tier m)
             \<and> now_secs \<le> m_settlement_deadline m)
        \<and> (\<exists>hashes. list_all2 (entry_for (se_resolve SE) hashes) chunk sts)))"

lemma process_chunk_checked:
  assumes "process_chunk E SE now proof chunk tb st = (st', out)"
  shows "checked_chunk SE now (chunk, tb, proof, out)"
proof (cases "submitted out")
  case None
  then show ?thesis by (simp add: checked_chunk_def)
next
  case (Some sts)
  obtain g ch where st: "st = (g, ch)" by (cases st)
  obtain g1 r where b: "build_settlement_trades (se_resolve SE) chunk g = (g1, r)" by (cases "build_settlement_trades (se_resolve SE) chunk g")
  have "r = Some sts" "m_assigned_node (hd chunk) = se_own_pubkey SE" "prover_verify (se_chain SE) proof tb"
    "fee_violations tb = []" "deadline_violations tb now = []"
    using assms Some st b by (auto simp: process_chunk_def Let_def split: if_splits option.splits prod.splits sum.splits)
  then show ?thesis using build_Some [of "se_resolve SE" chunk g g1 sts] b Some
    by (auto simp: checked_chunk_def violations_empty)
qed

lemma process_chunks_checked:
  "process_chunks E SE now trades idx cs st = Some (st', outs) \<Longrightarrow> list_all (checked_chunk SE now) outs"
proof (induction cs arbitrary: idx st outs)
  case (Cons c cs)
  obtain p n tb where c: "c = ((p, n), tb)" by (metis surj_pair)
  obtain st1 out where pc: "process_chunk E SE now p (take n (drop idx trades)) tb st = (st1, out)"
    by (cases "process_chunk E SE now p (take n (drop idx trades)) tb st")
  from Cons.prems pc obtain outs' where
    "process_chunks E SE now trades (idx + n) cs st1 = Some (st', outs')" "outs = (take n (drop idx trades), tb, p, out) # outs'"
    by (auto simp: c split: if_splits)
  with Cons.IH show ?case using process_chunk_checked [OF pc] by simp
qed simp

lemma process_ready_checked:
  "process_ready_batches E SE now bs st = Some (st', outs) \<Longrightarrow> list_all (checked_chunk SE now) outs"
proof (induction bs arbitrary: st st' outs)
  case (Cons b bs)
  then show ?case by (auto split: option.splits dest!: process_chunks_checked)
qed simp

text \<open>On a batch of the batcher, the chunks are the trades of its proven batches and no slice fails.\<close>

lemma process_chunks_shape:
  assumes "length ps = length tbs" and "\<forall>tb \<in> set tbs. tb_trades tb \<noteq> []"
  shows "\<exists>st' outs. process_chunks E SE now (pre @ concat (map tb_trades tbs)) (length pre)
           (zip (zip ps (map (\<lambda>tb. length (tb_trades tb)) tbs)) tbs) st = Some (st', outs)
         \<and> map (\<lambda>(chunk, tb, proof, out). (chunk, tb, proof)) outs = map (\<lambda>(p, tb). (tb_trades tb, tb, p)) (zip ps tbs)"
  using assms
proof (induction ps tbs arbitrary: pre st rule: list_induct2)
  case (Cons p ps tb tbs)
  obtain st1 out where pc: "process_chunk E SE now p (tb_trades tb) tb st = (st1, out)"
    by (cases "process_chunk E SE now p (tb_trades tb) tb st")
  from Cons.IH [of "pre @ tb_trades tb" st1] Cons.prems obtain st2 outs where
    "process_chunks E SE now ((pre @ tb_trades tb) @ concat (map tb_trades tbs)) (length (pre @ tb_trades tb))
       (zip (zip ps (map (\<lambda>tb. length (tb_trades tb)) tbs)) tbs) st1 = Some (st2, outs)"
    "map (\<lambda>(chunk, tb, proof, out). (chunk, tb, proof)) outs = map (\<lambda>(p, tb). (tb_trades tb, tb, p)) (zip ps tbs)"
    by auto
  then show ?case using pc Cons.prems by simp
qed simp

definition proven_chunks :: "settlement_batch list \<Rightarrow> (match_rec list \<times> trade_batch \<times> bytes) list" where
  "proven_chunks bs = concat (map (\<lambda>b. map (\<lambda>(p, tb). (tb_trades tb, tb, p)) (zip (sb_proofs b) (sb_trade_batches b))) bs)"

lemma batch_ok_nonempty:
  assumes "batch_ok g b"
  shows "length (sb_proofs b) = length (sb_trade_batches b)" "\<forall>tb \<in> set (sb_trade_batches b). tb_trades tb \<noteq> []"
proof -
  have l: "list_all2 (\<lambda>p tb. prove_batch g tb = Inr p) (sb_proofs b) (sb_trade_batches b)"
    using assms unfolding batch_ok_def by (elim conjE) (erule list_all2_mono, simp)
  then show "length (sb_proofs b) = length (sb_trade_batches b)" by (rule list_all2_lengthD)
  from l show "\<forall>tb \<in> set (sb_trade_batches b). tb_trades tb \<noteq> []"
    by (induction rule: list_all2_induct) (auto dest: prove_batch_ok(1))
qed

lemma process_ready_shape:
  "list_all (batch_ok g) bs \<Longrightarrow> \<exists>st' outs. process_ready_batches E SE now bs st = Some (st', outs)
     \<and> map (\<lambda>(chunk, tb, proof, out). (chunk, tb, proof)) outs = proven_chunks bs"
proof (induction bs arbitrary: st)
  case (Cons b bs)
  note ok = batch_ok_nonempty [of g b]
  from process_chunks_shape [OF ok(1) ok(2), of E SE now "[]" st] Cons.prems obtain st1 outs1 where
    1: "process_chunks E SE now (sb_trades b) 0 (zip (zip (sb_proofs b) (sb_proof_trade_counts b)) (sb_trade_batches b)) st = Some (st1, outs1)"
    "map (\<lambda>(chunk, tb, proof, out). (chunk, tb, proof)) outs1 = map (\<lambda>(p, tb). (tb_trades tb, tb, p)) (zip (sb_proofs b) (sb_trade_batches b))"
    by (auto simp: batch_ok_def)
  obtain st2 outs2 where 2: "process_ready_batches E SE now bs st1 = Some (st2, outs2)"
    "map (\<lambda>(chunk, tb, proof, out). (chunk, tb, proof)) outs2 = proven_chunks bs" using Cons.IH [of st1] Cons.prems by auto
  from 1 2 show ?case by (auto simp: proven_chunks_def)
qed (simp add: proven_chunks_def)

lemma batch_ok_empty: "batch_ok g empty_batch"
  by (simp add: batch_ok_def empty_batch_def)

lemma process_batches_ok: "list_all (batch_ok g) (snd (process_batches g env powf t now b))"
  using build_batch_ok [of g env]
  by (auto simp: process_batches_def try_flush_instant_def try_flush_express_def try_flush_standard_def Let_def
      List.map_filter_simps list_all_iff case_prod_beta split: list.splits)

lemma chunk_one_node: "list_all (batch_ok g) bs \<Longrightarrow> (chunk, tb, p) \<in> set (proven_chunks bs) \<Longrightarrow>
    chunk = tb_trades tb \<and> chunk \<noteq> [] \<and> prove_batch g tb = Inr p \<and> (\<forall>m \<in> set chunk. m_assigned_node m = m_assigned_node (hd chunk))"
proof -
  assume ok: "list_all (batch_ok g) bs" and "(chunk, tb, p) \<in> set (proven_chunks bs)"
  then obtain b where b: "batch_ok g b" "(p, tb) \<in> set (zip (sb_proofs b) (sb_trade_batches b))" and c: "chunk = tb_trades tb"
    by (auto simp: proven_chunks_def list_all_iff)
  from b have "prove_batch g tb = Inr p" "\<exists>n. \<forall>m \<in> set (tb_trades tb). m_assigned_node m = n"
    unfolding batch_ok_def list_all2_iff by blast+
  moreover from this(1) have "tb_trades tb \<noteq> []" by (rule prove_batch_ok(1))
  ultimately show ?thesis using c by (metis hd_in_set)
qed

text \<open>Where the trades of a chunk go.\<close>

fun retried :: "match_rec list \<times> trade_batch \<times> bytes \<times> chunk_outcome \<Rightarrow> match_rec list" where
  "retried (chunk, tb, p, SubmissionFailed sts) = chunk"
| "retried _ = []"

fun consumed :: "match_rec list \<times> trade_batch \<times> bytes \<times> chunk_outcome \<Rightarrow> match_rec list" where
  "consumed (chunk, tb, p, Settled sts) = chunk"
| "consumed (chunk, tb, p, Unresolved) = chunk"
| "consumed _ = []"

lemma build_keeps_hash:
  "k \<notin> trade_key_of ` set chunk \<Longrightarrow>
   map_of (a_confirmed_trade_hashes (fst (build_settlement_trades resolve chunk g))) k = map_of (a_confirmed_trade_hashes g) k"
proof (induction chunk arbitrary: g)
  case (Cons m chunk)
  let ?g = "g\<lparr>a_confirmed_trade_hashes := AList.delete (trade_key_of m) (a_confirmed_trade_hashes g)\<rparr>"
  have "fst (build_settlement_trades resolve (m # chunk) g) \<in> {g, ?g, fst (build_settlement_trades resolve chunk ?g)}"
    by (auto simp: Let_def split: option.splits prod.splits)
  then show ?case using Cons by (auto simp: delete_conv')
qed simp

lemma persist_simps [simp]:
  "a_batcher (fst (persist f g)) = a_batcher g"
  "a_confirmed_trade_hashes (fst (persist f g)) = a_confirmed_trade_hashes g"
  by (auto simp: persist_def split: option.splits prod.splits)

lemma broadcast_simps [simp]:
  "a_batcher (broadcast_settlement_proof tb p g) = a_batcher g"
  "a_confirmed_trade_hashes (broadcast_settlement_proof tb p g) = a_confirmed_trade_hashes g"
  by (auto simp: broadcast_settlement_proof_def split: option.splits)

lemma process_chunk_effect:
  assumes "process_chunk E SE now p chunk tb (g, ch) = ((g', ch'), out)"
  shows "mset (queued_trades (a_batcher g')) = mset (retried (chunk, tb, p, out)) + mset (queued_trades (a_batcher g))
    \<and> (\<forall>k. k \<notin> trade_key_of ` set (consumed (chunk, tb, p, out)) \<longrightarrow>
         map_of (a_confirmed_trade_hashes g') k = map_of (a_confirmed_trade_hashes g) k)"
proof -
  obtain g1 r where b: "build_settlement_trades (se_resolve SE) chunk g = (g1, r)" by (cases "build_settlement_trades (se_resolve SE) chunk g")
  obtain h where h: "g1 = g\<lparr>a_confirmed_trade_hashes := h\<rparr>" using build_only_hashes [of "se_resolve SE" chunk g] b by auto
  have keep: "k \<notin> trade_key_of ` set chunk \<Longrightarrow> map_of (a_confirmed_trade_hashes g1) k = map_of (a_confirmed_trade_hashes g) k" for k
    using build_keeps_hash [of k chunk "se_resolve SE" g] b by simp
  show ?thesis
  proof (cases out)
    case (SubmissionFailed sts)
    then have r: "r = Some sts" "g' = restore_failed_chunk chunk sts g1"
      using assms b by (auto simp: process_chunk_def Let_def split: if_splits option.splits prod.splits sum.splits)
    with b have "build_settlement_trades (se_resolve SE) chunk g = (g1, Some sts)" by simp
    note bs = build_Some [OF this]
    have l: "length sts = length chunk" using bs by (auto dest: list_all2_lengthD)
    have "map_of (a_confirmed_trade_hashes g') = map_of (a_confirmed_trade_hashes g)"
      using bs restore_hashes [of "se_resolve SE" "map_of (a_confirmed_trade_hashes g)" chunk sts]
      unfolding r(2) restore_failed [OF l] by (auto simp: fun_eq_iff delete_all_map_of restrict_map_def)
    moreover have "a_batcher g' = fold enqueue chunk (a_batcher g)" unfolding r(2) h restore_failed [OF l] by simp
    ultimately show ?thesis using SubmissionFailed by (simp add: mset_enqueue_all)
  next
    case (Settled sts)
    then have "a_batcher g' = a_batcher g1" "a_confirmed_trade_hashes g' = a_confirmed_trade_hashes g1"
      using assms b by (auto simp: process_chunk_def Let_def split: if_splits option.splits prod.splits sum.splits)
    then show ?thesis using Settled keep h by simp
  next
    case Unresolved
    then have "g' = g1" using assms b by (auto simp: process_chunk_def Let_def split: if_splits option.splits prod.splits sum.splits)
    then show ?thesis using Unresolved keep h by simp
  qed (use assms in \<open>auto simp: process_chunk_def Let_def split: if_splits option.splits prod.splits sum.splits\<close>)
qed

definition chunk_effects ::
    "(match_rec list \<times> trade_batch \<times> bytes \<times> chunk_outcome) list \<Rightarrow> ('c, 'd) app_state \<Rightarrow> ('c, 'd) app_state \<Rightarrow> bool" where
  "chunk_effects outs g g' \<longleftrightarrow>
     mset (queued_trades (a_batcher g')) = mset (concat (map retried outs)) + mset (queued_trades (a_batcher g))
   \<and> (\<forall>k. k \<notin> trade_key_of ` set (concat (map consumed outs)) \<longrightarrow>
         map_of (a_confirmed_trade_hashes g') k = map_of (a_confirmed_trade_hashes g) k)"

lemma chunk_effects_append:
  "chunk_effects xs g g1 \<Longrightarrow> chunk_effects ys g1 g2 \<Longrightarrow> chunk_effects (xs @ ys) g g2"
  unfolding chunk_effects_def
proof (elim conjE, intro conjI allI impI)
  fix k
  assume "\<forall>k. k \<notin> trade_key_of ` set (concat (map consumed xs)) \<longrightarrow> map_of (a_confirmed_trade_hashes g1) k = map_of (a_confirmed_trade_hashes g) k"
    "\<forall>k. k \<notin> trade_key_of ` set (concat (map consumed ys)) \<longrightarrow> map_of (a_confirmed_trade_hashes g2) k = map_of (a_confirmed_trade_hashes g1) k"
    "k \<notin> trade_key_of ` set (concat (map consumed (xs @ ys)))"
  then show "map_of (a_confirmed_trade_hashes g2) k = map_of (a_confirmed_trade_hashes g) k" by (cases k) (simp add: image_Un)
qed simp

lemma process_chunks_effect:
  "process_chunks E SE now trades idx cs st = Some (st', outs) \<Longrightarrow> chunk_effects outs (fst st) (fst st')"
proof (induction cs arbitrary: idx st outs)
  case (Cons c cs)
  obtain p n tb where c: "c = ((p, n), tb)" by (metis surj_pair)
  let ?chunk = "take n (drop idx trades)"
  obtain st1 out where pc: "process_chunk E SE now p ?chunk tb st = (st1, out)" by (cases "process_chunk E SE now p ?chunk tb st")
  from Cons.prems pc obtain outs' where
    rest: "process_chunks E SE now trades (idx + n) cs st1 = Some (st', outs')" "outs = (?chunk, tb, p, out) # outs'"
    by (auto simp: c split: if_splits)
  have "process_chunk E SE now p ?chunk tb (fst st, snd st) = ((fst st1, snd st1), out)" using pc by simp
  from process_chunk_effect [OF this] have "chunk_effects [(?chunk, tb, p, out)] (fst st) (fst st1)"
    unfolding chunk_effects_def by simp
  from chunk_effects_append [OF this Cons.IH [OF rest(1)]] show ?case using rest(2) by simp
qed (simp add: chunk_effects_def)

lemma process_ready_effect:
  "process_ready_batches E SE now bs st = Some (st', outs) \<Longrightarrow> chunk_effects outs (fst st) (fst st')"
proof (induction bs arbitrary: st outs)
  case (Cons b bs)
  then obtain st1 outs1 outs2 where
    "process_chunks E SE now (sb_trades b) 0 (zip (zip (sb_proofs b) (sb_proof_trade_counts b)) (sb_trade_batches b)) st = Some (st1, outs1)"
    "process_ready_batches E SE now bs st1 = Some (st', outs2)" "outs = outs1 @ outs2"
    by (auto split: option.splits)
  then show ?case using chunk_effects_append process_chunks_effect Cons.IH by metis
qed (simp add: chunk_effects_def)

lemma tick_outcomes:
  obtains st' outs where "settlement_tick E SE g env t now now_secs (guard, ch) = Some (st', outs)"
    "list_all (checked_chunk SE now_secs) outs"
    "chunk_effects outs (guard\<lparr>a_batcher := fst (process_batches g env (env_powf E) t now (a_batcher guard))\<rparr>) (fst st')"
    "map (\<lambda>(chunk, tb, p, out). (chunk, tb, p)) outs = proven_chunks (snd (process_batches g env (env_powf E) t now (a_batcher guard)))"
proof -
  obtain b bs where pb: "process_batches g env (env_powf E) t now (a_batcher guard) = (b, bs)" by fastforce
  have ok: "list_all (batch_ok g) bs" using process_batches_ok [of g env "env_powf E" t now "a_batcher guard"] pb by simp
  from process_ready_shape [OF ok, of E SE now_secs "(guard\<lparr>a_batcher := b\<rparr>, ch)"] obtain st' outs where
    r: "process_ready_batches E SE now_secs bs (guard\<lparr>a_batcher := b\<rparr>, ch) = Some (st', outs)"
    "map (\<lambda>(chunk, tb, p, out). (chunk, tb, p)) outs = proven_chunks bs" by blast
  show ?thesis
    using that [of st' outs] process_ready_checked [OF r(1)] process_ready_effect [OF r(1)] r pb by (simp add: settlement_tick_def)
qed

section \<open>The footprint of the settlement loop\<close>

text \<open>
  Settlement reaches the state of the node only through its queue and hashes, the messages to peers
  and the checkpoints in the log. A relation between states that is kept by these is kept by whole
  turns of the loop.
\<close>

locale settlement_frame =
  fixes E :: "('c, 'd) api_env" and R :: "('c, 'd) app_state \<Rightarrow> ('c, 'd) app_state \<Rightarrow> bool"
  assumes R_refl: "R g g"
    and R_trans: "R g g1 \<Longrightarrow> R g1 g2 \<Longrightarrow> R g g2"
    and R_hashes: "R g (g\<lparr>a_confirmed_trade_hashes := h\<rparr>)"
    and R_batcher: "R g (g\<lparr>a_batcher := b\<rparr>)"
    and R_sent: "R g (g\<lparr>a_mesh_sent := ms\<rparr>)"
    and R_checkpoint: "R g (fst (persist (append_batch_submitted (env_store E) keys) g))"
begin

lemma restored: "R g (restore_failed_chunk chunk sts g)"
proof -
  have "R g (fold (\<lambda>(m, st) guard.
             guard\<lparr>a_confirmed_trade_hashes := AList.update (trade_key_of m) (st_trade_hash st) (a_confirmed_trade_hashes guard),
                   a_batcher := enqueue m (a_batcher guard)\<rparr>) xs g)" for xs g
  proof (induction xs arbitrary: g)
    case (Cons x xs)
    then show ?case using R_trans [OF R_hashes R_trans [OF R_batcher Cons.IH]] by (cases x) simp
  qed (simp add: R_refl)
  then show ?thesis by (simp add: restore_failed_chunk_def)
qed

lemma broadcast: "R g (broadcast_settlement_proof tb p g)"
  by (simp add: broadcast_settlement_proof_def R_refl R_sent split: option.splits)

lemma chunk: "R (fst st) (fst (fst (process_chunk E SE now p chunk tb st)))"
proof -
  obtain g ch where st: "st = (g, ch)" by (cases st)
  obtain g1 r where b: "build_settlement_trades (se_resolve SE) chunk g = (g1, r)" by fastforce
  obtain h where g1: "g1 = g\<lparr>a_confirmed_trade_hashes := h\<rparr>" using build_only_hashes [of "se_resolve SE" chunk g] b by auto
  then have h: "R g g1" by (simp add: R_hashes)
  obtain ch1 tx where s: "submit_settlement_batch (se_chain SE) (the r) p \<lparr>fc_fee_recipient = se_fee_recipient SE, fc_tier = 0\<rparr> ch = (ch1, tx)"
    by fastforce
  let ?sent = "broadcast_settlement_proof tb p (fst (persist (append_batch_submitted (env_store E)
    (map (\<lambda>t. (st_maker_order_id t, st_taker_order_id t)) (the r))) g1))"
  have sent: "R g ?sent" by (rule R_trans [OF h R_trans [OF R_checkpoint broadcast]])
  show ?thesis
  proof (cases "m_assigned_node (hd chunk) \<noteq> se_own_pubkey SE \<or> \<not> prover_verify (se_chain SE) p tb
      \<or> fee_violations tb \<noteq> [] \<or> deadline_violations tb now \<noteq> []")
    case True
    then have "fst (fst (process_chunk E SE now p chunk tb (g, ch))) = g" by (auto simp: process_chunk_def)
    then show ?thesis using st by (simp add: R_refl)
  next
    case False
    then have pc: "process_chunk E SE now p chunk tb (g, ch) = (case r of None \<Rightarrow> ((g1, ch), Unresolved)
      | Some sts \<Rightarrow> (case tx of Inr _ \<Rightarrow> ((?sent, ch1), Settled sts)
         | Inl _ \<Rightarrow> ((restore_failed_chunk chunk sts g1, ch1), SubmissionFailed sts)))"
      using b s unfolding process_chunk_def by (cases r; cases tx) (simp_all add: Let_def)
    show ?thesis unfolding st pc using h sent R_trans [OF h restored] by (cases r; cases tx) simp_all
  qed
qed

lemma chunks: "process_chunks E SE now trades idx cs st = Some (st', outs) \<Longrightarrow> R (fst st) (fst st')"
proof (induction cs arbitrary: idx st outs)
  case (Cons c cs)
  obtain p n tb where c: "c = ((p, n), tb)" by (metis surj_pair)
  let ?chunk = "take n (drop idx trades)"
  from Cons.prems obtain outs' where
    "process_chunks E SE now trades (idx + n) cs (fst (process_chunk E SE now p ?chunk tb st)) = Some (st', outs')"
    by (auto simp: c Let_def split: if_splits prod.splits)
  from R_trans [OF chunk Cons.IH [OF this]] show ?case .
qed (simp add: R_refl)

lemma ready: "process_ready_batches E SE now bs st = Some (st', outs) \<Longrightarrow> R (fst st) (fst st')"
proof (induction bs arbitrary: st outs)
  case (Cons b bs)
  from Cons.prems obtain st1 outs1 outs2 where
    "process_chunks E SE now (sb_trades b) 0 (zip (zip (sb_proofs b) (sb_proof_trade_counts b)) (sb_trade_batches b)) st = Some (st1, outs1)"
    "process_ready_batches E SE now bs st1 = Some (st', outs2)"
    by (auto split: option.splits)
  then show ?case using R_trans [OF chunks Cons.IH] by blast
qed (simp add: R_refl)

lemma tick:
  assumes "settlement_tick E SE gr env t now now_secs (g, ch) = Some ((g', ch'), outs)"
  shows "R g g'"
proof -
  obtain b bs where b: "process_batches gr env (env_powf E) t now (a_batcher g) = (b, bs)" by fastforce
  have "R (g\<lparr>a_batcher := b\<rparr>) g'"
    using ready [of SE now_secs bs "(g\<lparr>a_batcher := b\<rparr>, ch)"] assms b by (simp add: settlement_tick_def)
  with R_trans [OF R_batcher] show ?thesis by blast
qed

lemma reconcile: "R (fst st) (fst (reconcile_replayed_confirmations E SE cs st))"
  unfolding reconcile_replayed_confirmations_def
proof (induction cs arbitrary: st)
  case (Cons c cs)
  have mark: "R g (mark_reconciled_as_settled E key g)" for g key
    using R_trans [OF R_hashes R_trans [OF R_batcher R_checkpoint]] by (simp add: mark_reconciled_as_settled_def Let_def)
  have "R (fst st) (fst (reconcile_one E SE c st))"
    by (auto simp: reconcile_one_def mark R_refl split: prod.splits option.splits sum.splits bool.splits)
  from R_trans [OF this Cons.IH] show ?case by simp
qed (simp add: R_refl)

end

section \<open>Properties\<close>


text \<open>C15. No trade is lost to a failed submission: after a settlement turn the queues hold what
  batching left in them and, added to it, every trade of a chunk whose submission failed; the hash
  recorded for a trade is unchanged unless its chunk was settled or could not be resolved.\<close>

theorem failed_submissions_are_requeued:
  "case settlement_tick E SE g env t now now_secs (guard, ch) of
     None \<Rightarrow> False
   | Some ((guard', ch'), outs) \<Rightarrow>
       mset (queued_trades (a_batcher guard')) = mset (concat (map retried outs))
         + mset (queued_trades (fst (process_batches g env (env_powf E) t now (a_batcher guard))))
     \<and> (\<forall>k. k \<in> trade_key_of ` set (concat (map consumed outs))
            \<or> map_of (a_confirmed_trade_hashes guard') k = map_of (a_confirmed_trade_hashes guard) k)"
proof -
  obtain st' outs where r: "settlement_tick E SE g env t now now_secs (guard, ch) = Some (st', outs)"
    "chunk_effects outs (guard\<lparr>a_batcher := fst (process_batches g env (env_powf E) t now (a_batcher guard))\<rparr>) (fst st')"
    by (rule tick_outcomes [of E SE g env t now now_secs guard ch]) blast
  obtain g' ch' where st': "st' = (g', ch')" by (cases st')
  have "k \<in> trade_key_of ` set (concat (map consumed outs)) \<or> map_of (a_confirmed_trade_hashes g') k = map_of (a_confirmed_trade_hashes guard) k" for k
    using r(2) st' by (cases k) (auto simp: chunk_effects_def)
  then show ?thesis using r(2) unfolding r(1) st' by (simp add: chunk_effects_def)
qed

text \<open>The watchtower: a batch is accepted exactly when its proof verifies; a rejected batch raises
  one dispute and slashes the maker and the taker of every trade, an accepted one raises a dispute
  and slashes the fee payer for exactly the trades whose fee is not that of their tier.\<close>

theorem monitor_batch_exact:
  "monitor_batch verify batch p s =
     (let bad = filter (\<lambda>m. m_fee_basis_points m \<noteq> fee_basis_points (m_settlement_tier m)) (tb_trades batch)
      in if verify p batch
         then (s\<lparr>slashed_signers := slashed_signers s @ map m_fee_payer bad, disputes_raised := disputes_raised s + length bad,
                 rolled_back := (if bad = [] then rolled_back s else True)\<rparr>, True)
         else (s\<lparr>slashed_signers := slashed_signers s @ concat (map (\<lambda>m. [m_maker_trader m, m_taker_trader m]) (tb_trades batch)),
                 disputes_raised := disputes_raised s + 1, rolled_back := True\<rparr>, False))"
proof -
  have slash: "fold (\<lambda>m c. slash_signer (m_taker_trader m) (slash_signer (m_maker_trader m) c)) ms c =
      c\<lparr>slashed_signers := slashed_signers c @ concat (map (\<lambda>m. [m_maker_trader m, m_taker_trader m]) ms)\<rparr>"
    for ms :: "match_rec list" and c
    by (induction ms arbitrary: c) (simp_all add: slash_signer_def)
  let ?bad = "\<lambda>m. m_fee_basis_points m \<noteq> fee_basis_points (m_settlement_tier m)"
  have fees: "fold (\<lambda>m c. if ?bad m then slash_signer (m_fee_payer m) (raise_dispute (m_maker_order_id m) c) else c) ms c =
      c\<lparr>slashed_signers := slashed_signers c @ map m_fee_payer (filter ?bad ms),
        disputes_raised := disputes_raised c + length (filter ?bad ms), rolled_back := rolled_back c \<or> filter ?bad ms \<noteq> []\<rparr>"
    for ms :: "match_rec list" and c
    by (induction ms arbitrary: c) (auto simp: slash_signer_def raise_dispute_def)
  show ?thesis using slash [of "tb_trades batch"] fees [of "tb_trades batch" s]
    by (cases "filter ?bad (tb_trades batch) = []")
      (simp_all add: monitor_batch_def check_fee_compliance_def raise_dispute_def Let_def)
qed

text \<open>
  Two gaps. A chunk with an account that cannot be resolved loses the hashes consumed so far and is
  not queued again; and a chunk that is queued again after a failed submission finds its debits
  still taken from the ledger.
\<close>

lemma unresolved_chunk_is_dropped:
  assumes "map_of (a_confirmed_trade_hashes g) (trade_key_of m) = Some h" "se_resolve SE (fst (payer_and_counterparty m)) = None"
    and "m_assigned_node m = se_own_pubkey SE" "prover_verify (se_chain SE) p tb" "fee_violations tb = []" "deadline_violations tb now = []"
  shows "process_chunk E SE now p [m] tb (g, ch) =
    ((g\<lparr>a_confirmed_trade_hashes := AList.delete (trade_key_of m) (a_confirmed_trade_hashes g)\<rparr>, ch), Unresolved)"
  using assms by (cases "payer_and_counterparty m") (simp add: process_chunk_def Let_def)

lemma requeued_chunk_stays_debited:
  assumes "length sts = length chunk"
  shows "b_ledger (a_batcher (restore_failed_chunk chunk sts g)) = b_ledger (a_batcher g)"
proof -
  have "b_ledger (fold enqueue ms b) = b_ledger b" for ms b
    by (induction ms arbitrary: b) (simp_all add: enqueue_def split: settlement_preference.splits)
  then show ?thesis unfolding restore_failed [OF assms] by simp
qed

end
