(* ===== verification/Node.thy ===== *)
theory Node
  imports Settlement
begin

text \<open>
  The running node: the interleaving of every handler and background loop of the \<^verbatim>\<open>api\<close> crate that
  changes its state, as a step relation, and what survives a crash of it.

  A step is one critical section of the code: a handler, one iteration of a loop, or one of the
  three parts of a snapshot cycle, between which other steps can happen (\<open>snapshot_phase\<close>). The steps
  are those of a node with order sequencing whose resolved orders all have evidence; only then do
  the entries of the log carry the timestamp that replay needs.
\<close>

section \<open>Steps\<close>

datatype snapshot_phase = Idle | Captured snapshot u64 | Saved u64

inductive node_step ::
    "('c, 'd) api_env \<Rightarrow> 'x settlement_env \<Rightarrow> ('c, 'd) app_state \<times> snapshot_phase \<Rightarrow> ('c, 'd) app_state \<times> snapshot_phase \<Rightarrow> bool"
  for E SE where
  submit: "a_order_sequencer g \<noteq> None \<Longrightarrow> node_step E SE (g, ph) (fst (submit_order E clk req g), ph)"
| gossip: "node_step E SE (g, ph) (gossip_step E clk msg g, ph)"
| flushed: "node_step E SE (g, ph) (fst (flush_pending E evidence g), ph)"
| resolved: "list_all (\<lambda>i. map_of evidence i \<noteq> None) ids \<Longrightarrow>
    node_step E SE (g, ph) (resolve_batch E clk ids evidence confirmed g, ph)"
| confirmed: "node_step E SE (g, ph) (fst (confirm_committed E key h g), ph)"
| ticked: "settlement_tick E SE gr env t now now_secs (g, ch) = Some ((g', ch'), outs) \<Longrightarrow> node_step E SE (g, ph) (g', ph)"
| reconciled: "node_step E SE (g, ph) (fst (reconcile_replayed_confirmations E SE candidates (g, ch)), ph)"
| order_query: "node_step E SE (g, ph) (fst (order_log_entries E since g), ph)"
| match_query: "node_step E SE (g, ph) (fst (match_log_entries E since g), ph)"
| nothing_captured: "capture_snapshot E hot g = (g', None) \<Longrightarrow> node_step E SE (g, Idle) (g', Idle)"
| captured: "capture_snapshot E hot g = (g', Some (snap, s)) \<Longrightarrow> node_step E SE (g, Idle) (g', Captured snap s)"
| written: "write_snapshot E snap s g = (g', ok) \<Longrightarrow> node_step E SE (g, Captured snap s) (g', if ok then Saved s else Idle)"
| truncated: "node_step E SE (g, Saved s) (truncate_covered E s g, Idle)"

inductive node_reach ::
    "('c, 'd) api_env \<Rightarrow> 'x settlement_env \<Rightarrow> ('c, 'd) app_state \<Rightarrow> ('c, 'd) app_state \<times> snapshot_phase \<Rightarrow> bool"
  for E SE g0 where
  boot: "node_reach E SE g0 (g0, Idle)"
| step: "node_reach E SE g0 st \<Longrightarrow> node_step E SE st st' \<Longrightarrow> node_reach E SE g0 st'"

section \<open>Extending the log\<close>

text \<open>An append that reports failure took no effect.\<close>

definition failed_append_clean :: "'d store_ops \<Rightarrow> 'd store_view \<Rightarrow> bool" where
  "failed_append_clean S V \<longleftrightarrow> (\<forall>e d d' x. append_entry S e d = (d', Inl x) \<longrightarrow> tree V d' = tree V d)"

definition extends :: "'d store_ops \<Rightarrow> 'd store_view \<Rightarrow> 'd \<Rightarrow> 'd \<Rightarrow> wal_entry list \<Rightarrow> bool" where
  "extends S V d d' es \<longleftrightarrow> next_id V d \<le> next_id V d' \<and> wal_ok S V d'
     \<and> (\<exists>m. tree V d' = (tree V d)(WAL := tree V d WAL @ m) \<and> wal_items S m = es
          \<and> (\<forall>(k, _) \<in> set m. \<exists>i. k = be_bytes (i :: u64) \<and> next_id V d \<le> unat i))"

lemma extends_refl: "wal_ok S V d \<Longrightarrow> extends S V d d []"
  unfolding extends_def by (intro conjI exI [of _ "[]"]) (simp_all add: wal_items_def)

lemma wal_ok_mono:
  "wal_ok S V d \<Longrightarrow> set (tree V d' WAL) \<subseteq> set (tree V d WAL) \<Longrightarrow> next_id V d \<le> next_id V d' \<Longrightarrow> wal_ok S V d'"
  by (fastforce simp: wal_ok_def)

lemma extends_same: "wal_ok S V d \<Longrightarrow> tree V d' = tree V d \<Longrightarrow> next_id V d \<le> next_id V d' \<Longrightarrow> extends S V d d' []"
  unfolding extends_def by (intro conjI exI [of _ "[]"]) (simp_all add: wal_items_def wal_ok_mono [of S V d d'])

lemma extends_trans:
  assumes "extends S V d d1 es" "extends S V d1 d2 es'"
  shows "extends S V d d2 (es @ es')"
proof -
  from assms obtain m m' where
    m: "tree V d1 = (tree V d)(WAL := tree V d WAL @ m)" "wal_items S m = es"
      "\<forall>(k, _) \<in> set m. \<exists>i. k = be_bytes (i :: u64) \<and> next_id V d \<le> unat i" and
    m': "tree V d2 = (tree V d1)(WAL := tree V d1 WAL @ m')" "wal_items S m' = es'"
      "\<forall>(k, _) \<in> set m'. \<exists>i. k = be_bytes (i :: u64) \<and> next_id V d1 \<le> unat i"
    and n: "next_id V d \<le> next_id V d1" "next_id V d1 \<le> next_id V d2" "wal_ok S V d2"
    unfolding extends_def by blast
  have "\<forall>(k, _) \<in> set (m @ m'). \<exists>i. k = be_bytes (i :: u64) \<and> next_id V d \<le> unat i"
    using m(3) m'(3) n(1) by (fastforce intro: order_trans)
  moreover have "wal_items S (m @ m') = es @ es'" using m(2) m'(2) by (simp add: wal_items_def)
  moreover have "tree V d2 = (tree V d)(WAL := tree V d WAL @ m @ m')" using m(1) m'(1) by simp
  ultimately show ?thesis using n unfolding extends_def by (intro conjI exI [of _ "m @ m'"]) auto
qed

lemma append_extends:
  assumes "store_laws S V" "failed_append_clean S V" "wal_ok S V d" "append_entry S e d = (d', r)"
  shows "extends S V d d' (if r = Inr () then [e] else [])"
proof -
  note c = append_entry_cases [OF assms(1,3,4)]
  show ?thesis
  proof (cases "r = Inr ()")
    case True
    then have ap: "appended S V e d d'" using c by blast
    then obtain i b where "next_id V d \<le> unat (i :: u64)" "wal_to_vec S e = Inr b"
      "tree V d' = (tree V d)(WAL := tree V d WAL @ [(be_bytes i, b)])" unfolding appended_def by blast
    moreover have "wal_from_slice S b = Inr e" using assms(1) calculation(2) by (simp add: store_laws_def)
    ultimately show ?thesis using appended_items [OF assms(1,3) ap] c True unfolding extends_def
      by (intro conjI exI [of _ "[(be_bytes i, b)]"]) (auto simp: wal_items_def)
  next
    case False
    then obtain x where "r = Inl x" by (cases r) auto
    then have "tree V d' = tree V d" using assms(2,4) by (auto simp: failed_append_clean_def)
    then show ?thesis using extends_same [OF assms(3)] c False by simp
  qed
qed

section \<open>Steps that the log records\<close>

text \<open>
  \<open>logged\<close> relates two states when the second has the core that the entries appended in between
  give, whatever the clock, and everything else that recovery needs is kept.
\<close>

definition pend_ok :: "(trade_key, match_rec) hash_map \<Rightarrow> bool" where
  "pend_ok p \<longleftrightarrow> hm_ok p \<and> (\<forall>k m. map_of p k = Some m \<longrightarrow> k = trade_key_of m)"

lemma pend_ok_update: "pend_ok p \<Longrightarrow> pend_ok (AList.update (trade_key_of m) m p)"
  unfolding pend_ok_def by (simp add: distinct_update update_conv')

lemma pend_ok_delete: "pend_ok p \<Longrightarrow> pend_ok (AList.delete k p)"
  unfolding pend_ok_def by (simp add: distinct_delete delete_conv')

definition logged ::
    "('c, 'd) api_env \<Rightarrow> 'd store_view \<Rightarrow> ('c, 'd) app_state \<Rightarrow> ('c, 'd) app_state \<Rightarrow> bool" where
  "logged E V g g' \<longleftrightarrow>
     (\<forall>d. a_persistence g = Some d \<longrightarrow> wal_ok (env_store E) V d \<longrightarrow> pend_ok (a_pending_commits g) \<longrightarrow>
        (\<exists>d' es. a_persistence g' = Some d' \<and> extends (env_store E) V d d' es
           \<and> (\<forall>now. core_of g' = core_run E now es (core_of g))))
   \<and> (pend_ok (a_pending_commits g) \<longrightarrow> pend_ok (a_pending_commits g'))
   \<and> book_config (a_order_book g') = book_config (a_order_book g)"

lemma logged_refl [simp]: "logged E V g g"
  unfolding logged_def using extends_refl by (fastforce simp: core_run_def)

lemma logged_trans:
  assumes "logged E V g g1" "logged E V g1 g2"
  shows "logged E V g g2"
  unfolding logged_def
proof (intro conjI allI impI)
  fix d assume "a_persistence g = Some d" "wal_ok (env_store E) V d" "pend_ok (a_pending_commits g)"
  with assms(1) obtain d1 es1 where 1: "a_persistence g1 = Some d1" "extends (env_store E) V d d1 es1"
    "\<forall>now. core_of g1 = core_run E now es1 (core_of g)" unfolding logged_def by blast
  have "pend_ok (a_pending_commits g1)" using assms(1) \<open>pend_ok (a_pending_commits g)\<close> by (simp add: logged_def)
  moreover from 1(2) have "wal_ok (env_store E) V d1" by (simp add: extends_def)
  ultimately obtain d2 es2 where 2: "a_persistence g2 = Some d2" "extends (env_store E) V d1 d2 es2"
    "\<forall>now. core_of g2 = core_run E now es2 (core_of g1)" using assms(2) 1(1) unfolding logged_def by blast
  have "core_of g2 = core_run E now (es1 @ es2) (core_of g)" for now
    using 1(3) 2(3) by (simp add: core_run_def)
  then show "\<exists>d' es. a_persistence g2 = Some d' \<and> extends (env_store E) V d d' es
      \<and> (\<forall>now. core_of g2 = core_run E now es (core_of g))"
    using 2(1) extends_trans [OF 1(2) 2(2)] by blast
qed (use assms in \<open>auto simp: logged_def\<close>)

text \<open>Changes outside the core, the log and the configuration.\<close>

lemma logged_outside:
  "core_of g' = core_of g \<Longrightarrow> a_persistence g' = a_persistence g \<Longrightarrow> a_pending_commits g' = a_pending_commits g \<Longrightarrow>
   book_config (a_order_book g') = book_config (a_order_book g) \<Longrightarrow> logged E V g g'"
  unfolding logged_def using extends_refl by (fastforce simp: core_run_def)

lemma logged_fold: "(\<And>x g. logged E V g (f x g)) \<Longrightarrow> logged E V g (fold f xs g)"
  by (induction xs arbitrary: g) (auto intro: logged_trans)

lemma persist_append:
  assumes "store_laws (env_store E) V" "failed_append_clean (env_store E) V" "a_persistence g = Some d" "wal_ok (env_store E) V d"
    and "persist (append_entry (env_store E) e) g = (g', r)"
  obtains d' where "g' = g\<lparr>a_persistence := Some d'\<rparr>" "extends (env_store E) V d d' (if r = Inr () then [e] else [])"
proof -
  obtain d' r' where a: "append_entry (env_store E) e d = (d', r')" by (cases "append_entry (env_store E) e d")
  then have "g' = g\<lparr>a_persistence := Some d'\<rparr>" "r = r'" using assms(3,5) by (simp_all add: persist_def)
  with append_extends [OF assms(1,2,4) a] that show ?thesis by blast
qed

text \<open>Logging an entry that does not change the core.\<close>

lemma logged_persist:
  assumes "store_laws (env_store E) V" "failed_append_clean (env_store E) V"
    and "\<And>now c. core_step E now e c = c"
  shows "logged E V g (fst (persist (append_entry (env_store E) e) g))"
proof -
  obtain g' r where p: "persist (append_entry (env_store E) e) g = (g', r)" by (cases "persist (append_entry (env_store E) e) g")
  have "\<exists>d' es. a_persistence g' = Some d' \<and> extends (env_store E) V d d' es \<and> (\<forall>now. core_of g' = core_run E now es (core_of g))"
    if d: "a_persistence g = Some d" "wal_ok (env_store E) V d" for d
  proof -
    obtain d' where "g' = g\<lparr>a_persistence := Some d'\<rparr>" "extends (env_store E) V d d' (if r = Inr () then [e] else [])"
      using persist_append [OF assms(1,2) d p] .
    then show ?thesis using assms(3)
      by (intro exI [of _ d'] exI [of _ "if r = Inr () then [e] else []"]) (simp add: core_run_def)
  qed
  moreover have "a_pending_commits g' = a_pending_commits g" "a_order_book g' = a_order_book g"
    using p by (auto simp: persist_def split: option.splits prod.splits)
  ultimately show ?thesis unfolding logged_def p by simp
qed

section \<open>The handlers\<close>

lemma pending_record_ok: "pend_ok (a_pending_commits g) \<Longrightarrow> pend_ok (a_pending_commits (fold (record_match E clk) ms g))"
  by (induction ms arbitrary: g) (simp_all add: record_match_def pend_ok_update)

lemma record_other:
  "a_persistence (fold (record_match E clk) ms g) = a_persistence g"
  "a_order_book (fold (record_match E clk) ms g) = a_order_book g"
  "a_pending_order_data (fold (record_match E clk) ms g) = a_pending_order_data g"
  "a_applied_order_ids (fold (record_match E clk) ms g) = a_applied_order_ids g"
  "a_order_log (fold (record_match E clk) ms g) = a_order_log g"
  by (induction ms arbitrary: g) (simp_all add: record_match_def)

lemma flood_other:
  "a_persistence (flood_accepted clk o1 e g) = a_persistence g" "a_order_book (flood_accepted clk o1 e g) = a_order_book g"
  "a_pending_commits (flood_accepted clk o1 e g) = a_pending_commits g"
  "a_pending_order_data (flood_accepted clk o1 e g) = a_pending_order_data g"
  "a_applied_order_ids (flood_accepted clk o1 e g) = a_applied_order_ids g"
  "a_order_log (flood_accepted clk o1 e g) = a_order_log g"
  by (simp_all add: flood_accepted_def Let_def split: option.splits)

lemma apply_locally_other:
  fixes g :: "('c, 'd) app_state" and E clk order receipt ts flood
  defines "g' \<equiv> fst (apply_accepted_order_locally E clk order receipt ts flood g)"
  shows "a_persistence g' = a_persistence g" "pend_ok (a_pending_commits g) \<Longrightarrow> pend_ok (a_pending_commits g')"
    "book_config (a_order_book g') = book_config (a_order_book g)" "a_pending_order_data g' = a_pending_order_data g"
    "a_applied_order_ids g' = insert (o_id order) (a_applied_order_ids g)"
    "a_order_log g' = fst (log_append (env_sha E) (env_ser_receipt E) receipt (a_order_log g))"
  unfolding g'_def apply_accepted_order_locally_def
  using add_order_at_config [of order "case ts of Some t \<Rightarrow> t | None \<Rightarrow> clk_us clk" "a_order_book g"]
  by (auto simp: Let_def record_other flood_other add_order_def split: prod.splits option.splits intro!: pending_record_ok)

lemma logged_apply:
  assumes laws: "store_laws (env_store E) V" and clean: "failed_append_clean (env_store E) V"
  shows "logged E V g (fst (apply_accepted_order E clk order receipt (Some t) g))"
proof -
  let ?e = "OrderAccepted order receipt (Some t)"
  obtain g1 r where p: "persist (append_entry (env_store E) ?e) g = (g1, r)" by (cases "persist (append_entry (env_store E) ?e) g")
  let ?g2 = "fst (apply_accepted_order_locally E clk order receipt (Some t) True g1)"
  have res: "fst (apply_accepted_order E clk order receipt (Some t) g) = (if r = Inr () then ?g2 else g1)"
    using p by (cases r) (auto simp: apply_accepted_order_def append_order_accepted_def split: prod.splits)
  have same: "a_pending_commits g1 = a_pending_commits g" "a_order_book g1 = a_order_book g" "core_of g1 = core_of g"
    using p by (auto simp: persist_def split: option.splits prod.splits)
  have "\<exists>d' es. a_persistence (if r = Inr () then ?g2 else g1) = Some d' \<and> extends (env_store E) V d d' es
      \<and> (\<forall>now. core_of (if r = Inr () then ?g2 else g1) = core_run E now es (core_of g))"
    if d: "a_persistence g = Some d" "wal_ok (env_store E) V d" for d
  proof -
    obtain d' where d': "g1 = g\<lparr>a_persistence := Some d'\<rparr>" "extends (env_store E) V d d' (if r = Inr () then [?e] else [])"
      using persist_append [OF laws clean d p] .
    then show ?thesis
      by (intro exI [of _ d'] exI [of _ "if r = Inr () then [?e] else []"])
        (simp add: apply_locally_other core_apply_locally core_run_def core_step_def)
  qed
  moreover have "pend_ok (a_pending_commits g) \<longrightarrow> pend_ok (a_pending_commits (if r = Inr () then ?g2 else g1))"
    using apply_locally_other(2) [where g = g1 and ts = "Some t"] same(1) by simp
  moreover have "book_config (a_order_book (if r = Inr () then ?g2 else g1)) = book_config (a_order_book g)"
    using apply_locally_other(3) [where g = g1 and ts = "Some t"] same(2) by simp
  ultimately show ?thesis unfolding logged_def res by blast
qed

lemma logged_queue:
  assumes "store_laws (env_store E) V" "failed_append_clean (env_store E) V"
  shows "logged E V g (fst (queue_for_sequencing E order receipt g))"
proof -
  obtain g1 r where p: "persist (append_entry (env_store E) (OrderQueued order receipt)) g = (g1, r)"
    by (cases "persist (append_entry (env_store E) (OrderQueued order receipt)) g")
  have l: "logged E V g g1"
    using logged_persist [OF assms, of "OrderQueued order receipt" g] p by (simp add: core_step_def)
  show ?thesis
    using p by (cases r)
      (auto simp: queue_for_sequencing_def append_order_queued_def l intro!: logged_trans [OF l] logged_outside)
qed

lemma logged_validated: "logged E V g (g\<lparr>a_validator := v\<rparr>)"
  by (intro logged_outside) simp_all

lemma logged_submit:
  assumes "store_laws (env_store E) V" "failed_append_clean (env_store E) V" "a_order_sequencer g \<noteq> None"
  shows "logged E V g (fst (submit_order E clk req g))"
proof -
  obtain v ok where v: "validate_order (env_ed E) (env_lru E) (clk_secs clk) (order_of req) (a_validator g) = (v, ok)"
    by (cases "validate_order (env_ed E) (env_lru E) (clk_secs clk) (order_of req) (a_validator g)")
  let ?g = "g\<lparr>a_validator := v\<rparr>"
  have "fst (submit_order E clk req g) \<in> {?g, fst (queue_for_sequencing E (order_of req) (receipt_for E clk (order_of req) ?g) ?g)}"
    using assms(3) v by (auto simp: submit_order_def Let_def split: prod.splits sum.splits)
  then show ?thesis using logged_validated logged_trans [OF logged_validated logged_queue [OF assms(1,2)]] by auto
qed

lemma logged_gossip:
  assumes "store_laws (env_store E) V" "failed_append_clean (env_store E) V"
  shows "logged E V g (gossip_step E clk msg g)"
proof -
  obtain v ok where v: "validate_order (env_ed E) (env_lru E) (clk_secs clk) (f_order msg) (a_validator g) = (v, ok)"
    by (cases "validate_order (env_ed E) (env_lru E) (clk_secs clk) (f_order msg) (a_validator g)")
  let ?g = "g\<lparr>a_validator := v\<rparr>"
  have "gossip_step E clk msg g \<in> {g, ?g, fst (queue_for_sequencing E (f_order msg) (receipt_for E clk (f_order msg) ?g) ?g)}"
    using v by (auto simp: gossip_step_def Let_def)
  then show ?thesis using logged_validated logged_trans [OF logged_validated logged_queue [OF assms]] by auto
qed

lemma logged_flush: "logged E V g (fst (flush_pending E evidence g))"
  by (intro logged_outside) (auto simp: flush_pending_def split: option.splits prod.splits)

lemma logged_apply_resolved:
  assumes "store_laws (env_store E) V" "failed_append_clean (env_store E) V" "map_of evidence i \<noteq> None"
  shows "logged E V g (apply_resolved E clk evidence i g)"
proof (cases "map_of (a_pending_order_data g) i")
  case None
  then show ?thesis by (simp add: apply_resolved_def)
next
  case (Some x)
  obtain t where t: "match_timestamp evidence i = Some t" using assms(3) by (auto simp: match_timestamp_def)
  have "logged E V g (g\<lparr>a_pending_order_data := AList.delete i (a_pending_order_data g)\<rparr>)" by (intro logged_outside) simp_all
  from logged_trans [OF this logged_apply [OF assms(1,2)]] show ?thesis using Some t by (cases x) (simp add: apply_resolved_def)
qed

lemma logged_resolve:
  assumes "store_laws (env_store E) V" "failed_append_clean (env_store E) V" "list_all (\<lambda>i. map_of evidence i \<noteq> None) ids"
  shows "logged E V g (resolve_batch E clk ids evidence confirmed g)"
proof -
  have "logged E V g (apply_resolved_batch E clk ids evidence g)"
    using assms(3) unfolding apply_resolved_batch_def
  proof (induction ids arbitrary: g)
    case (Cons i ids)
    have "logged E V g (apply_resolved E clk evidence i g)"
      using Cons.prems by (intro logged_apply_resolved [OF assms(1,2)]) simp
    from logged_trans [OF this Cons.IH] Cons.prems show ?case by simp
  qed simp
  moreover have "logged E V g (g\<lparr>a_order_sequencer := q\<rparr>)" for q by (intro logged_outside) simp_all
  ultimately show ?thesis by (simp add: resolve_batch_def split: option.splits)
qed

lemma logged_confirm:
  assumes laws: "store_laws (env_store E) V" and clean: "failed_append_clean (env_store E) V"
  shows "logged E V g (fst (confirm_committed E key h g))"
proof (cases "map_of (a_pending_commits g) key")
  case None
  then show ?thesis by (simp add: confirm_committed_def)
next
  case (Some m)
  let ?e = "CommitConfirmed m h" and ?g0 = "g\<lparr>a_pending_commits := AList.delete key (a_pending_commits g)\<rparr>"
  obtain g1 r where p: "persist (append_entry (env_store E) ?e) ?g0 = (g1, r)" by (cases "persist (append_entry (env_store E) ?e) ?g0")
  let ?g2 = "if r = Inr () then confirm_committed_locally m h g1 else g1\<lparr>a_pending_commits := AList.update key m (a_pending_commits g1)\<rparr>"
  have res: "fst (confirm_committed E key h g) = ?g2"
    using p Some by (cases r) (auto simp: confirm_committed_def append_commit_confirmed_def Let_def)
  have same: "a_pending_commits g1 = AList.delete key (a_pending_commits g)" "a_order_book g1 = a_order_book g" "core_of g1 = core_of ?g0"
    using p by (auto simp: persist_def split: option.splits prod.splits)
  have pc: "a_pending_commits ?g2 = (if r = Inr () then AList.delete key (a_pending_commits g)
      else AList.update key m (AList.delete key (a_pending_commits g)))"
    using same(1) by (simp add: confirm_committed_locally_def Let_def)
  have key: "pend_ok (a_pending_commits g) \<Longrightarrow> key = trade_key_of m" using Some unfolding pend_ok_def by blast
  have cp: "c_pending (core_of g) key = Some m" using Some by (simp add: core_of_def)
  have core: "core_of ?g2 = (if r = Inr () then (core_of g)\<lparr>c_pending := (c_pending (core_of g))(key := None)\<rparr> else core_of g)"
    using same(3) cp by (simp add: fun_upd_idem)
  have "\<exists>d' es. a_persistence ?g2 = Some d' \<and> extends (env_store E) V d d' es \<and> (\<forall>now. core_of ?g2 = core_run E now es (core_of g))"
    if d: "a_persistence g = Some d" "wal_ok (env_store E) V d" "pend_ok (a_pending_commits g)" for d
  proof -
    have "a_persistence ?g0 = Some d" using d by simp
    then obtain d' where d': "g1 = ?g0\<lparr>a_persistence := Some d'\<rparr>" "extends (env_store E) V d d' (if r = Inr () then [?e] else [])"
      using persist_append [OF laws clean _ d(2) p] by blast
    have "a_persistence ?g2 = Some d'" using d'(1) by (simp add: confirm_committed_locally_def Let_def)
    then show ?thesis using core key [OF d(3)] d'(2)
      by (intro exI [of _ d'] exI [of _ "if r = Inr () then [?e] else []"]) (simp add: core_run_def core_step_def)
  qed
  moreover have "pend_ok (a_pending_commits g) \<longrightarrow> pend_ok (a_pending_commits ?g2)"
    using key pc by (auto intro!: pend_ok_update pend_ok_delete)
  moreover have "book_config (a_order_book ?g2) = book_config (a_order_book g)"
    using same(2) by (simp add: confirm_committed_locally_def Let_def)
  ultimately show ?thesis unfolding logged_def res by blast
qed

lemma logged_checkpoint:
  assumes "store_laws (env_store E) V" "failed_append_clean (env_store E) V"
  shows "logged E V g (fst (persist (append_batch_submitted (env_store E) keys) g))"
  using logged_persist [OF assms, of "BatchSubmitted keys" g] by (simp add: append_batch_submitted_def core_step_def)

interpretation lg: settlement_frame E "\<lambda>g g'. store_laws (env_store E) V \<longrightarrow> failed_append_clean (env_store E) V \<longrightarrow> logged E V g g'"
  for E :: "('c, 'd) api_env" and V
proof unfold_locales
  fix g1 g2 g3 :: "('c, 'd) app_state"
  assume "store_laws (env_store E) V \<longrightarrow> failed_append_clean (env_store E) V \<longrightarrow> logged E V g1 g2"
    "store_laws (env_store E) V \<longrightarrow> failed_append_clean (env_store E) V \<longrightarrow> logged E V g2 g3"
  then show "store_laws (env_store E) V \<longrightarrow> failed_append_clean (env_store E) V \<longrightarrow> logged E V g1 g3" using logged_trans by blast
qed (auto intro!: logged_outside logged_checkpoint)

lemma logged_tick:
  assumes "store_laws (env_store E) V" "failed_append_clean (env_store E) V"
    and "settlement_tick E SE gr env t now now_secs (g, ch) = Some ((g', ch'), outs)"
  shows "logged E V g g'"
  using lg.tick [OF assms(3)] assms(1,2) by blast

lemma logged_reconcile:
  assumes "store_laws (env_store E) V" "failed_append_clean (env_store E) V"
  shows "logged E V g (fst (reconcile_replayed_confirmations E SE cs (g, ch)))"
  using lg.reconcile [where st = "(g, ch)" and E = E and V = V and SE = SE and cs = cs] assms by simp

text \<open>The queries change nothing.\<close>

lemma logged_query:
  assumes "store_laws (env_store E) V"
    and t: "\<And>d. fst (archived_since since d) = fst (open_tree (env_store E) t d)"
  shows "logged E V g (fst (spanning_entries archived_since since hot g))"
proof -
  have "\<exists>d'. fst (spanning_entries archived_since since hot g) = g\<lparr>a_persistence := Some d'\<rparr>
      \<and> tree V d' = tree V d \<and> next_id V d' = next_id V d" if d: "a_persistence g = Some d" for d
  proof -
    have "wrote V t id d (fst (open_tree (env_store E) t d))" using assms(1) by (simp add: store_laws_def)
    then have "tree V (fst (archived_since since d)) = tree V d \<and> next_id V (fst (archived_since since d)) = next_id V d"
      using t by (simp add: wrote_id)
    moreover have "fst (spanning_entries archived_since since hot g)
        \<in> {g\<lparr>a_persistence := Some d\<rparr>, g\<lparr>a_persistence := Some (fst (archived_since since d))\<rparr>}"
      using d by (auto simp: spanning_entries_def Let_def split: prod.splits sum.splits)
    ultimately show ?thesis by blast
  qed
  moreover have "a_persistence g = None \<Longrightarrow> fst (spanning_entries archived_since since hot g) = g"
    by (simp add: spanning_entries_def Let_def)
  ultimately show ?thesis
    unfolding logged_def using extends_same by (cases "a_persistence g") (fastforce simp: core_run_def)+
qed

lemma logged_order_query: "store_laws (env_store E) V \<Longrightarrow> logged E V g (fst (order_log_entries E since g))"
  unfolding order_log_entries_def
  by (rule logged_query [where t = ORDER_ARCHIVE]) (auto simp: archived_order_log_entries_since_def io_bind_def io_lift_def split: prod.splits sum.splits)

lemma logged_match_query: "store_laws (env_store E) V \<Longrightarrow> logged E V g (fst (match_log_entries E since g))"
  unfolding match_log_entries_def
  by (rule logged_query [where t = MATCH_ARCHIVE]) (auto simp: archived_match_log_entries_since_def io_bind_def io_lift_def split: prod.splits sum.splits)

section \<open>Archiving\<close>

text \<open>Archiving writes only its own tree, and trimming a log keeps its tip.\<close>

definition archived_only :: "'d store_view \<Rightarrow> 'd \<Rightarrow> 'd \<Rightarrow> bool" where
  "archived_only V d d' \<longleftrightarrow> tree V d' WAL = tree V d WAL \<and> tree V d' SNAPSHOT = tree V d SNAPSHOT \<and> next_id V d' = next_id V d"

lemma archived_only_simps [simp]: "archived_only V d d" "archived_only V d d1 \<Longrightarrow> archived_only V d1 d2 \<Longrightarrow> archived_only V d d2"
  by (simp_all add: archived_only_def)

lemma wrote_archived: "wrote V t f d d' \<Longrightarrow> t \<noteq> WAL \<Longrightarrow> t \<noteq> SNAPSHOT \<Longrightarrow> archived_only V d d'"
  by (simp add: wrote_def archived_only_def)

lemma archive_laws:
  assumes "store_laws S V" "t \<noteq> WAL" "t \<noteq> SNAPSHOT"
  shows "archived_only V d (fst (open_tree S t d))" "archived_only V d (fst (tree_flush S t d))"
    "archived_only V d (fst (tree_insert S t k v d))"
proof -
  have "wrote V t id d (fst (open_tree S t d))" "wrote V t id d (fst (tree_flush S t d))"
    "wrote V t (bt_insert k v) d (fst (tree_insert S t k v d)) \<or> wrote V t id d (fst (tree_insert S t k v d))"
    using assms(1) by (simp_all add: store_laws_def)
  then show "archived_only V d (fst (open_tree S t d))" "archived_only V d (fst (tree_flush S t d))"
    "archived_only V d (fst (tree_insert S t k v d))"
    using wrote_archived [OF _ assms(2,3)] by auto
qed

lemma io_bind_archived:
  "(\<And>d. archived_only V d (fst (f d))) \<Longrightarrow> (\<And>x d. archived_only V d (fst (h x d))) \<Longrightarrow> archived_only V d (fst (io_bind f h d))"
proof -
  assume f: "\<And>d. archived_only V d (fst (f d))" and h: "\<And>x d. archived_only V d (fst (h x d))"
  obtain d1 r where r: "f d = (d1, r)" by fastforce
  then have "archived_only V d d1" using f [of d] by simp
  then show ?thesis using r h by (cases r) (auto simp: io_bind_def intro: archived_only_simps(2))
qed

lemma io_each_archived:
  "(\<And>x d. archived_only V d (fst (f x d))) \<Longrightarrow> archived_only V d (fst (io_each f xs d))"
proof (induction xs arbitrary: d)
  case (Cons x xs)
  then show ?case by (simp add: io_bind_archived)
qed (simp add: io_ok_def)

lemma archive_entries_archived:
  assumes laws: "store_laws S V" and t: "t \<noteq> WAL" "t \<noteq> SNAPSHOT"
  shows "archived_only V d (fst (archive_entries S t enc es d))"
  unfolding archive_entries_def
  by (intro io_bind_archived io_each_archived archive_laws [OF assms]) (simp add: io_lift_def)

lemma log_tip_split [simp]: "log_tip (snd (split_off_archived s l)) = log_tip l"
proof -
  let ?n = "min (saturating_sub s (base_seq l)) (of_nat (length (log_entries l)))"
  have "unat ?n \<le> unat (of_nat (length (log_entries l)) :: u64)" by (simp add: word_le_nat_alt [symmetric])
  also have "\<dots> \<le> length (log_entries l)" by (simp add: unat_of_nat)
  finally have "of_nat (length (log_entries l) - unat ?n) = (of_nat (length (log_entries l)) - ?n :: u64)"
    by (simp add: of_nat_diff)
  moreover have "last_hash (last_hash (base_prev_hash l) (take (unat ?n) (log_entries l))) (drop (unat ?n) (log_entries l))
      = last_hash (base_prev_hash l) (log_entries l)"
    by (metis append_take_drop_id last_hash_append)
  ultimately show ?thesis by (simp add: split_off_archived_def log_tip_def next_seq_def log_root_def Let_def)
qed

lemma archive_and_trim_keeps:
  assumes "\<And>es d. archived_only V d (fst (archive es d))"
  shows "archived_only V d (fst (archive_and_trim archive hot l d)) \<and> log_tip (snd (archive_and_trim archive hot l d)) = log_tip l"
proof -
  obtain es l' where sp: "split_off_archived (next_seq l - hot) l = (es, l')" by fastforce
  then have "log_tip l' = log_tip l" using log_tip_split [of "next_seq l - hot" l] by simp
  moreover obtain d' r where a: "archive es d = (d', r)" by fastforce
  moreover have "archived_only V d d'" using assms [of d es] a by simp
  ultimately show ?thesis using sp by (cases r) (simp_all add: archive_and_trim_def Let_def)
qed

section \<open>What a crash leaves\<close>

definition tail_after :: "'d store_ops \<Rightarrow> 'd store_view \<Rightarrow> 'd \<Rightarrow> u64 \<Rightarrow> wal_entry list" where
  "tail_after S V d s = wal_items S (filter (\<lambda>(k, _). be_bytes s < k) (tree V d WAL))"

text \<open>A snapshot and the entries after its sequence number give the present core.\<close>

definition covers ::
    "('c, 'd) api_env \<Rightarrow> 'd store_view \<Rightarrow> order_book \<Rightarrow> ('c, 'd) app_state \<Rightarrow> 'd \<Rightarrow> snapshot \<Rightarrow> u64 \<Rightarrow> bool" where
  "covers E V b g d snap s \<longleftrightarrow> unat s < next_id V d
     \<and> (\<forall>now. core_run E now (tail_after (env_store E) V d s) (snapshot_core b snap) = core_of g)"

definition stored_snapshot :: "'d store_view \<Rightarrow> 'd \<Rightarrow> bytes option" where
  "stored_snapshot V d = map_of (tree V d SNAPSHOT) (as_bytes ''latest'')"

definition recoverable ::
    "('c, 'd) api_env \<Rightarrow> 'd store_view \<Rightarrow> order_book \<Rightarrow> core \<Rightarrow> ('c, 'd) app_state \<Rightarrow> 'd \<Rightarrow> bool" where
  "recoverable E V b c0 g d \<longleftrightarrow> (case stored_snapshot V d of
     None \<Rightarrow> \<forall>now. core_run E now (wal_items (env_store E) (tree V d WAL)) c0 = core_of g
   | Some x \<Rightarrow> \<exists>snap s. snap_from_slice (env_store E) x = Inr (snap, s) \<and> covers E V b g d snap s)"

definition phase_ok ::
    "('c, 'd) api_env \<Rightarrow> 'd store_view \<Rightarrow> order_book \<Rightarrow> ('c, 'd) app_state \<Rightarrow> 'd \<Rightarrow> snapshot_phase \<Rightarrow> bool" where
  "phase_ok E V b g d ph = (case ph of
     Idle \<Rightarrow> True
   | Captured snap s \<Rightarrow> covers E V b g d snap s
   | Saved s \<Rightarrow> (\<exists>x snap. stored_snapshot V d = Some x \<and> snap_from_slice (env_store E) x = Inr (snap, s)))"

definition crash_safe ::
    "('c, 'd) api_env \<Rightarrow> 'd store_view \<Rightarrow> order_book \<Rightarrow> core \<Rightarrow> ('c, 'd) app_state \<times> snapshot_phase \<Rightarrow> bool" where
  "crash_safe E V b c0 st \<longleftrightarrow> (case st of (g, ph) \<Rightarrow>
     (\<exists>d. a_persistence g = Some d \<and> wal_ok (env_store E) V d \<and> recoverable E V b c0 g d \<and> phase_ok E V b g d ph)
   \<and> pend_ok (a_pending_commits g) \<and> book_config (a_order_book g) = book_config b)"

lemma core_run_append: "core_run E now (es @ es') c = core_run E now es' (core_run E now es c)"
  by (simp add: core_run_def)

lemma tail_extends:
  assumes "extends S V d d' es" and "unat s < next_id V d"
  shows "tail_after S V d' s = tail_after S V d s @ es"
proof -
  obtain m where m: "tree V d' WAL = tree V d WAL @ m" "wal_items S m = es"
    "\<forall>(k, _) \<in> set m. \<exists>i. k = be_bytes (i :: u64) \<and> next_id V d \<le> unat i"
    using assms(1) by (auto simp: extends_def)
  have "filter (\<lambda>(k, _). be_bytes s < k) m = m"
    using m(3) assms(2) by (auto simp: filter_id_conv word_less_nat_alt)
  then show ?thesis using m(1,2) by (simp add: tail_after_def wal_items_def)
qed

lemma covers_extends:
  assumes "covers E V b g d snap s" "extends (env_store E) V d d' es" "\<And>now. core_of g' = core_run E now es (core_of g)"
  shows "covers E V b g' d' snap s"
proof -
  have "unat s < next_id V d" "next_id V d \<le> next_id V d'" using assms(1,2) by (auto simp: covers_def extends_def)
  moreover have "tail_after (env_store E) V d' s = tail_after (env_store E) V d s @ es"
    using tail_extends [OF assms(2)] assms(1) by (simp add: covers_def)
  ultimately show ?thesis using assms(1,3) unfolding covers_def by (simp add: core_run_append)
qed

lemma crash_safe_logged:
  assumes "crash_safe E V b c0 (g, ph)" "logged E V g g'"
  shows "crash_safe E V b c0 (g', ph)"
proof -
  from assms(1) obtain d where d: "a_persistence g = Some d" "wal_ok (env_store E) V d" "recoverable E V b c0 g d"
    "phase_ok E V b g d ph" "pend_ok (a_pending_commits g)" by (auto simp: crash_safe_def)
  with assms(2) obtain d' es where d': "a_persistence g' = Some d'" "extends (env_store E) V d d' es"
    "\<And>now. core_of g' = core_run E now es (core_of g)" unfolding logged_def by metis
  have slot: "stored_snapshot V d' = stored_snapshot V d"
    using d'(2) by (auto simp: stored_snapshot_def extends_def WAL_def SNAPSHOT_def)
  have all: "wal_items (env_store E) (tree V d' WAL) = wal_items (env_store E) (tree V d WAL) @ es"
    using d'(2) by (auto simp: extends_def wal_items_def)
  have "recoverable E V b c0 g' d'"
    using d(3) d'(3) covers_extends [OF _ d'(2,3)] unfolding recoverable_def slot all
    by (fastforce simp: core_run_append split: option.splits)
  moreover have "phase_ok E V b g' d' ph"
    using d(4) covers_extends [OF _ d'(2,3)] slot by (auto simp: phase_ok_def split: snapshot_phase.splits)
  moreover have "wal_ok (env_store E) V d'" using d'(2) by (simp add: extends_def)
  ultimately show ?thesis using assms d'(1) by (auto simp: crash_safe_def logged_def)
qed

text \<open>The snapshot cycle.\<close>

lemma recoverable_cong:
  assumes "tree V d' WAL = tree V d WAL" "tree V d' SNAPSHOT = tree V d SNAPSHOT" "next_id V d' = next_id V d" "core_of g' = core_of g"
  shows "recoverable E V b c0 g' d' = recoverable E V b c0 g d" "covers E V b g' d' snap s = covers E V b g d snap s"
  using assms by (simp_all add: recoverable_def covers_def tail_after_def stored_snapshot_def cong: option.case_cong)

lemma core_of_logs:
  "log_tip ol = log_tip (a_order_log g) \<Longrightarrow> core_of (g\<lparr>a_order_log := ol\<rparr>) = core_of g"
  "log_tip ml = log_tip (a_match_log g) \<Longrightarrow> core_of (g\<lparr>a_match_log := ml\<rparr>) = core_of g"
  by (simp_all add: core_of_def)

lemma capture_trims:
  assumes laws: "store_laws (env_store E) V" and d: "a_persistence g = Some d"
    and c: "capture_snapshot E hot g = (g', cap)"
  obtains d' ol ml where "g' = g\<lparr>a_order_log := ol, a_match_log := ml, a_persistence := Some d'\<rparr>" "archived_only V d d'"
    "log_tip ol = log_tip (a_order_log g)" "log_tip ml = log_tip (a_match_log g)"
    "case cap of None \<Rightarrow> True | Some (snap, s) \<Rightarrow> snap = build_snapshot g' \<and> latest_seq (env_store E) d' = Inr (Some s)"
proof -
  have ne: "ORDER_ARCHIVE \<noteq> WAL" "ORDER_ARCHIVE \<noteq> SNAPSHOT" "MATCH_ARCHIVE \<noteq> WAL" "MATCH_ARCHIVE \<noteq> SNAPSHOT"
    by (simp_all add: ORDER_ARCHIVE_def MATCH_ARCHIVE_def WAL_def SNAPSHOT_def)
  have arch: "archived_only V d (fst (archive_order_log_entries (env_store E) es d))"
    "archived_only V d (fst (archive_match_log_entries (env_store E) es' d))" for d es es'
    using archive_entries_archived [OF laws ne(1,2)] archive_entries_archived [OF laws ne(3,4)]
    by (simp_all add: archive_order_log_entries_def archive_match_log_entries_def)
  obtain d1 ol where 1: "archive_and_trim (archive_order_log_entries (env_store E)) hot (a_order_log g) d = (d1, ol)" by fastforce
  obtain d2 ml where 2: "archive_and_trim (archive_match_log_entries (env_store E)) hot (a_match_log g) d1 = (d2, ml)" by fastforce
  have "archived_only V d d1" "log_tip ol = log_tip (a_order_log g)"
    using archive_and_trim_keeps [of V "archive_order_log_entries (env_store E)" d hot "a_order_log g", OF arch(1)] 1 by simp_all
  moreover have "archived_only V d1 d2" "log_tip ml = log_tip (a_match_log g)"
    using archive_and_trim_keeps [of V "archive_match_log_entries (env_store E)" d1 hot "a_match_log g", OF arch(2)] 2 by simp_all
  moreover have "g' = g\<lparr>a_order_log := ol, a_match_log := ml, a_persistence := Some d2\<rparr>"
    "case cap of None \<Rightarrow> True | Some (snap, s) \<Rightarrow> snap = build_snapshot g' \<and> latest_seq (env_store E) d2 = Inr (Some s)"
    using c d 1 2 by (auto simp: capture_snapshot_def archive_and_trim_order_log_def archive_and_trim_match_log_def Let_def
        split: sum.splits option.splits)
  ultimately show ?thesis using that [of d2 ml ol] archived_only_simps(2) [of V d d1 d2] by blast
qed

lemma crash_safe_capture:
  assumes laws: "store_laws (env_store E) V" and safe: "crash_safe E V b c0 (g, Idle)"
    and c: "capture_snapshot E hot g = (g', cap)"
  shows "crash_safe E V b c0 (g', case cap of None \<Rightarrow> Idle | Some (snap, s) \<Rightarrow> Captured snap s)"
proof -
  from safe obtain d where d: "a_persistence g = Some d" "wal_ok (env_store E) V d" "recoverable E V b c0 g d"
    and g: "pend_ok (a_pending_commits g)" "book_config (a_order_book g) = book_config b" by (auto simp: crash_safe_def)
  obtain d' ol ml where t: "g' = g\<lparr>a_order_log := ol, a_match_log := ml, a_persistence := Some d'\<rparr>" "archived_only V d d'"
    "log_tip ol = log_tip (a_order_log g)" "log_tip ml = log_tip (a_match_log g)"
    "case cap of None \<Rightarrow> True | Some (snap, s) \<Rightarrow> snap = build_snapshot g' \<and> latest_seq (env_store E) d' = Inr (Some s)"
    using capture_trims [OF laws d(1) c] .
  have core: "core_of g' = core_of g" using t(1,3,4) by (simp add: core_of_def)
  have ok: "wal_ok (env_store E) V d'" using d(2) t(2) by (simp add: wal_ok_def archived_only_def)
  have rec: "recoverable E V b c0 g' d'" using recoverable_cong(1) [OF _ _ _ core] t(2) d(3) by (simp add: archived_only_def)
  have g': "pend_ok (a_pending_commits g')" "book_config (a_order_book g') = book_config b" "a_persistence g' = Some d'"
    using g t(1) by simp_all
  have "phase_ok E V b g' d' (case cap of None \<Rightarrow> Idle | Some (snap, s) \<Rightarrow> Captured snap s)"
  proof (cases cap)
    case (Some x)
    obtain snap s where x: "x = (snap, s)" by (cases x)
    then have s: "snap = build_snapshot g'" "latest_seq (env_store E) d' = Inr (Some s)" using t(5) Some by simp_all
    note last = latest_seq_last [OF laws ok s(2)]
    have "filter (\<lambda>(k, _). be_bytes s < k) (tree V d' WAL) = []" using last(2) by (auto simp: filter_empty_conv not_less)
    then have "tail_after (env_store E) V d' s = []" by (simp add: tail_after_def wal_items_def)
    moreover have "snapshot_core b snap = core_of g'"
      using core_build_snapshot [of g' b] g' s(1) by (simp add: pend_ok_def)
    ultimately show ?thesis using last(1) Some x by (simp add: phase_ok_def covers_def core_run_def)
  qed (simp add: phase_ok_def)
  then show ?thesis using g' ok rec by (auto simp: crash_safe_def)
qed

lemma save_snapshot_cases:
  assumes laws: "store_laws S V" and sv: "save_snapshot S snap s d = (d', r)"
  shows "next_id V d' = next_id V d \<and> tree V d' WAL = tree V d WAL
    \<and> (stored_snapshot V d' = stored_snapshot V d \<and> r \<noteq> Inr ()
       \<or> (\<exists>x. snap_from_slice S x = Inr (snap, s) \<and> stored_snapshot V d' = Some x))"
proof -
  obtain d1 r1 where o: "open_tree S SNAPSHOT d = (d1, r1)" by fastforce
  have w1: "wrote V SNAPSHOT id d d1" using laws o unfolding store_laws_def by (metis fst_conv)
  have ne: "WAL \<noteq> SNAPSHOT" by (simp add: WAL_def SNAPSHOT_def)
  show ?thesis
  proof (cases "r1 = Inr () \<and> (\<exists>b. snap_to_vec S (snap, s) = Inr b)")
    case False
    then have "d' = d1" "r \<noteq> Inr ()"
      using sv o by (cases r1; cases "snap_to_vec S (snap, s)"; auto simp: save_snapshot_def io_bind_def io_lift_def)+
    then show ?thesis using w1 ne by (simp add: wrote_id stored_snapshot_def)
  next
    case True
    then obtain b where b: "snap_to_vec S (snap, s) = Inr b" "r1 = Inr ()" by blast
    have dec: "snap_from_slice S b = Inr (snap, s)" using laws b(1) by (simp add: store_laws_def)
    obtain d2 r2 where ins: "tree_insert S SNAPSHOT (as_bytes ''latest'') b d1 = (d2, r2)" by fastforce
    have w2: "r2 = Inr () \<longrightarrow> wrote V SNAPSHOT (bt_insert (as_bytes ''latest'') b) d1 d2"
      "wrote V SNAPSHOT (bt_insert (as_bytes ''latest'') b) d1 d2 \<or> wrote V SNAPSHOT id d1 d2"
      using laws ins unfolding store_laws_def by (metis fst_conv snd_conv)+
    have bt: "bt_ok (tree V d1 SNAPSHOT)" using laws by (simp add: store_laws_def)
    have w3: "wrote V SNAPSHOT id d2 (fst (tree_flush S SNAPSHOT d2))" using laws by (simp add: store_laws_def)
    have "r2 = Inr () \<and> d' = fst (tree_flush S SNAPSHOT d2) \<or> r \<noteq> Inr () \<and> d' = d2"
      using sv o b ins by (cases r2) (auto simp: save_snapshot_def io_bind_def io_lift_def)
    then have d': "tree V d' = tree V d2" "next_id V d' = next_id V d2" "r = Inr () \<longrightarrow> r2 = Inr ()"
      using w3 by (auto simp: wrote_id)
    have new: "stored_snapshot V d' = Some b" if "wrote V SNAPSHOT (bt_insert (as_bytes ''latest'') b) d1 d2"
      using that bt d'(1) by (simp add: stored_snapshot_def wrote_def bt_insert_def map_of_bt_alter)
    show ?thesis
    proof (cases "wrote V SNAPSHOT (bt_insert (as_bytes ''latest'') b) d1 d2")
      case True
      then show ?thesis using new dec w1 d'(1,2) ne by (auto simp: wrote_def)
    next
      case False
      then show ?thesis using w2 w1 d' ne by (auto simp: wrote_id stored_snapshot_def)
    qed
  qed
qed

lemma crash_safe_write:
  assumes laws: "store_laws (env_store E) V" and safe: "crash_safe E V b c0 (g, Captured snap s)"
    and w: "write_snapshot E snap s g = (g', ok)"
  shows "crash_safe E V b c0 (g', if ok then Saved s else Idle)"
proof -
  from safe obtain d where d: "a_persistence g = Some d" "wal_ok (env_store E) V d" "recoverable E V b c0 g d"
    "covers E V b g d snap s" by (auto simp: crash_safe_def phase_ok_def)
  obtain d' r where sv: "save_snapshot (env_store E) snap s d = (d', r)" by fastforce
  have g': "g' = g\<lparr>a_persistence := Some d'\<rparr>" "ok \<longleftrightarrow> r = Inr ()"
    using w d(1) sv by (auto simp: write_snapshot_def persist_def split: sum.splits)
  note c = save_snapshot_cases [OF laws sv]
  have core: "core_of g' = core_of g" using g'(1) by simp
  have cov: "covers E V b g' d' snap' s' = covers E V b g d snap' s'" for snap' s'
    using c core by (simp add: covers_def tail_after_def)
  have ok: "wal_ok (env_store E) V d'" using d(2) c by (simp add: wal_ok_def)
  have "recoverable E V b c0 g' d' \<and> phase_ok E V b g' d' (if ok then Saved s else Idle)"
  proof (cases "\<exists>x. snap_from_slice (env_store E) x = Inr (snap, s) \<and> stored_snapshot V d' = Some x")
    case True
    then show ?thesis using d(4) cov by (auto simp: recoverable_def phase_ok_def)
  next
    case False
    then have "stored_snapshot V d' = stored_snapshot V d" "r \<noteq> Inr ()" "tree V d' WAL = tree V d WAL" using c by auto
    then show ?thesis using d(3) cov g'(2) core
      by (simp add: recoverable_def phase_ok_def cong: option.case_cong)
  qed
  then show ?thesis using safe g'(1) ok by (auto simp: crash_safe_def)
qed

lemma crash_safe_truncate:
  assumes laws: "store_laws (env_store E) V" and safe: "crash_safe E V b c0 (g, Saved s)"
  shows "crash_safe E V b c0 (truncate_covered E s g, Idle)"
proof -
  from safe obtain d x snap where d: "a_persistence g = Some d" "wal_ok (env_store E) V d" "recoverable E V b c0 g d"
    and x: "stored_snapshot V d = Some x" "snap_from_slice (env_store E) x = Inr (snap, s)" by (auto simp: crash_safe_def phase_ok_def)
  obtain d' r where tr: "truncate_up_to (env_store E) s d = (d', r)" by fastforce
  note keep = truncate_keeps [OF laws tr]
  have g': "truncate_covered E s g = g\<lparr>a_persistence := Some d'\<rparr>" using d(1) tr by (simp add: truncate_covered_def)
  have "tail_after (env_store E) V d' s = tail_after (env_store E) V d s" using keep by (simp add: tail_after_def)
  moreover have "stored_snapshot V d' = stored_snapshot V d" using keep by (simp add: stored_snapshot_def WAL_def SNAPSHOT_def)
  ultimately have "recoverable E V b c0 (truncate_covered E s g) d'"
    using d(3) x keep g' by (auto simp: recoverable_def covers_def)
  moreover have "wal_ok (env_store E) V d'" using wal_ok_mono [OF d(2)] keep by simp
  ultimately show ?thesis using safe g' by (auto simp: crash_safe_def phase_ok_def)
qed

lemma crash_safe_step:
  assumes laws: "store_laws (env_store E) V" and clean: "failed_append_clean (env_store E) V"
    and safe: "crash_safe E V b c0 st" and st: "node_step E SE st st'"
  shows "crash_safe E V b c0 st'"
proof -
  have by_log: "crash_safe E V b c0 (g', ph)" if "st = (g, ph)" "logged E V g g'" for g g' ph
    using crash_safe_logged safe that by blast
  from st show ?thesis
  proof cases
    case (submit g ph clk req)
    show ?thesis unfolding submit(2) by (rule by_log [OF submit(1) logged_submit [OF laws clean submit(3)]])
  next
    case (gossip g ph clk msg)
    show ?thesis unfolding gossip(2) by (rule by_log [OF gossip(1) logged_gossip [OF laws clean]])
  next
    case (flushed g ph evidence)
    show ?thesis unfolding flushed(2) by (rule by_log [OF flushed(1) logged_flush])
  next
    case (resolved evidence ids g ph clk confirmed)
    show ?thesis unfolding resolved(2) by (rule by_log [OF resolved(1) logged_resolve [OF laws clean resolved(3)]])
  next
    case (confirmed g ph key h)
    show ?thesis unfolding confirmed(2) by (rule by_log [OF confirmed(1) logged_confirm [OF laws clean]])
  next
    case (ticked gr env t now now_secs g ch g' ch' outs ph)
    show ?thesis unfolding ticked(2) by (rule by_log [OF ticked(1) logged_tick [OF laws clean ticked(3)]])
  next
    case (reconciled g ph candidates ch)
    show ?thesis unfolding reconciled(2) by (rule by_log [OF reconciled(1) logged_reconcile [OF laws clean]])
  next
    case (order_query g ph since)
    show ?thesis unfolding order_query(2) by (rule by_log [OF order_query(1) logged_order_query [OF laws]])
  next
    case (match_query g ph since)
    show ?thesis unfolding match_query(2) by (rule by_log [OF match_query(1) logged_match_query [OF laws]])
  next
    case (nothing_captured hot g g')
    then show ?thesis using crash_safe_capture [OF laws, of b c0 g hot g' None] safe by simp
  next
    case (captured hot g g' snap s)
    then show ?thesis using crash_safe_capture [OF laws, of b c0 g hot g' "Some (snap, s)"] safe by simp
  next
    case (written snap s g g' ok)
    show ?thesis unfolding written(2) using crash_safe_write [OF laws safe [unfolded written(1)] written(3)] .
  next
    case (truncated g s)
    show ?thesis unfolding truncated(2) using crash_safe_truncate [OF laws safe [unfolded truncated(1)]] .
  qed
qed

section \<open>Every order is applied at most once\<close>

definition orders_ok :: "('c, 'd) app_state \<Rightarrow> bool" where
  "orders_ok g \<longleftrightarrow>
     (\<forall>i order receipt. map_of (a_pending_order_data g) i = Some (order, receipt) \<longrightarrow>
        o_id order = i \<and> r_order_id receipt = i \<and> i \<notin> a_applied_order_ids g)
   \<and> distinct (map r_order_id (payloads (a_order_log g)))
   \<and> set (map r_order_id (payloads (a_order_log g))) \<subseteq> a_applied_order_ids g"

lemma orders_ok_cong:
  "a_pending_order_data g' = a_pending_order_data g \<Longrightarrow> a_applied_order_ids g' = a_applied_order_ids g \<Longrightarrow>
   a_order_log g' = a_order_log g \<Longrightarrow> orders_ok g' = orders_ok g"
  by (simp add: orders_ok_def)

lemma payloads_append: "payloads (fst (log_append sha ser x l)) = payloads l @ [x]"
  by (simp add: payloads_def log_append_def Let_def)

lemma orders_apply:
  assumes "orders_ok g" "o_id order = i" "r_order_id receipt = i" "i \<notin> a_applied_order_ids g"
    and "map_of (a_pending_order_data g) i = None"
  shows "orders_ok (fst (apply_accepted_order E clk order receipt ts g))"
proof -
  obtain g1 r where p: "persist (append_order_accepted (env_store E) order receipt ts) g = (g1, r)" by fastforce
  have g1: "a_pending_order_data g1 = a_pending_order_data g" "a_applied_order_ids g1 = a_applied_order_ids g"
    "a_order_log g1 = a_order_log g" using p by (auto simp: persist_def split: option.splits prod.splits)
  note ap = apply_locally_other(4-6) [where g = g1 and E = E and clk = clk and order = order and receipt = receipt and ts = ts and flood = True]
  show ?thesis
  proof (cases r)
    case (Inl x)
    then have "fst (apply_accepted_order E clk order receipt ts g) = g1" using p by (simp add: apply_accepted_order_def)
    then show ?thesis using orders_ok_cong [OF g1] assms(1) by simp
  next
    case (Inr u)
    then have "fst (apply_accepted_order E clk order receipt ts g) = fst (apply_accepted_order_locally E clk order receipt ts True g1)"
      using p by (simp add: apply_accepted_order_def split: prod.splits)
    then show ?thesis using ap g1 assms unfolding orders_ok_def by (auto simp: payloads_append)
  qed
qed

lemma orders_queue:
  assumes "orders_ok g" "\<not> known_order (o_id order) g" "r_order_id receipt = o_id order"
  shows "orders_ok (fst (queue_for_sequencing E order receipt g))"
proof -
  obtain g1 r where p: "persist (append_order_queued (env_store E) order receipt) g = (g1, r)" by fastforce
  have g1: "a_pending_order_data g1 = a_pending_order_data g" "a_applied_order_ids g1 = a_applied_order_ids g"
    "a_order_log g1 = a_order_log g" using p by (auto simp: persist_def split: option.splits prod.splits)
  show ?thesis using p assms g1
    by (cases r) (auto simp: queue_for_sequencing_def orders_ok_def known_order_def update_conv' split: if_splits)
qed

lemma receipt_for_id: "r_order_id (receipt_for E clk order g) = o_id order"
  by (simp add: receipt_for_def sign_receipt_def Let_def)

lemma orders_resolved:
  assumes "orders_ok g"
  shows "orders_ok (apply_resolved E clk evidence i g)"
proof (cases "map_of (a_pending_order_data g) i")
  case None
  then show ?thesis using assms by (simp add: apply_resolved_def)
next
  case (Some x)
  obtain order receipt where x: "x = (order, receipt)" by (cases x)
  let ?g = "g\<lparr>a_pending_order_data := AList.delete i (a_pending_order_data g)\<rparr>"
  have "orders_ok ?g" using assms by (simp add: orders_ok_def delete_conv')
  moreover have "o_id order = i" "r_order_id receipt = i" "i \<notin> a_applied_order_ids ?g"
    using assms Some x unfolding orders_ok_def by simp_all
  moreover have "map_of (a_pending_order_data ?g) i = None" by (simp add: delete_conv')
  ultimately have "orders_ok (fst (apply_accepted_order E clk order receipt (match_timestamp evidence i) ?g))" by (rule orders_apply)
  then show ?thesis using Some x by (simp add: apply_resolved_def)
qed

lemma orders_batch: "orders_ok g \<Longrightarrow> orders_ok (resolve_batch E clk ids evidence confirmed g)"
proof -
  assume ok: "orders_ok g"
  have "orders_ok g \<Longrightarrow> orders_ok (fold (apply_resolved E clk evidence) is g)" for "is" and g :: "('a, 'b) app_state"
    by (induction "is" arbitrary: g) (simp_all add: orders_resolved)
  moreover have "orders_ok (g\<lparr>a_order_sequencer := q\<rparr>)" for q using ok by (simp add: orders_ok_def)
  ultimately show ?thesis using ok by (simp add: resolve_batch_def apply_resolved_batch_def split: option.splits)
qed

definition order_part :: "('c, 'd) app_state \<Rightarrow> (bytes32, order \<times> order_receipt) hash_map \<times> bytes32 set \<times> order_receipt hash_chain_log" where
  "order_part g = (a_pending_order_data g, a_applied_order_ids g, a_order_log g)"

lemma orders_part: "order_part g' = order_part g \<Longrightarrow> orders_ok g \<Longrightarrow> orders_ok g'"
  by (simp add: order_part_def orders_ok_def)

lemma persist_part [simp]: "order_part (fst (persist f g)) = order_part g"
  by (auto simp: order_part_def persist_def split: option.splits prod.splits)

interpretation op: settlement_frame E "\<lambda>g g'. order_part g' = order_part g" for E :: "('c, 'd) api_env"
  by unfold_locales (simp_all, simp_all add: order_part_def)

lemma confirm_part: "order_part (fst (confirm_committed E key h g)) = order_part g"
proof (cases "map_of (a_pending_commits g) key")
  case (Some m)
  let ?g = "g\<lparr>a_pending_commits := AList.delete key (a_pending_commits g)\<rparr>"
  obtain g1 r where p: "persist (append_commit_confirmed (env_store E) m h) ?g = (g1, r)" by fastforce
  have "order_part g1 = order_part ?g" using persist_part [of "append_commit_confirmed (env_store E) m h" ?g] p by simp
  then show ?thesis using Some p
    by (cases r) (simp_all add: confirm_committed_def order_part_def confirm_committed_locally_def Let_def)
qed (simp add: confirm_committed_def)

lemma orders_submit:
  assumes "orders_ok g" "a_order_sequencer g \<noteq> None"
  shows "orders_ok (fst (submit_order E clk req g))"
proof -
  obtain v ok where v: "validate_order (env_ed E) (env_lru E) (clk_secs clk) (order_of req) (a_validator g) = (v, ok)" by fastforce
  let ?g = "g\<lparr>a_validator := v\<rparr>"
  have ok: "orders_ok ?g" using assms(1) by (simp add: orders_ok_def)
  have "o_id (order_of req) = order_id_of req" by (simp add: order_of_def)
  then have "fst (submit_order E clk req g) = ?g
      \<or> \<not> known_order (o_id (order_of req)) ?g \<and>
        fst (submit_order E clk req g) = fst (queue_for_sequencing E (order_of req) (receipt_for E clk (order_of req) ?g) ?g)"
    using assms(2) v by (auto simp: submit_order_def Let_def split: prod.splits sum.splits)
  then show ?thesis using ok orders_queue [OF ok _ receipt_for_id] by auto
qed

lemma orders_gossip:
  assumes "orders_ok g"
  shows "orders_ok (gossip_step E clk msg g)"
proof -
  obtain v ok where v: "validate_order (env_ed E) (env_lru E) (clk_secs clk) (f_order msg) (a_validator g) = (v, ok)" by fastforce
  let ?g = "g\<lparr>a_validator := v\<rparr>"
  have ok: "orders_ok ?g" using assms by (simp add: orders_ok_def)
  have "gossip_step E clk msg g \<in> {g, ?g} \<or> \<not> known_order (o_id (f_order msg)) ?g \<and>
      gossip_step E clk msg g = fst (queue_for_sequencing E (f_order msg) (receipt_for E clk (f_order msg) ?g) ?g)"
    using v by (auto simp: gossip_step_def Let_def known_order_def)
  then show ?thesis using ok assms orders_queue [OF ok _ receipt_for_id] by auto
qed

lemma payloads_split: "\<exists>n. payloads (snd (split_off_archived s l)) = drop n (payloads l)"
  by (auto simp: payloads_def split_off_archived_def Let_def drop_map)

lemma trim_payloads: "\<exists>n. payloads (snd (archive_and_trim archive hot l d)) = drop n (payloads l)"
proof -
  obtain es l' where sp: "split_off_archived (next_seq l - hot) l = (es, l')" by fastforce
  obtain n where "payloads l' = drop n (payloads l)" using payloads_split [of "next_seq l - hot" l] sp by auto
  moreover have "snd (archive_and_trim archive hot l d) \<in> {l, l'}"
    using sp by (auto simp: archive_and_trim_def Let_def split: prod.splits sum.splits)
  ultimately show ?thesis by (metis drop_0 empty_iff insert_iff)
qed

lemma orders_capture:
  assumes "orders_ok g" "capture_snapshot E hot g = (g', cap)"
  shows "orders_ok g'"
proof (cases "a_persistence g")
  case (Some d)
  let ?l = "archive_and_trim (archive_order_log_entries (env_store E)) hot (a_order_log g) d"
  obtain n where n: "payloads (snd ?l) = drop n (payloads (a_order_log g))"
    using trim_payloads [of "archive_order_log_entries (env_store E)" hot "a_order_log g" d] by blast
  have "a_order_log g' = snd ?l" "a_pending_order_data g' = a_pending_order_data g" "a_applied_order_ids g' = a_applied_order_ids g"
    using assms(2) Some
    by (auto simp: capture_snapshot_def archive_and_trim_order_log_def archive_and_trim_match_log_def Let_def
        split: prod.splits sum.splits option.splits)
  then show ?thesis using assms(1) n unfolding orders_ok_def
    by (auto simp: drop_map [symmetric] dest!: in_set_dropD)
qed (use assms in \<open>simp add: capture_snapshot_def\<close>)

lemma orders_step:
  assumes "node_step E SE st st'" "orders_ok (fst st)"
  shows "orders_ok (fst st')"
  using assms
proof cases
  case (submit g ph clk req)
  then show ?thesis using orders_submit assms(2) by simp
next
  case (gossip g ph clk msg)
  then show ?thesis using orders_gossip assms(2) by simp
next
  case (flushed g ph evidence)
  have "order_part (fst (flush_pending E evidence g)) = order_part g"
    by (simp add: flush_pending_def order_part_def split: option.splits prod.splits)
  then show ?thesis using flushed assms(2) orders_part by auto
next
  case (resolved evidence ids g ph clk confirmed)
  then show ?thesis using orders_batch assms(2) by simp
next
  case (confirmed g ph key h)
  then show ?thesis using orders_part [OF confirm_part] assms(2) by simp
next
  case (ticked gr env t now now_secs g ch g' ch' outs ph)
  then show ?thesis using orders_part [OF op.tick [OF ticked(3)]] assms(2) by simp
next
  case (reconciled g ph candidates ch)
  then show ?thesis using orders_part [OF op.reconcile [where st = "(g, ch)"]] assms(2) by simp
next
  case (order_query g ph since)
  have "order_part (fst (order_log_entries E since g)) = order_part g"
    by (auto simp: order_log_entries_def spanning_entries_def Let_def order_part_def split: option.splits prod.splits sum.splits)
  then show ?thesis using order_query assms(2) orders_part by auto
next
  case (match_query g ph since)
  have "order_part (fst (match_log_entries E since g)) = order_part g"
    by (auto simp: match_log_entries_def spanning_entries_def Let_def order_part_def split: option.splits prod.splits sum.splits)
  then show ?thesis using match_query assms(2) orders_part by auto
next
  case (nothing_captured hot g g')
  then show ?thesis using orders_capture assms(2) by auto
next
  case (captured hot g g' snap s)
  then show ?thesis using orders_capture assms(2) by auto
next
  case (written snap s g g' ok)
  have "g' = fst (persist (save_snapshot (env_store E) snap s) g)"
    using written(3) by (auto simp: write_snapshot_def split: prod.splits sum.splits)
  then show ?thesis using written assms(2) orders_part [OF persist_part] by simp
next
  case (truncated g s)
  have "order_part (truncate_covered E s g) = order_part g" by (simp add: truncate_covered_def order_part_def split: option.splits)
  then show ?thesis using truncated assms(2) orders_part by auto
qed

section \<open>A small node\<close>

text \<open>A node with one order from a peer, and a database that can encode its acceptance.\<close>

definition demo_signed :: order where
  "demo_signed = (demo_order Buy 2 2 7 3)\<lparr>o_signature := [1]\<rparr>"

definition demo_evidence :: evidence where
  "demo_evidence = [(o_id demo_signed, (0, lit 5))]"

definition demo_lru :: "(unit, validation_key, bool) lru_ops" where
  "demo_lru = \<lparr>lru_new = (\<lambda>_. ()), lru_contains = (\<lambda>_ _. False), lru_get = (\<lambda>_ c. (None, c)), lru_put = (\<lambda>_ _ c. c),
     lru_update = (\<lambda>_ _ c. c)\<rparr>"

definition demo_api :: "demo_db store_ops \<Rightarrow> (unit, demo_db) api_env" where
  "demo_api S = \<lparr>env_sha = (\<lambda>_. zero32), env_ser_receipt = (\<lambda>_. []), env_ser_match = (\<lambda>_. []), env_ed = demo_ed25519,
     env_lru = demo_lru, env_store = S, env_powf = (\<lambda>x y. x)\<rparr>"

definition demo_node :: "demo_db option \<Rightarrow> (bytes32, order \<times> order_receipt) hash_map \<Rightarrow> (unit, demo_db) app_state" where
  "demo_node d queued = \<lparr>a_node_id = 0, a_order_book = new_book ''BTC-USD'', a_validator = \<lparr>v_cache = (), v_nonces = []\<rparr>,
     a_ws_sent = [], a_reputation = new_reputation_engine, a_pending_commits = [], a_confirmed_trade_hashes = [],
     a_batcher = new_batcher 0, a_receipt_signing_key = zero32, a_order_log = new_log, a_match_log = new_log,
     a_mesh = None, a_mesh_sent = [], a_order_sequencer = Some new_sequencer, a_pending_order_data = queued,
     a_applied_order_ids = {}, a_persistence = d\<rparr>"

definition demo_clock :: clock where
  "demo_clock = \<lparr>clk_us = 9, clk_secs = 0, clk_secs_f = lit 0, clk_ms_f = lit 0\<rparr>"

definition demo_receipt :: order_receipt where
  "demo_receipt = receipt_for (demo_api demo_store) demo_clock demo_signed (demo_node None [])"

definition demo_accepted :: wal_entry where
  "demo_accepted = OrderAccepted demo_signed demo_receipt (match_timestamp demo_evidence (o_id demo_signed))"

definition demo_node_store :: "demo_db store_ops" where
  "demo_node_store = demo_store\<lparr>wal_to_vec := \<lambda>e. if e = demo_accepted then Inr [] else Inl [], wal_from_slice := \<lambda>b. Inr demo_accepted\<rparr>"

definition demo_settlement :: "unit settlement_env" where
  "demo_settlement = \<lparr>se_chain = \<lparr>submit_settlement_batch = (\<lambda>ts p fc x. (x, Inr [])), submit_missed_deadline_report = (\<lambda>a x. (x, Inr ())),
     is_trade_settled = (\<lambda>a h x. (x, Inr False)), prover_verify = (\<lambda>p tb. True)\<rparr>,
     se_resolve = Some, se_own_pubkey = zero32, se_fee_recipient = zero32\<rparr>"

lemma demo_node_store_laws: "store_laws demo_node_store demo_view"
  using demo_store_laws unfolding store_laws_def demo_node_store_def by (simp add: wrote_def split: if_splits)

lemma demo_node_store_clean: "failed_append_clean demo_node_store demo_view"
  by (auto simp: failed_append_clean_def append_entry_def io_bind_def io_lift_def demo_node_store_def demo_store_def demo_view_def
      demo_tree_def split: if_splits)

section \<open>Properties\<close>

lemma crash_safe_reach:
  assumes "store_laws (env_store E) V" "failed_append_clean (env_store E) V"
    and "node_reach E SE g0 st" "crash_safe E V b c0 (g0, Idle)"
  shows "crash_safe E V b c0 st"
  using assms(3,4) by (induction) (auto intro: crash_safe_step [OF assms(1,2)])

lemma replay_tail:
  assumes laws: "store_laws S V" and ok: "wal_ok S V d" and s: "unat s < next_id V d" "next_id V d < 2 ^ 64"
  shows "replay S (Some s) d = Inr (tail_after S V d s)"
proof -
  have "s \<noteq> - 1" using s by (auto simp: unsigned_minus_1_eq_mask mask_eq_exp_minus_1)
  then have s1: "unat (s + 1) = unat s + 1" by (metis add.commute add_eq_0_iff2 unatSuc Suc_eq_plus1)
  have "be_bytes (s + 1) \<le> k \<longleftrightarrow> be_bytes s < k" if "(k, v) \<in> set (tree V d WAL)" for k v
  proof -
    obtain i where "k = be_bytes (i :: u64)" using ok \<open>(k, v) \<in> _\<close> by (fastforce simp: wal_ok_def)
    then show ?thesis using s1 by (simp add: word_le_nat_alt word_less_nat_alt Suc_le_eq)
  qed
  then have "filter (\<lambda>(k, _). be_bytes (s + 1) \<le> k) (tree V d WAL) = filter (\<lambda>(k, _). be_bytes s < k) (tree V d WAL)"
    by (intro filter_cong) auto
  then show ?thesis using replay_items(2) [OF laws ok] by (simp add: tail_after_def)
qed

lemma load_recovers:
  assumes laws: "store_laws (env_store E) V" and ok: "wal_ok (env_store E) V d" and id: "next_id V d < 2 ^ 64"
    and op: "snd (open_tree (env_store E) SNAPSHOT d) = Inr ()"
    and rec: "recoverable E V (a_order_book boot) (core_of boot) g d"
  shows "\<exists>d' boot' summary. load_persistence E clk d boot = (d', Inr (boot', summary)) \<and> core_of boot' = core_of g"
proof -
  let ?S = "env_store E"
  obtain d1 where o: "open_tree ?S SNAPSHOT d = (d1, Inr ())" using op by (metis prod.collapse)
  have w: "wrote V SNAPSHOT id d d1" using laws o unfolding store_laws_def by (metis fst_conv)
  then have d1: "tree V d1 = tree V d" "next_id V d1 = next_id V d" by (simp_all add: wrote_id)
  have ok1: "wal_ok ?S V d1" using ok d1 by (simp add: wal_ok_def)
  have get: "tree_get ?S SNAPSHOT (as_bytes ''latest'') d1 = Inr (stored_snapshot V d)"
    using laws d1(1) by (simp add: store_laws_def stored_snapshot_def)
  show ?thesis
  proof (cases "stored_snapshot V d")
    case None
    then have ld: "load_snapshot ?S d = (d1, Inr None)" using o get by (simp add: load_snapshot_def io_bind_def)
    have "replay ?S None d1 = Inr (wal_items ?S (tree V d WAL))" using replay_items(1) [OF laws ok1] d1 by simp
    then have "load_persistence E clk d boot = (d1, Inr (replay_entries E clk (wal_items ?S (tree V d WAL)) boot))"
      using ld by (simp add: load_persistence_def replay_persistence_log_def)
    moreover have "core_of (fst (replay_entries E clk (wal_items ?S (tree V d WAL)) boot)) = core_of g"
      using rec None by (simp add: recoverable_def core_replay)
    ultimately show ?thesis by (metis prod.collapse)
  next
    case (Some x)
    then obtain snap s where x: "snap_from_slice ?S x = Inr (snap, s)" and cov: "covers E V (a_order_book boot) g d snap s"
      using rec by (auto simp: recoverable_def)
    have ld: "load_snapshot ?S d = (d1, Inr (Some (snap, s)))" using o get Some x by (simp add: load_snapshot_def io_bind_def)
    have "replay ?S (Some s) d1 = Inr (tail_after ?S V d s)"
      using replay_tail [OF laws ok1, of s] cov id d1 by (simp add: covers_def tail_after_def)
    then have "load_persistence E clk d boot = (d1, Inr (replay_entries E clk (tail_after ?S V d s) (apply_snapshot snap boot)))"
      using ld by (simp add: load_persistence_def replay_persistence_log_def)
    moreover have "core_of (fst (replay_entries E clk (tail_after ?S V d s) (apply_snapshot snap boot))) = core_of g"
      using cov by (simp add: covers_def core_replay core_apply_snapshot)
    ultimately show ?thesis by (metis prod.collapse)
  qed
qed





lemma persist_only: "\<exists>d. fst (persist f g) = g\<lparr>a_persistence := d\<rparr>"
proof (cases "a_persistence g")
  case None
  then show ?thesis by (intro exI [of _ "a_persistence g"]) (simp add: persist_def)
next
  case (Some d)
  then show ?thesis by (intro exI [of _ "Some (fst (f d))"]) (simp add: persist_def split: prod.splits)
qed

text \<open>C30. A refused request changes nothing: an order that is not accepted leaves the state as it was up
  to the validator and the database, and a confirmation that is not accepted leaves it up to the
  database, with the same matches awaiting their commit. This covers every error: invalid
  signatures, duplicates, unknown matches and failed writes to the log.\<close>

theorem refused_requests_change_nothing:
  "(resp_success (snd (submit_order E clk req g))
      \<or> (\<exists>v d. fst (submit_order E clk req g) = g\<lparr>a_validator := v, a_persistence := d\<rparr>))
   \<and> (snd (confirm_committed E key h g) = None
      \<or> (\<exists>p d. fst (confirm_committed E key h g) = g\<lparr>a_pending_commits := p, a_persistence := d\<rparr>
           \<and> map_of p = map_of (a_pending_commits g)))"
proof (intro conjI)
  obtain v ok where v: "validate_order (env_ed E) (env_lru E) (clk_secs clk) (order_of req) (a_validator g) = (v, ok)" by fastforce
  let ?g = "g\<lparr>a_validator := v\<rparr>"
  have id: "?g = g\<lparr>a_validator := v, a_persistence := a_persistence g\<rparr>" by simp
  have pers: "\<exists>d. fst (persist f ?g) = g\<lparr>a_validator := v, a_persistence := d\<rparr>" for f
    using persist_only [of f ?g] by simp
  have q: "\<exists>d. fst (queue_for_sequencing E (order_of req) rc ?g) = g\<lparr>a_validator := v, a_persistence := d\<rparr>"
    if "snd (queue_for_sequencing E (order_of req) rc ?g) = Inl e" for rc e
  proof -
    obtain g1 r where p: "persist (append_order_queued (env_store E) (order_of req) rc) ?g = (g1, r)" by fastforce
    with that have "fst (queue_for_sequencing E (order_of req) rc ?g) = g1" by (cases r) (simp_all add: queue_for_sequencing_def)
    then show ?thesis using pers [of "append_order_queued (env_store E) (order_of req) rc"] unfolding p by simp
  qed
  have a: "\<exists>d. fst (apply_accepted_order E clk (order_of req) rc None ?g) = g\<lparr>a_validator := v, a_persistence := d\<rparr>"
    if "snd (apply_accepted_order E clk (order_of req) rc None ?g) = Inl e" for rc e
  proof -
    obtain g1 r where p: "persist (append_order_accepted (env_store E) (order_of req) rc None) ?g = (g1, r)" by fastforce
    with that have "fst (apply_accepted_order E clk (order_of req) rc None ?g) = g1"
      by (cases r) (simp_all add: apply_accepted_order_def split: prod.splits)
    then show ?thesis using pers [of "append_order_accepted (env_store E) (order_of req) rc None"] unfolding p by simp
  qed
  let ?rc = "receipt_for E clk (order_of req) ?g" and ?fin = "\<exists>d. fst (submit_order E clk req g) = g\<lparr>a_validator := v, a_persistence := d\<rparr>"
  obtain g1 r1 where q1: "queue_for_sequencing E (order_of req) ?rc ?g = (g1, r1)" by fastforce
  obtain g2 r2 where a1: "apply_accepted_order E clk (order_of req) ?rc None ?g = (g2, r2)" by fastforce
  have "resp_success (snd (submit_order E clk req g)) \<or> ?fin"
  proof (cases "ok \<and> (a_order_sequencer g = None \<or> \<not> known_order (order_id_of req) ?g)")
    case False
    then have "fst (submit_order E clk req g) = ?g" using v by (auto simp: submit_order_def Let_def)
    then show ?thesis using id by metis
  next
    case True
    show ?thesis
    proof (cases "a_order_sequencer g")
      case None
      then show ?thesis using True v a1 a [of ?rc] by (cases r2) (simp_all add: submit_order_def Let_def)
    next
      case (Some sq)
      then show ?thesis using True v q1 q [of ?rc] by (cases r1) (simp_all add: submit_order_def Let_def)
    qed
  qed
  then show "resp_success (snd (submit_order E clk req g)) \<or> (\<exists>v d. fst (submit_order E clk req g) = g\<lparr>a_validator := v, a_persistence := d\<rparr>)"
    by blast
next
  show "snd (confirm_committed E key h g) = None
      \<or> (\<exists>p d. fst (confirm_committed E key h g) = g\<lparr>a_pending_commits := p, a_persistence := d\<rparr> \<and> map_of p = map_of (a_pending_commits g))"
  proof (cases "map_of (a_pending_commits g) key")
    case None
    then have "fst (confirm_committed E key h g) = g\<lparr>a_pending_commits := a_pending_commits g, a_persistence := a_persistence g\<rparr>"
      by (simp add: confirm_committed_def)
    then show ?thesis by blast
  next
    case (Some m)
    let ?p = "AList.delete key (a_pending_commits g)"
    obtain g1 r where p: "persist (append_commit_confirmed (env_store E) m h) (g\<lparr>a_pending_commits := ?p\<rparr>) = (g1, r)" by fastforce
    obtain d where g1: "g1 = g\<lparr>a_pending_commits := ?p, a_persistence := d\<rparr>"
      using p persist_only [of "append_commit_confirmed (env_store E) m h" "g\<lparr>a_pending_commits := ?p\<rparr>"] by auto
    have "map_of (AList.update key m ?p) = map_of (a_pending_commits g)" using Some by (auto simp: update_conv' delete_conv' fun_eq_iff)
    then show ?thesis using Some p g1
    proof (cases r)
      case (Inl e)
      then have "fst (confirm_committed E key h g) = g\<lparr>a_pending_commits := AList.update key m ?p, a_persistence := d\<rparr>"
        using Some p g1 by (simp add: confirm_committed_def)
      then show ?thesis using \<open>map_of _ = _\<close> by blast
    qed (simp add: confirm_committed_def)
  qed
qed

text \<open>
  The validator is not part of what survives a crash, and without order sequencing nothing else
  compares a submitted order with those already applied: after a restart the same signed request is
  accepted and applied again.
\<close>

lemma applied_order_accepted_after_restart:
  assumes "lru_laws (env_lru E)" "acceptable (env_ed E) (clk_secs clk) (order_of req)"
    and "a_validator g = new_validator (env_lru E) n" "a_order_sequencer g = None" "a_persistence g = None"
  shows "resp_success (snd (submit_order E clk req g))"
proof -
  have "\<not> lru_contains (env_lru E) (key_of (order_of req)) (v_cache (a_validator g))"
    using assms(1,3) by (simp add: lru_laws_def new_validator_def Let_def)
  moreover have "fresh_nonce (order_of req) (a_validator g)" using assms(3) by (simp add: fresh_nonce_def new_validator_def Let_def)
  ultimately show ?thesis using assms(2,4,5)
    by (simp add: submit_order_def Let_def validate_order_spec apply_accepted_order_def persist_def split: prod.splits)
qed

text \<open>A refused order cannot be sent again: validation has already recorded its nonce.\<close>

lemma refused_order_uses_nonce:
  assumes "validate_order ed L now order self = (v, True)"
  shows "validate_order ed L now' order v = (v, False)"
proof -
  have "\<not> fresh_nonce order v" using assms by (auto simp: validate_order_spec fresh_nonce_def update_conv' split: if_splits)
  then show ?thesis by (simp add: validate_order_spec)
qed

text \<open>An entry without a timestamp is matched at the time of its replay: the rebuilt matches differ.\<close>

lemma unstamped_replay_differs:
  "c_pending (core_step E 1 (OrderAccepted (demo_order Buy 3 3 12 2) r None) (c\<lparr>c_book := demo_book, c_pending := Map.empty\<rparr>))
   \<noteq> c_pending (core_step E 2 (OrderAccepted (demo_order Buy 3 3 12 2) r None) (c\<lparr>c_book := demo_book, c_pending := Map.empty\<rparr>))"
proof -
  let ?o = "demo_order Buy 3 3 12 2"
  have "fills ?o demo_book = [(demo_order Sell 1 1 10 5, 2)]"
    by (simp add: fills_def makers_def opposite_def crosses_def demo_order_def demo_book_def)
  moreover have "valid_order ?o" by (simp add: valid_order_def demo_order_def)
  ultimately have "\<exists>b m. add_order_at ?o t demo_book = (b, [m]) \<and> m_timestamp_us m = t" for t
    by (simp add: add_order_at_spec [OF demo_book_ok] match_of_def split: prod.splits)
  then obtain b1 m1 b2 m2 where m: "add_order_at ?o 1 demo_book = (b1, [m1])" "m_timestamp_us m1 = 1"
    "add_order_at ?o 2 demo_book = (b2, [m2])" "m_timestamp_us m2 = 2" by metis
  have "m1 \<noteq> m2" using m(2,4) by auto
  have "[trade_key_of m1 \<mapsto> m1] \<noteq> [trade_key_of m2 \<mapsto> m2]"
  proof
    assume "[trade_key_of m1 \<mapsto> m1] = [trade_key_of m2 \<mapsto> m2]"
    from fun_cong [OF this, of "trade_key_of m1"] have "m1 = m2" by (simp split: if_splits)
    with \<open>m1 \<noteq> m2\<close> show False ..
  qed
  then show ?thesis using m(1,3) by (simp add: core_step_def core_accept_def core_match_def)
qed

end
