(* ===== verification/Worklist.thy ===== *)
theory Worklist
  imports Main "HOL-Library.Multiset"
begin

text \<open>
  Loops that take an item of work off a queue, process it and add what it produced: the packets in
  flight of the flood and the event queue of the simulator. When every item produces at most \<open>width\<close> new
  ones, each of smaller rank, the work left is bounded by \<open>load\<close>, in whatever order the items are
  taken.
\<close>

section \<open>The work an item stands for\<close>

primrec work_weight :: "nat \<Rightarrow> nat \<Rightarrow> nat" where
  "work_weight width 0 = 1"
| "work_weight width (Suc n) = 1 + width * work_weight width n"

definition load :: "('w \<Rightarrow> nat) \<Rightarrow> nat \<Rightarrow> 'w list \<Rightarrow> nat" where
  "load rank width ws = sum_list (map (\<lambda>w. work_weight width (rank w)) ws)"

lemma load_simps [simp]:
  "load rank width [] = 0"
  "load rank width (w # ws) = work_weight width (rank w) + load rank width ws"
  "load rank width (us @ ws) = load rank width us + load rank width ws"
  by (simp_all add: load_def)

lemma work_weight_mono: "m \<le> n \<Longrightarrow> work_weight width m \<le> work_weight width n"
proof (induction n arbitrary: m)
  case (Suc n)
  show ?case
  proof (cases m)
    case (Suc k)
    then have "work_weight width k \<le> work_weight width n" using Suc.IH Suc.prems by simp
    then show ?thesis using Suc by simp
  qed simp
qed simp

lemma work_weight_pos: "0 < work_weight width n"
  by (cases n) simp_all

lemma load_bound:
  assumes "length ws \<le> width" "\<forall>w \<in> set ws. rank w < r"
  shows "load rank width ws < work_weight width r"
proof (cases r)
  case 0
  then have "ws = []" using assms(2) by (cases ws) auto
  then show ?thesis by (simp add: work_weight_pos)
next
  case (Suc n)
  have "load rank width us \<le> length us * work_weight width n" if "\<forall>w \<in> set us. rank w < r" for us
    using that
  proof (induction us)
    case (Cons u us)
    have "work_weight width (rank u) \<le> work_weight width n" using Cons.prems Suc by (intro work_weight_mono) simp
    then show ?case using Cons by simp
  qed simp
  then have "load rank width ws \<le> length ws * work_weight width n" using assms(2) by blast
  also have "\<dots> \<le> width * work_weight width n" using assms(1) by simp
  finally show ?thesis using Suc by simp
qed

lemma load_mset: "mset us = mset ws \<Longrightarrow> load rank width us = load rank width ws"
  unfolding load_def by (metis mset_map sum_mset_sum_list)

section \<open>Loops over a queue\<close>

text \<open>A run of \<open>n\<close> items, taken from anywhere in the queue.\<close>

inductive works :: "('s \<Rightarrow> 'w \<Rightarrow> 's \<Rightarrow> 'w list \<Rightarrow> bool) \<Rightarrow> 's \<Rightarrow> 'w list \<Rightarrow> nat \<Rightarrow> 's \<Rightarrow> 'w list \<Rightarrow> bool" for process s ws where
  rest: "works process s ws 0 s ws"
| more: "works process s ws n s' us \<Longrightarrow> w \<in> set us \<Longrightarrow> process s' w s'' vs \<Longrightarrow> mset us' = mset (remove1 w us @ vs) \<Longrightarrow>
     works process s ws (Suc n) s'' us'"

lemma works_next: "works process s ws n s' [w] \<Longrightarrow> process s' w s'' vs \<Longrightarrow> works process s ws (Suc n) s'' vs"
  using works.more [of process s ws n s' "[w]" w s'' vs vs] by simp

lemma works_first: "process s w s' vs \<Longrightarrow> works process s [w] (Suc 0) s' vs"
  by (rule works_next [OF works.rest])

locale worklist =
  fixes process :: "'s \<Rightarrow> 'w \<Rightarrow> 's \<Rightarrow> 'w list \<Rightarrow> bool" and good :: "'s \<Rightarrow> bool" and rank :: "'w \<Rightarrow> nat" and width :: nat
  assumes good_step: "good s \<Longrightarrow> process s w s' ws \<Longrightarrow> good s'"
    and narrow_step: "good s \<Longrightarrow> process s w s' ws \<Longrightarrow> length ws \<le> width"
    and rank_step: "good s \<Longrightarrow> process s w s' ws \<Longrightarrow> w' \<in> set ws \<Longrightarrow> rank w' < rank w"
begin

lemma load_decreases: "good s \<Longrightarrow> process s w s' ws \<Longrightarrow> load rank width ws < work_weight width (rank w)"
  by (intro load_bound narrow_step [of s w s' ws] ballI rank_step [of s w s' ws])

lemma works_bound:
  assumes "works process s ws n s' us" "good s"
  shows "good s' \<and> n + load rank width us \<le> load rank width ws"
  using assms
proof (induction rule: works.induct)
  case (more n s' us w s'' vs us')
  then have IH: "good s'" "n + load rank width us \<le> load rank width ws" by simp_all
  have "load rank width us = load rank width (w # remove1 w us)" using more(2) by (intro load_mset) simp
  moreover have "load rank width us' = load rank width (remove1 w us @ vs)" by (rule load_mset) fact
  moreover have "load rank width vs < work_weight width (rank w)" using IH(1) more(3) by (rule load_decreases)
  ultimately show ?case using IH good_step [OF IH(1) more(3)] by simp
qed simp

end

end
