(* ===== verification/Flood.thy ===== *)
theory Flood
  imports Sequencing Worklist
begin

text \<open>
  Deterministic flooding of the \<^verbatim>\<open>protocol\<close> crate: routing tables, the flood schedule and the errors of a
  packet (\<^verbatim>\<open>types.rs\<close>), the relay \<^verbatim>\<open>DeterministicFlood\<close> (\<^verbatim>\<open>flood.rs\<close>), and the tracker of missed
  heartbeats (\<^verbatim>\<open>heartbeat.rs\<close>).

  The section on networks composes relays: a state has the relay of every node and the packets in
  flight. UDP may lose, delay and reorder packets; the relays are those of the code.
\<close>

section \<open>Routing\<close>

record peer =
  pe_id :: node_id
  pe_latency_ms :: f64
  pe_last_heartbeat :: f64
  pe_health_score :: f64

record routing_table =
  upstream_peers :: "peer list"
  downstream_peers :: "peer list"
  zone_peers :: "peer list"

record flood_schedule =
  slot_duration_ms :: f64
  max_hops :: u8
  retransmit_threshold_ms :: f64
  hop_delays :: "f64 list"

definition default_schedule :: flood_schedule where
  "default_schedule =
     \<lparr>slot_duration_ms = lit 5, max_hops = 7, retransmit_threshold_ms = lit 10,
      hop_delays = [lit 0, lit 15, lit 30, lit 45, lit 60, lit 75, lit 90, lit 105]\<rparr>"

datatype flood_error = EarlyPacket | LatePacket | InvalidOrder | DuplicatePacket | MaxHopsReached

section \<open>The relay\<close>

definition CACHE_SIZE :: nat where
  "CACHE_SIZE = 100000"

text \<open>\<^verbatim>\<open>ed25519_dalek\<close> and the two kinds of LRU cache a relay holds.\<close>

record ('c, 'v) flood_env =
  fe_ed :: ed25519
  fe_received :: "('c, bytes32, (node_id \<times> f64) list) lru_ops"
  fe_seen :: "('v, validation_key, bool) lru_ops"

record ('c, 'v) deterministic_flood =
  fl_node_id :: node_id
  fl_region :: region
  fl_routing_table :: routing_table
  fl_schedule :: flood_schedule
  fl_received_cache :: 'c
  fl_order_book_orders :: "order list"
  fl_sig_validator :: "'v order_validator"

definition new_flood ::
    "('c, 'v) flood_env \<Rightarrow> node_id \<Rightarrow> region \<Rightarrow> routing_table \<Rightarrow> flood_schedule \<Rightarrow> ('c, 'v) deterministic_flood" where
  "new_flood E node_id region routing_table schedule =
     \<lparr>fl_node_id = node_id, fl_region = region, fl_routing_table = routing_table, fl_schedule = schedule,
      fl_received_cache = lru_new (fe_received E) CACHE_SIZE, fl_order_book_orders = [],
      fl_sig_validator = new_validator (fe_seen E) 10000\<rparr>"

definition forwards_of :: "flood_message \<Rightarrow> ('c, 'v) deterministic_flood \<Rightarrow> (node_id \<times> flood_message) list" where
  "forwards_of msg self =
     map (\<lambda>p. (pe_id p, msg\<lparr>f_hop_count := f_hop_count msg + 1, f_path := f_path msg @ [fl_node_id self]\<rparr>))
       (filter (\<lambda>p. pe_id p \<notin> set (f_path msg) \<and> pe_id p \<noteq> fl_node_id self)
          (downstream_peers (fl_routing_table self)))"

text \<open>\<open>secs\<close> is the wall clock the validator reads for the expiry of an order.\<close>

definition on_receive ::
    "('c, 'v) flood_env \<Rightarrow> u64 \<Rightarrow> flood_message \<Rightarrow> node_id \<Rightarrow> f64 \<Rightarrow> ('c, 'v) deterministic_flood \<Rightarrow>
     ('c, 'v) deterministic_flood \<times> (flood_error + (node_id \<times> flood_message) list)" where
  "on_receive E secs msg from current_time self =
     (let oid = o_id (f_order msg)
      in if lru_contains (fe_received E) oid (fl_received_cache self)
         then (self\<lparr>fl_received_cache := lru_update (fe_received E) oid (\<lambda>arrivals. arrivals @ [(from, current_time)])
                      (fl_received_cache self)\<rparr>, Inl DuplicatePacket)
         else let (v, ok) = validate_order (fe_ed E) (fe_seen E) secs (f_order msg) (fl_sig_validator self);
                  self = self\<lparr>fl_sig_validator := v\<rparr>
              in if \<not> ok then (self, Inl InvalidOrder)
                 else if flt current_time (fsub (f_timestamp msg) (retransmit_threshold_ms (fl_schedule self)))
                 then (self, Inl EarlyPacket)
                 else let max_allowed_delay = fadd (fmul (f64_of_word (f_hop_count msg)) (lit 250)) (lit 100)
                      in if flt max_allowed_delay (fsub current_time (f_timestamp msg)) then (self, Inl LatePacket)
                         else let self = self\<lparr>fl_received_cache := lru_put (fe_received E) oid [(from, current_time)] (fl_received_cache self),
                                             fl_order_book_orders := fl_order_book_orders self @ [f_order msg]\<rparr>
                              in if max_hops (fl_schedule self) \<le> f_hop_count msg then (self, Inl MaxHopsReached)
                                 else (self, Inr (forwards_of msg self)))"

definition arrivals_for ::
    "('c, 'v) flood_env \<Rightarrow> bytes32 \<Rightarrow> ('c, 'v) deterministic_flood \<Rightarrow>
     ('c, 'v) deterministic_flood \<times> (node_id \<times> f64) list option" where
  "arrivals_for E order_id self =
     (let (r, c) = lru_get (fe_received E) order_id (fl_received_cache self)
      in (self\<lparr>fl_received_cache := c\<rparr>, r))"

definition calculate_arrival_time :: "f64 \<Rightarrow> u8 \<Rightarrow> ('c, 'v) deterministic_flood \<Rightarrow> f64" where
  "calculate_arrival_time sent_at hops self =
     (let index = unat hops;
          delays = hop_delays (fl_schedule self);
          base_delay = (if index < length delays then delays ! index
                        else if delays = [] then lit 0 else last delays);
          slot_delay = fmul (f64_of_word hops) (slot_duration_ms (fl_schedule self))
      in fadd (fadd sent_at base_delay) slot_delay)"

section \<open>Missed heartbeats\<close>

record heartbeat_tracker =
  ht_last_heartbeat :: "(node_id, f64) hash_map"
  ht_missed_count :: "(node_id, u32) hash_map"
  ht_max_missed :: u32
  ht_heartbeat_interval :: f64

definition new_tracker :: "f64 \<Rightarrow> u32 \<Rightarrow> heartbeat_tracker" where
  "new_tracker heartbeat_interval max_missed =
     \<lparr>ht_last_heartbeat = [], ht_missed_count = [], ht_max_missed = max_missed,
      ht_heartbeat_interval = heartbeat_interval\<rparr>"

definition on_heartbeat :: "node_id \<Rightarrow> f64 \<Rightarrow> heartbeat_tracker \<Rightarrow> heartbeat_tracker" where
  "on_heartbeat node current_time self =
     self\<lparr>ht_last_heartbeat := AList.update node current_time (ht_last_heartbeat self),
          ht_missed_count := AList.update node 0 (ht_missed_count self)\<rparr>"

definition check_health :: "f64 \<Rightarrow> heartbeat_tracker \<Rightarrow> heartbeat_tracker \<times> node_id list" where
  "check_health current_time self =
     (let dead_nodes = map fst (filter (\<lambda>(node, last_time).
            flt (fmul (ht_heartbeat_interval self) (f64_of_word (ht_max_missed self))) (fsub current_time last_time))
            (ht_last_heartbeat self))
      in (self\<lparr>ht_missed_count := fold (\<lambda>node counts.
              AList.update node ((case map_of counts node of Some c \<Rightarrow> c | None \<Rightarrow> 0) + 1) counts)
            dead_nodes (ht_missed_count self)\<rparr>, dead_nodes))"

section \<open>One packet\<close>

text \<open>The reading of a packet in time: neither early nor late by the relay's own schedule.\<close>

definition on_time :: "flood_schedule \<Rightarrow> f64 \<Rightarrow> flood_message \<Rightarrow> bool" where
  "on_time schedule current_time msg \<longleftrightarrow>
     \<not> flt current_time (fsub (f_timestamp msg) (retransmit_threshold_ms schedule))
   \<and> \<not> flt (fadd (fmul (f64_of_word (f_hop_count msg)) (lit 250)) (lit 100)) (fsub current_time (f_timestamp msg))"

text \<open>The order of a packet passes the validator of a relay that has not yet seen it.\<close>

definition relayable :: "('c, 'v) flood_env \<Rightarrow> u64 \<Rightarrow> order \<Rightarrow> ('c, 'v) deterministic_flood \<Rightarrow> bool" where
  "relayable E secs ord self \<longleftrightarrow>
     \<not> lru_contains (fe_received E) (o_id ord) (fl_received_cache self) \<and> acceptable (fe_ed E) secs ord
   \<and> fresh_nonce ord (fl_sig_validator self) \<and> \<not> lru_contains (fe_seen E) (key_of ord) (v_cache (fl_sig_validator self))"

definition accepts ::
    "('c, 'v) flood_env \<Rightarrow> u64 \<Rightarrow> f64 \<Rightarrow> flood_message \<Rightarrow> ('c, 'v) deterministic_flood \<Rightarrow> bool" where
  "accepts E secs now msg self \<longleftrightarrow> relayable E secs (f_order msg) self \<and> on_time (fl_schedule self) now msg"

lemma on_receive_frame:
  "fl_node_id (fst (on_receive E secs msg from now self)) = fl_node_id self"
  "fl_region (fst (on_receive E secs msg from now self)) = fl_region self"
  "fl_routing_table (fst (on_receive E secs msg from now self)) = fl_routing_table self"
  "fl_schedule (fst (on_receive E secs msg from now self)) = fl_schedule self"
  by (simp_all add: on_receive_def Let_def case_prod_beta)

lemma on_receive_book:
  "fl_order_book_orders (fst (on_receive E secs msg from now self)) =
     (if accepts E secs now msg self then fl_order_book_orders self @ [f_order msg] else fl_order_book_orders self)"
  by (simp add: on_receive_def Let_def case_prod_beta accepts_def relayable_def on_time_def validate_order_spec)

lemma on_receive_forwards:
  "snd (on_receive E secs msg from now self) = Inr fwds \<longleftrightarrow>
     accepts E secs now msg self \<and> f_hop_count msg < max_hops (fl_schedule self) \<and> fwds = forwards_of msg self"
proof -
  have "forwards_of msg (self\<lparr>fl_sig_validator := v, fl_received_cache := c, fl_order_book_orders := b\<rparr>) = forwards_of msg self"
    for v c b by (simp add: forwards_of_def)
  then show ?thesis
    by (auto simp: on_receive_def Let_def case_prod_beta accepts_def relayable_def on_time_def validate_order_spec not_le)
qed

lemma on_receive_nonces:
  "map_of (v_nonces (fl_sig_validator (fst (on_receive E secs msg from now self)))) t =
     (if relayable E secs (f_order msg) self \<and> t = o_trader (f_order msg) then Some (o_nonce (f_order msg))
      else map_of (v_nonces (fl_sig_validator self)) t)"
  by (simp add: on_receive_def Let_def case_prod_beta relayable_def validate_order_spec update_conv')

section \<open>Networks\<close>

text \<open>A packet in flight: its target, its immediate sender and the message.\<close>

type_synonym packet = "node_id \<times> node_id \<times> flood_message"

type_synonym ('c, 'v) relays = "(node_id, ('c, 'v) deterministic_flood) hash_map"

record ('c, 'v) flood_net =
  fn_nodes :: "('c, 'v) relays"
  fn_flight :: "packet list"
  fn_submitted :: "order list"

definition deliver ::
    "('c, 'v) flood_env \<Rightarrow> u64 \<Rightarrow> f64 \<Rightarrow> packet \<Rightarrow> ('c, 'v) relays \<Rightarrow> ('c, 'v) relays \<times> packet list" where
  "deliver E secs now pkt nodes = (case pkt of (target, sender, msg) \<Rightarrow>
     (case map_of nodes target of
        None \<Rightarrow> (nodes, [])
      | Some fl \<Rightarrow> (case on_receive E secs msg sender now fl of
           (fl, Inl _) \<Rightarrow> (AList.update target fl nodes, [])
         | (fl, Inr fwds) \<Rightarrow> (AList.update target fl nodes, map (\<lambda>(peer, m). (peer, target, m)) fwds))))"

definition new_message :: "node_id \<Rightarrow> region \<Rightarrow> f64 \<Rightarrow> order \<Rightarrow> flood_message" where
  "new_message n r ts ord = \<lparr>f_order = ord, f_hop_count = 0, f_path = [n], f_timestamp = ts, f_source_region = r\<rparr>"

inductive net_step :: "('c, 'v) flood_env \<Rightarrow> ('c, 'v) flood_net \<Rightarrow> ('c, 'v) flood_net \<Rightarrow> bool" for E where
  submit: "map_of (fn_nodes s) n = Some fl \<Longrightarrow>
     net_step E s (s\<lparr>fn_flight := fn_flight s @ [(n, n, new_message n r ts ord)], fn_submitted := fn_submitted s @ [ord]\<rparr>)"
| receive: "fn_flight s = xs @ pkt # ys \<Longrightarrow> deliver E secs now pkt (fn_nodes s) = (nodes, fwds) \<Longrightarrow>
     net_step E s (s\<lparr>fn_nodes := nodes, fn_flight := xs @ ys @ fwds\<rparr>)"
| lose: "fn_flight s = xs @ pkt # ys \<Longrightarrow> net_step E s (s\<lparr>fn_flight := xs @ ys\<rparr>)"
| duplicate: "pkt \<in> set (fn_flight s) \<Longrightarrow> net_step E s (s\<lparr>fn_flight := fn_flight s @ [pkt]\<rparr>)"

definition net_new :: "('c, 'v) flood_env \<Rightarrow> ('c, 'v) flood_net \<Rightarrow> bool" where
  "net_new E s \<longleftrightarrow> fn_flight s = [] \<and> fn_submitted s = []
     \<and> (\<forall>n fl. map_of (fn_nodes s) n = Some fl \<longrightarrow> (\<exists>r rt sch. fl = new_flood E n r rt sch))"

inductive net_reach :: "('c, 'v) flood_env \<Rightarrow> ('c, 'v) flood_net \<Rightarrow> bool" for E where
  start: "net_new E s \<Longrightarrow> net_reach E s"
| step: "net_reach E s \<Longrightarrow> net_step E s s' \<Longrightarrow> net_reach E s'"

section \<open>What holds in every network\<close>

definition relay_ok :: "('c, 'v) flood_env \<Rightarrow> order list \<Rightarrow> node_id \<Rightarrow> ('c, 'v) deterministic_flood \<Rightarrow> bool" where
  "relay_ok E subs n fl \<longleftrightarrow>
     fl_node_id fl = n
   \<and> (\<forall>t. sorted_wrt (<) (nonces_of t (fl_order_book_orders fl))
        \<and> (\<forall>m \<in> set (nonces_of t (fl_order_book_orders fl)).
              \<exists>k. map_of (v_nonces (fl_sig_validator fl)) t = Some k \<and> m \<le> k))
   \<and> (\<forall>ord \<in> set (fl_order_book_orders fl). ord \<in> set subs \<and> (\<exists>secs. acceptable (fe_ed E) secs ord))"

definition holds_order :: "('c, 'v) relays \<Rightarrow> order \<Rightarrow> node_id \<Rightarrow> bool" where
  "holds_order nodes ord n \<longleftrightarrow> (\<exists>fl. map_of nodes n = Some fl \<and> ord \<in> set (fl_order_book_orders fl))"

text \<open>The origin puts itself into the path twice: once when it creates the message, once as its first
  relay. So the relays are the tail of the path.\<close>

definition packet_ok :: "('c, 'v) relays \<Rightarrow> packet \<Rightarrow> bool" where
  "packet_ok nodes pkt \<longleftrightarrow> (case pkt of (target, sender, msg) \<Rightarrow>
     length (f_path msg) = Suc (unat (f_hop_count msg))
   \<and> sender = last (f_path msg)
   \<and> distinct (tl (f_path msg)) \<and> target \<notin> set (tl (f_path msg))
   \<and> (\<forall>n \<in> set (tl (f_path msg)). holds_order nodes (f_order msg) n)
   \<and> (f_hop_count msg = 0 \<longrightarrow> f_path msg = [target])
   \<and> (f_hop_count msg \<noteq> 0 \<longrightarrow> target \<notin> set (f_path msg) \<and> hd (f_path msg) = hd (tl (f_path msg))))"

definition net_ok :: "('c, 'v) flood_env \<Rightarrow> ('c, 'v) flood_net \<Rightarrow> bool" where
  "net_ok E s \<longleftrightarrow>
     (\<forall>n fl. map_of (fn_nodes s) n = Some fl \<longrightarrow> relay_ok E (fn_submitted s) n fl)
   \<and> (\<forall>pkt \<in> set (fn_flight s). packet_ok (fn_nodes s) pkt \<and> f_order (snd (snd pkt)) \<in> set (fn_submitted s))"

lemma nonces_of_append: "nonces_of t (xs @ [ord]) = nonces_of t xs @ (if o_trader ord = t then [o_nonce ord] else [])"
  by (simp add: nonces_of_def)

lemma relay_ok_receive:
  assumes "relay_ok E subs n fl" "f_order msg \<in> set subs"
  shows "relay_ok E subs n (fst (on_receive E secs msg sender now fl))"
proof -
  let ?fl = "fst (on_receive E secs msg sender now fl)"
  have nonces: "sorted_wrt (<) (nonces_of t (fl_order_book_orders fl))"
    "\<And>m. m \<in> set (nonces_of t (fl_order_book_orders fl)) \<Longrightarrow> \<exists>k. map_of (v_nonces (fl_sig_validator fl)) t = Some k \<and> m \<le> k" for t
    using assms(1) unfolding relay_ok_def by blast+
  have fresh: "m < o_nonce (f_order msg)"
    if "relayable E secs (f_order msg) fl" "m \<in> set (nonces_of (o_trader (f_order msg)) (fl_order_book_orders fl))" for m
    using nonces(2) [OF that(2)] that(1) unfolding relayable_def fresh_nonce_def by force
  have "sorted_wrt (<) (nonces_of t (fl_order_book_orders ?fl))" for t
    using nonces(1) [of t] fresh
    by (auto simp: on_receive_book nonces_of_append sorted_wrt_append accepts_def)
  moreover have "\<exists>k. map_of (v_nonces (fl_sig_validator ?fl)) t = Some k \<and> m \<le> k"
    if m: "m \<in> set (nonces_of t (fl_order_book_orders ?fl))" for t m
  proof (cases "relayable E secs (f_order msg) fl \<and> t = o_trader (f_order msg)")
    case True
    then show ?thesis using m fresh [of m]
      by (auto simp: on_receive_book on_receive_nonces nonces_of_append split: if_splits)
  next
    case False
    then have "m \<in> set (nonces_of t (fl_order_book_orders fl))"
      using m by (auto simp: on_receive_book nonces_of_append accepts_def split: if_splits)
    then show ?thesis using nonces(2) [of m t] False unfolding on_receive_nonces by auto
  qed
  moreover have "\<forall>ord \<in> set (fl_order_book_orders ?fl). ord \<in> set subs \<and> (\<exists>secs. acceptable (fe_ed E) secs ord)"
    using assms unfolding relay_ok_def on_receive_book accepts_def relayable_def by auto
  ultimately show ?thesis using assms(1) unfolding relay_ok_def by (simp add: on_receive_frame)
qed

text \<open>Delivery at a relay that exists, and what it sends on.\<close>

lemma deliver_nodes:
  assumes "map_of nodes target = Some fl"
  shows "map_of (fst (deliver E secs now (target, sender, msg) nodes)) n =
     (if n = target then Some (fst (on_receive E secs msg sender now fl)) else map_of nodes n)"
  using assms by (auto simp: deliver_def update_conv' split: prod.splits sum.splits)

lemma deliver_unknown: "map_of nodes target = None \<Longrightarrow> deliver E secs now (target, sender, msg) nodes = (nodes, [])"
  by (simp add: deliver_def)

lemma deliver_forwards:
  assumes "map_of nodes target = Some fl"
  shows "snd (deliver E secs now (target, sender, msg) nodes) =
     (if accepts E secs now msg fl \<and> f_hop_count msg < max_hops (fl_schedule fl)
      then map (\<lambda>(peer, m). (peer, target, m)) (forwards_of msg fl) else [])"
proof (cases "on_receive E secs msg sender now fl")
  case (Pair fl' r)
  have r: "r = Inr fwds \<longleftrightarrow> accepts E secs now msg fl \<and> f_hop_count msg < max_hops (fl_schedule fl) \<and> fwds = forwards_of msg fl" for fwds
    using on_receive_forwards [of E secs msg sender now fl fwds] Pair by simp
  show ?thesis
  proof (cases r)
    case (Inl e)
    then show ?thesis using r [of "forwards_of msg fl"] assms Pair by (auto simp: deliver_def)
  next
    case (Inr fwds)
    then show ?thesis using r [of fwds] assms Pair by (simp add: deliver_def)
  qed
qed

lemma holds_order_deliver: "holds_order nodes ord n \<Longrightarrow> holds_order (fst (deliver E secs now (target, sender, msg) nodes)) ord n"
proof (cases "map_of nodes target")
  case (Some fl)
  assume "holds_order nodes ord n"
  then show ?thesis unfolding holds_order_def deliver_nodes [OF Some] using Some by (auto simp: on_receive_book)
qed (simp add: deliver_unknown)

lemma packet_ok_deliver: "packet_ok nodes pkt \<Longrightarrow> packet_ok (fst (deliver E secs now (target, sender, msg) nodes)) pkt"
  unfolding packet_ok_def by (auto intro: holds_order_deliver split: prod.splits)

lemma hop_Suc: "h < (m :: u8) \<Longrightarrow> unat (h + 1) = Suc (unat h)"
  using unsigned_less [of m, where 'a = nat] by (simp add: unat_word_ariths word_less_nat_alt)

lemma packet_ok_forward:
  assumes ok: "packet_ok nodes (target, sender, msg)" and fl: "map_of nodes target = Some fl" "fl_node_id fl = target"
    and pkt: "pkt \<in> set (snd (deliver E secs now (target, sender, msg) nodes))"
  shows "packet_ok (fst (deliver E secs now (target, sender, msg) nodes)) pkt"
proof -
  let ?msg = "msg\<lparr>f_hop_count := f_hop_count msg + 1, f_path := f_path msg @ [target]\<rparr>"
  have acc: "accepts E secs now msg fl" and hops: "f_hop_count msg < max_hops (fl_schedule fl)"
    using pkt by (auto simp: deliver_forwards [OF fl(1)] split: if_splits)
  obtain p where p: "pkt = (p, target, ?msg)" "p \<notin> set (f_path msg)" "p \<noteq> target"
    using pkt fl(2) by (auto simp: deliver_forwards [OF fl(1)] forwards_of_def split: if_splits)
  have path: "length (f_path msg) = Suc (unat (f_hop_count msg))" "distinct (tl (f_path msg))" "target \<notin> set (tl (f_path msg))"
    "\<forall>n \<in> set (tl (f_path msg)). holds_order nodes (f_order msg) n" "f_hop_count msg = 0 \<longrightarrow> f_path msg = [target]"
    "f_hop_count msg \<noteq> 0 \<longrightarrow> hd (f_path msg) = hd (tl (f_path msg))"
    using ok unfolding packet_ok_def by simp_all
  obtain q qs where q: "f_path msg = q # qs" using path(1) by (cases "f_path msg") simp_all
  have first: "q = hd (qs @ [target])"
  proof (cases "f_hop_count msg = 0")
    case False
    then have "qs \<noteq> []" using path(1) q by (auto simp: unat_eq_zero)
    then show ?thesis using path(6) False q by simp
  qed (use path(5) q in simp)
  have here: "holds_order (fst (deliver E secs now (target, sender, msg) nodes)) (f_order msg) target"
    unfolding holds_order_def deliver_nodes [OF fl(1)] using acc by (simp add: on_receive_book)
  have nonzero: "f_hop_count msg + 1 \<noteq> 0" using hop_Suc [OF hops] by (metis Zero_not_Suc unat_0)
  have "p \<notin> set (qs @ [target])" "p \<noteq> q" using p q by auto
  then show ?thesis
    using path first here nonzero q unfolding packet_ok_def p(1)
    by (auto simp: hop_Suc [OF hops] holds_order_deliver)
qed

lemma deliver_order: "pkt \<in> set (snd (deliver E secs now (target, sender, msg) nodes)) \<Longrightarrow> f_order (snd (snd pkt)) = f_order msg"
  by (cases "map_of nodes target") (auto simp: deliver_unknown deliver_forwards forwards_of_def split: if_splits)

lemma net_ok_step:
  assumes "net_step E s s'" "net_ok E s"
  shows "net_ok E s'"
  using assms
proof (induction rule: net_step.induct)
  case (submit s n fl ord r ts)
  have "relay_ok E (fn_submitted s @ [ord]) n fl" if "relay_ok E (fn_submitted s) n fl" for n and fl :: "('a, 'b) deterministic_flood"
    using that unfolding relay_ok_def by auto
  moreover have "packet_ok (fn_nodes s) (n, n, new_message n r ts ord)" by (simp add: packet_ok_def new_message_def)
  ultimately show ?case using submit(2) unfolding net_ok_def by (simp add: ball_Un new_message_def)
next
  case (receive s xs pkt ys secs now nodes fwds)
  obtain target sender msg where pkt: "pkt = (target, sender, msg)" by (cases pkt)
  have here: "packet_ok (fn_nodes s) (target, sender, msg)" "f_order msg \<in> set (fn_submitted s)"
    using receive(1,3) unfolding net_ok_def pkt by simp_all
  have relays: "relay_ok E (fn_submitted s) n fl" if "map_of (fn_nodes s) n = Some fl" for n fl
    using receive(3) that unfolding net_ok_def by blast
  have others: "packet_ok (fn_nodes s) p \<and> f_order (snd (snd p)) \<in> set (fn_submitted s)" if "p \<in> set (xs @ ys)" for p
    using receive(1,3) that unfolding net_ok_def by (auto simp del: split_paired_All)
  show ?case
  proof (cases "map_of (fn_nodes s) target")
    case None
    then have "nodes = fn_nodes s" "fwds = []" using receive(2) pkt by (simp_all add: deliver_unknown)
    then show ?thesis using relays others unfolding net_ok_def by simp
  next
    case (Some fl)
    have nodes: "nodes = fst (deliver E secs now (target, sender, msg) (fn_nodes s))"
      and fwds: "fwds = snd (deliver E secs now (target, sender, msg) (fn_nodes s))"
      using receive(2) pkt by simp_all
    have "relay_ok E (fn_submitted s) n fl'" if "map_of nodes n = Some fl'" for n fl'
      using that relays relay_ok_receive [OF relays [OF Some] here(2)]
      by (auto simp: nodes deliver_nodes [OF Some] split: if_splits)
    moreover have "packet_ok nodes p \<and> f_order (snd (snd p)) \<in> set (fn_submitted s)" if "p \<in> set fwds" for p
      using packet_ok_forward [OF here(1) Some _ that [unfolded fwds]] deliver_order [OF that [unfolded fwds]]
        relays [OF Some] here(2) by (simp add: nodes relay_ok_def)
    moreover have "packet_ok nodes p \<and> f_order (snd (snd p)) \<in> set (fn_submitted s)" if "p \<in> set (xs @ ys)" for p
      using others [OF that] by (simp add: nodes packet_ok_deliver)
    ultimately have "\<forall>n fl. map_of nodes n = Some fl \<longrightarrow> relay_ok E (fn_submitted s) n fl"
      "\<forall>p \<in> set (xs @ ys @ fwds). packet_ok nodes p \<and> f_order (snd (snd p)) \<in> set (fn_submitted s)"
      unfolding set_append by blast+
    then show ?thesis unfolding net_ok_def by simp
  qed
next
  case (lose s xs pkt ys)
  then show ?case unfolding net_ok_def by (simp add: ball_Un)
next
  case (duplicate pkt s)
  then show ?case unfolding net_ok_def by (simp add: ball_Un)
qed

lemma net_ok_reach: "net_reach E s \<Longrightarrow> net_ok E s"
proof (induction rule: net_reach.induct)
  case (start s)
  have "relay_ok E [] n fl" if fl: "map_of (fn_nodes s) n = Some fl" for n fl
  proof -
    obtain r rt sch where "fl = new_flood E n r rt sch" using start fl unfolding net_new_def by blast
    then show ?thesis by (simp add: relay_ok_def new_flood_def nonces_of_def)
  qed
  then show ?case using start unfolding net_new_def net_ok_def by simp
next
  case (step s s')
  then show ?case by (blast intro: net_ok_step)
qed

section \<open>A flood ends\<close>

definition delivery :: "('c, 'v) flood_env \<Rightarrow> ('c, 'v) relays \<Rightarrow> packet \<Rightarrow> ('c, 'v) relays \<Rightarrow> packet list \<Rightarrow> bool" where
  "delivery E nodes pkt nodes' fwds \<longleftrightarrow> (\<exists>secs now. deliver E secs now pkt nodes = (nodes', fwds))"

definition narrow :: "nat \<Rightarrow> nat \<Rightarrow> ('c, 'v) relays \<Rightarrow> bool" where
  "narrow hops degree nodes \<longleftrightarrow> (\<forall>n fl. map_of nodes n = Some fl \<longrightarrow>
     unat (max_hops (fl_schedule fl)) \<le> hops \<and> length (downstream_peers (fl_routing_table fl)) \<le> degree)"

definition hops_left :: "nat \<Rightarrow> packet \<Rightarrow> nat" where
  "hops_left hops pkt = hops - unat (f_hop_count (snd (snd pkt)))"

interpretation fl: worklist "delivery E" "narrow hops degree" "hops_left hops" degree for E hops degree
proof
  fix nodes nodes' :: "('a, 'b) relays" and pkt fwds
  assume good: "narrow hops degree nodes" and step: "delivery E nodes pkt nodes' fwds"
  obtain target sender msg where pkt: "pkt = (target, sender, msg)" by (cases pkt)
  obtain secs now where del: "deliver E secs now (target, sender, msg) nodes = (nodes', fwds)"
    using step pkt unfolding delivery_def by auto
  show "narrow hops degree nodes'" "length fwds \<le> degree"
  proof (atomize (full), cases "map_of nodes target")
    case None
    then show "narrow hops degree nodes' \<and> length fwds \<le> degree" using del good by (simp add: deliver_unknown)
  next
    case (Some fl)
    have "narrow hops degree nodes'"
      using good deliver_nodes [OF Some, of E secs now sender msg] Some
      unfolding narrow_def del by (auto simp: on_receive_frame split: if_splits)
    moreover have "length fwds \<le> length (downstream_peers (fl_routing_table fl))"
      using deliver_forwards [OF Some, of E secs now sender msg]
      unfolding del by (simp add: forwards_of_def)
    ultimately show "narrow hops degree nodes' \<and> length fwds \<le> degree"
      using good Some unfolding narrow_def by (meson le_trans)
  qed
  show "hops_left hops p < hops_left hops pkt" if p: "p \<in> set fwds" for p
  proof (cases "map_of nodes target")
    case None
    then show ?thesis using del p by (simp add: deliver_unknown)
  next
    case (Some fl)
    have "f_hop_count msg < max_hops (fl_schedule fl)" "f_hop_count (snd (snd p)) = f_hop_count msg + 1"
      using deliver_forwards [OF Some, of E secs now sender msg] p
      unfolding del by (auto simp: forwards_of_def split: if_splits)
    moreover have "unat (max_hops (fl_schedule fl)) \<le> hops" using good Some unfolding narrow_def by blast
    ultimately show ?thesis using hop_Suc [of "f_hop_count msg" "max_hops (fl_schedule fl)"]
      by (simp add: hops_left_def pkt word_less_nat_alt)
  qed
qed

section \<open>A flood reaches everyone\<close>

text \<open>Delivery in time of an order that is acceptable when it arrives.\<close>

definition timely_delivery :: "('c, 'v) flood_env \<Rightarrow> ('c, 'v) relays \<Rightarrow> packet \<Rightarrow> ('c, 'v) relays \<Rightarrow> packet list \<Rightarrow> bool" where
  "timely_delivery E nodes pkt nodes' fwds \<longleftrightarrow> (\<exists>secs now. deliver E secs now pkt nodes = (nodes', fwds)
     \<and> acceptable (fe_ed E) secs (f_order (snd (snd pkt)))
     \<and> (\<forall>fl. map_of nodes (fst pkt) = Some fl \<longrightarrow> on_time (fl_schedule fl) now (snd (snd pkt))))"

definition unseen :: "('c, 'v) flood_env \<Rightarrow> order \<Rightarrow> ('c, 'v) deterministic_flood \<Rightarrow> bool" where
  "unseen E ord fl \<longleftrightarrow> \<not> lru_contains (fe_received E) (o_id ord) (fl_received_cache fl)
     \<and> fresh_nonce ord (fl_sig_validator fl) \<and> \<not> lru_contains (fe_seen E) (key_of ord) (v_cache (fl_sig_validator fl))
     \<and> ord \<notin> set (fl_order_book_orders fl)"

definition links :: "('c, 'v) relays \<Rightarrow> (node_id \<times> node_id) set" where
  "links nodes = {(a, b). \<exists>fl. map_of nodes a = Some fl \<and> b \<in> pe_id ` set (downstream_peers (fl_routing_table fl))}"

definition spreading :: "('c, 'v) flood_env \<Rightarrow> order \<Rightarrow> node_id \<Rightarrow> ('c, 'v) relays \<Rightarrow> packet list \<Rightarrow> bool" where
  "spreading E ord origin nodes pkts \<longleftrightarrow>
     (\<forall>pkt \<in> set pkts. packet_ok nodes pkt \<and> f_order (snd (snd pkt)) = ord)
   \<and> (\<forall>n fl. map_of nodes n = Some fl \<longrightarrow> fl_node_id fl = n
        \<and> card (dom (map_of nodes)) \<le> unat (max_hops (fl_schedule fl))
        \<and> (unseen E ord fl \<or> ord \<in> set (fl_order_book_orders fl) \<and> \<not> fresh_nonce ord (fl_sig_validator fl)))
   \<and> (\<forall>a b. holds_order nodes ord a \<and> (a, b) \<in> links nodes \<and> b \<in> dom (map_of nodes) \<longrightarrow>
        holds_order nodes ord b \<or> b \<in> fst ` set pkts)
   \<and> origin \<in> dom (map_of nodes) \<and> (holds_order nodes ord origin \<or> origin \<in> fst ` set pkts)"

lemma packet_hops:
  assumes "packet_ok nodes (target, sender, msg)" "target \<in> dom (map_of nodes)"
  shows "unat (f_hop_count msg) < card (dom (map_of nodes))"
proof -
  let ?relays = "tl (f_path msg)"
  have "distinct ?relays" "target \<notin> set ?relays" "length ?relays = unat (f_hop_count msg)"
    "\<forall>n \<in> set ?relays. holds_order nodes (f_order msg) n"
    using assms(1) unfolding packet_ok_def by simp_all
  moreover from this have "insert target (set ?relays) \<subseteq> dom (map_of nodes)"
    using assms(2) unfolding holds_order_def by auto
  ultimately show ?thesis
    using card_mono [of "dom (map_of nodes)" "insert target (set ?relays)"] finite_dom_map_of [of nodes]
    by (simp add: distinct_card)
qed

lemma path_holds:
  assumes "packet_ok nodes (target, sender, msg)" "n \<in> set (f_path msg)" "n \<noteq> target"
  shows "holds_order nodes (f_order msg) n"
proof (cases "f_hop_count msg = 0")
  case False
  have "length (f_path msg) = Suc (unat (f_hop_count msg))" "hd (f_path msg) = hd (tl (f_path msg))"
    "\<forall>n \<in> set (tl (f_path msg)). holds_order nodes (f_order msg) n"
    using assms(1) False unfolding packet_ok_def by simp_all
  moreover have "unat (f_hop_count msg) \<noteq> 0" using False by (simp add: unat_eq_zero)
  moreover from calculation obtain q qs where "f_path msg = q # qs" "qs \<noteq> []"
    by (cases "f_path msg") fastforce+
  ultimately show ?thesis using assms(2) by (metis list.sel(1,3) list.set_sel(1) set_ConsD)
qed (use assms in \<open>simp add: packet_ok_def\<close>)

lemma deliver_links:
  "links (fst (deliver E secs now (target, sender, msg) nodes)) = links nodes"
  "dom (map_of (fst (deliver E secs now (target, sender, msg) nodes))) = dom (map_of nodes)"
proof (atomize (full), cases "map_of nodes target")
  case (Some fl)
  then show "links (fst (deliver E secs now (target, sender, msg) nodes)) = links nodes \<and>
      dom (map_of (fst (deliver E secs now (target, sender, msg) nodes))) = dom (map_of nodes)"
    by (auto simp: links_def deliver_nodes on_receive_frame split: if_splits)
qed (simp add: deliver_unknown)

text \<open>A relay that has not seen the order accepts it; one that holds it changes nothing that matters.\<close>

lemma holds_order_receive:
  assumes "map_of nodes target = Some fl" "accepts E secs now msg fl"
  shows "holds_order (fst (deliver E secs now (target, sender, msg) nodes)) ord n \<longleftrightarrow>
     holds_order nodes ord n \<or> n = target \<and> ord = f_order msg"
  unfolding holds_order_def deliver_nodes [OF assms(1)] using assms by (auto simp: on_receive_book)

lemma holds_order_ignore:
  assumes "map_of nodes target = Some fl" "\<not> accepts E secs now msg fl"
  shows "holds_order (fst (deliver E secs now (target, sender, msg) nodes)) ord n \<longleftrightarrow> holds_order nodes ord n"
  unfolding holds_order_def deliver_nodes [OF assms(1)] using assms by (auto simp: on_receive_book)

lemma seen_or_unseen:
  assumes "unseen E (f_order msg) fl \<or> f_order msg \<in> set (fl_order_book_orders fl) \<and> \<not> fresh_nonce (f_order msg) (fl_sig_validator fl)"
    and "acceptable (fe_ed E) secs (f_order msg)" "on_time (fl_schedule fl) now msg"
  shows "accepts E secs now msg fl \<longleftrightarrow> unseen E (f_order msg) fl"
    and "let fl' = fst (on_receive E secs msg sender now fl)
         in f_order msg \<in> set (fl_order_book_orders fl') \<and> \<not> fresh_nonce (f_order msg) (fl_sig_validator fl')"
proof -
  show *: "accepts E secs now msg fl \<longleftrightarrow> unseen E (f_order msg) fl"
    using assms unfolding accepts_def relayable_def unseen_def by blast
  show "let fl' = fst (on_receive E secs msg sender now fl)
         in f_order msg \<in> set (fl_order_book_orders fl') \<and> \<not> fresh_nonce (f_order msg) (fl_sig_validator fl')"
    using assms * by (auto simp: Let_def on_receive_book on_receive_nonces fresh_nonce_def accepts_def)
qed

lemma spreading_deliver:
  assumes inv: "spreading E ord origin nodes pkts" and pkt: "pkt \<in> set pkts"
    and step: "timely_delivery E nodes pkt nodes' fwds"
    and pkts': "set pkts - {pkt} \<union> set fwds \<subseteq> set pkts'" "set pkts' \<subseteq> set pkts \<union> set fwds"
  shows "spreading E ord origin nodes' pkts'"
proof -
  obtain target sender msg where p: "pkt = (target, sender, msg)" by (cases pkt)
  obtain secs now where del: "deliver E secs now (target, sender, msg) nodes = (nodes', fwds)"
    and acc: "acceptable (fe_ed E) secs (f_order msg)"
    and time: "\<And>fl. map_of nodes target = Some fl \<Longrightarrow> on_time (fl_schedule fl) now msg"
    using step unfolding timely_delivery_def p by auto
  have nodes': "nodes' = fst (deliver E secs now (target, sender, msg) nodes)"
    and fwds: "fwds = snd (deliver E secs now (target, sender, msg) nodes)" using del by simp_all
  note inv' = inv [unfolded spreading_def]
  have ok: "packet_ok nodes (target, sender, msg)" and ord: "f_order msg = ord" using inv' pkt p by auto
  have packets: "\<forall>q \<in> set pkts'. packet_ok nodes' q \<and> f_order (snd (snd q)) = ord"
  proof
    fix q assume "q \<in> set pkts'"
    then consider "q \<in> set pkts" | "q \<in> set fwds" using pkts'(2) by blast
    then show "packet_ok nodes' q \<and> f_order (snd (snd q)) = ord"
    proof cases
      case 1
      then show ?thesis using inv' packet_ok_deliver [of nodes q] unfolding nodes' by blast
    next
      case 2
      then obtain fl where fl: "map_of nodes target = Some fl"
        unfolding fwds by (cases "map_of nodes target") (simp_all add: deliver_unknown)
      then have "fl_node_id fl = target" using inv' by blast
      then show ?thesis
        using packet_ok_forward [OF ok fl _ 2 [unfolded fwds]] deliver_order [OF 2 [unfolded fwds]] ord unfolding nodes' by blast
    qed
  qed
  show ?thesis
  proof (cases "map_of nodes target")
    case None
    then have same: "nodes' = nodes" "fwds = []" using del by (simp_all add: deliver_unknown)
    have "b \<in> fst ` set pkts'" if "b \<in> fst ` set pkts" "b \<in> dom (map_of nodes)" for b
      using that pkts'(1) None p by force
    then show ?thesis using packets inv' unfolding spreading_def same by blast
  next
    case (Some fl)
    have here: "unseen E (f_order msg) fl \<or> f_order msg \<in> set (fl_order_book_orders fl) \<and> \<not> fresh_nonce (f_order msg) (fl_sig_validator fl)"
      and id: "fl_node_id fl = target" and hops: "card (dom (map_of nodes)) \<le> unat (max_hops (fl_schedule fl))"
      using inv' Some ord by blast+
    note seen = seen_or_unseen [OF here acc time [OF Some]]
    have holds: "holds_order nodes' ord n \<longleftrightarrow> holds_order nodes ord n \<or> n = target" for n
    proof (cases "accepts E secs now msg fl")
      case True
      then show ?thesis unfolding nodes' holds_order_receive [OF Some True] using ord by simp
    next
      case False
      then have "holds_order nodes ord target" using seen(1) here Some ord unfolding holds_order_def by auto
      then show ?thesis unfolding nodes' holds_order_ignore [OF Some False] by auto
    qed
    have nodes: "map_of nodes' n = (if n = target then Some (fst (on_receive E secs msg sender now fl)) else map_of nodes n)" for n
      unfolding nodes' by (rule deliver_nodes [OF Some])
    have same: "links nodes' = links nodes" "dom (map_of nodes') = dom (map_of nodes)" unfolding nodes' by (rule deliver_links)+
    have waiting: "b \<in> fst ` set pkts'" if "b \<in> fst ` set pkts" "b \<noteq> target" for b
      using that pkts'(1) p by force
    have relays: "fl_node_id fl' = n \<and> card (dom (map_of nodes')) \<le> unat (max_hops (fl_schedule fl'))
        \<and> (unseen E ord fl' \<or> ord \<in> set (fl_order_book_orders fl') \<and> \<not> fresh_nonce ord (fl_sig_validator fl'))"
      if fl': "map_of nodes' n = Some fl'" for n fl'
    proof (cases "n = target")
      case True
      then have "fl' = fst (on_receive E secs msg sender now fl)" using fl' nodes by simp
      then show ?thesis using True id hops seen(2) ord by (simp add: on_receive_frame same Let_def)
    next
      case False
      then have "map_of nodes n = Some fl'" using fl' nodes by simp
      then show ?thesis using inv' unfolding same by blast
    qed
    have covered: "holds_order nodes' ord b \<or> b \<in> fst ` set pkts'"
      if a: "holds_order nodes' ord a" and ab: "(a, b) \<in> links nodes" "b \<in> dom (map_of nodes)" for a b
    proof (cases "holds_order nodes ord a")
      case True
      then have "holds_order nodes ord b \<or> b \<in> fst ` set pkts" using inv' ab by blast
      then show ?thesis using waiting holds by blast
    next
      case False
      then have at: "a = target" using a holds by blast
      then have "f_order msg \<notin> set (fl_order_book_orders fl)" using False Some ord unfolding holds_order_def by auto
      then have "accepts E secs now msg fl" using here seen(1) by blast
      moreover have "f_hop_count msg < max_hops (fl_schedule fl)"
        using packet_hops [OF ok] Some hops unfolding word_less_nat_alt by fastforce
      ultimately have out: "fwds = map (\<lambda>(peer, m). (peer, target, m)) (forwards_of msg fl)"
        unfolding fwds deliver_forwards [OF Some] by simp
      obtain q where q: "q \<in> set (downstream_peers (fl_routing_table fl))" "pe_id q = b"
        using ab(1) at Some unfolding links_def by auto
      show ?thesis
      proof (cases "b \<in> set (f_path msg) \<or> b = target")
        case True
        then show ?thesis using path_holds [OF ok] holds ord by blast
      next
        case False
        then have "b \<in> fst ` set fwds" unfolding out forwards_of_def using q id by force
        then show ?thesis using pkts'(1) by blast
      qed
    qed
    have "origin \<in> dom (map_of nodes)" "holds_order nodes' ord origin \<or> origin \<in> fst ` set pkts'"
      using inv' waiting holds by blast+
    then show ?thesis unfolding spreading_def same using packets relays covered by (metis (no_types, lifting) same)
  qed
qed

lemma spreading_works:
  assumes "works (timely_delivery E) nodes pkts k nodes' pkts'" "spreading E ord origin nodes pkts"
  shows "spreading E ord origin nodes' pkts' \<and> links nodes' = links nodes \<and> dom (map_of nodes') = dom (map_of nodes)"
  using assms
proof (induction rule: works.induct)
  case (more n s' us w s'' vs us')
  obtain target sender msg where w: "w = (target, sender, msg)" by (cases w)
  have "set us' = set (remove1 w us) \<union> set vs" using mset_eq_setD [OF more(4)] by simp
  then have "set us - {w} \<union> set vs \<subseteq> set us'" "set us' \<subseteq> set us \<union> set vs"
    using set_remove1_subset [of w us] by auto
  moreover obtain secs now where "s'' = fst (deliver E secs now (target, sender, msg) s')"
    using more(3) unfolding timely_delivery_def w by (metis fst_conv)
  ultimately show ?case using spreading_deliver [OF _ more(2,3)] more(5,6) deliver_links by metis
qed simp

section \<open>Properties\<close>

text \<open>C18. Packets in flight: in every network that can be reached, with packets lost, duplicated and
  reordered, a packet's path has one entry more than its hop count, names each relay once, ends in
  its sender and avoids its target, and every relay on it has accepted the order.\<close>

theorem flood_packets_ok:
  assumes "net_reach E s" "(target, sender, msg) \<in> set (fn_flight s)"
  shows "length (f_path msg) = Suc (unat (f_hop_count msg)) \<and> sender = last (f_path msg)
     \<and> distinct (tl (f_path msg)) \<and> target \<notin> set (tl (f_path msg))
     \<and> (\<forall>n \<in> set (tl (f_path msg)). \<exists>fl. map_of (fn_nodes s) n = Some fl \<and> f_order msg \<in> set (fl_order_book_orders fl))"
proof -
  have "packet_ok (fn_nodes s) (target, sender, msg)" using net_ok_reach [OF assms(1)] assms(2) unfolding net_ok_def by blast
  then show ?thesis unfolding packet_ok_def holds_order_def by simp
qed

text \<open>C17. What a relay holds: every order a relay has taken was submitted at some node, passed the signature
  check, and was taken once, however small the caches are; orders of one trader are taken with
  increasing nonces.\<close>

theorem relay_takes_orders_once:
  assumes "net_reach E s" "map_of (fn_nodes s) n = Some fl"
  shows "distinct (fl_order_book_orders fl)
     \<and> (\<forall>t. sorted_wrt (<) (map o_nonce (filter (\<lambda>ord. o_trader ord = t) (fl_order_book_orders fl))))
     \<and> (\<forall>ord \<in> set (fl_order_book_orders fl). ord \<in> set (fn_submitted s)
           \<and> vk_verify (fe_ed E) (o_trader ord) (serialize_order_message ord) (o_signature ord))"
proof -
  let ?book = "fl_order_book_orders fl"
  have ok: "relay_ok E (fn_submitted s) n fl" using net_ok_reach [OF assms(1)] assms(2) unfolding net_ok_def by blast
  then have sorted: "sorted_wrt (<) (map o_nonce (filter (\<lambda>ord. o_trader ord = t) ?book))" for t
    unfolding relay_ok_def nonces_of_def by blast
  have "distinct xs" if "\<And>t. sorted_wrt (<) (map o_nonce (filter (\<lambda>ord. o_trader ord = t) xs))" for xs
    using that
  proof (induction xs)
    case (Cons x xs)
    have "sorted_wrt (<) (map o_nonce (filter (\<lambda>ord. o_trader ord = t) xs))" for t
      using Cons.prems [of t] by (simp split: if_splits)
    then have "distinct xs" by (rule Cons.IH)
    moreover have "x \<notin> set xs" using Cons.prems [of "o_trader x"] by auto
    ultimately show ?case by simp
  qed simp
  from this [OF sorted] have "distinct ?book" .
  then show ?thesis using ok sorted unfolding relay_ok_def acceptable_def by blast
qed

text \<open>C12. Every flood ends: from any network whose relays have at most \<open>degree\<close> downstream peers and allow at
  most \<open>hops\<close> hops, and any packets in flight, at most \<open>load\<close> packets are ever delivered, in
  whatever order and at whatever times they arrive.\<close>

theorem flood_terminates:
  assumes "\<forall>n fl. map_of nodes n = Some fl \<longrightarrow>
      unat (max_hops (fl_schedule fl)) \<le> hops \<and> length (downstream_peers (fl_routing_table fl)) \<le> degree"
    and "works (delivery E) nodes pkts k nodes' pkts'"
  shows "k + load (hops_left hops) degree pkts' \<le> load (hops_left hops) degree pkts"
  using fl.works_bound [OF assms(2), of hops degree] assms(1) unfolding narrow_def by blast

text \<open>C4. A flood reaches everyone: when an order no relay has seen is submitted at \<open>origin\<close>, the hop limit is
  at least the number of relays and every packet is delivered in time, then at the end of the flood every
  node that downstream links lead to from the origin holds the order.\<close>

theorem flood_reaches_everyone:
  assumes "\<forall>n fl. map_of nodes n = Some fl \<longrightarrow> fl_node_id fl = n \<and> unseen E ord fl
      \<and> card (dom (map_of nodes)) \<le> unat (max_hops (fl_schedule fl))"
    and "origin \<in> dom (map_of nodes)" and "node \<in> dom (map_of nodes)" and "(origin, node) \<in> (links nodes)\<^sup>*"
    and "works (timely_delivery E) nodes [(origin, origin, new_message origin region ts ord)] k nodes' []"
  shows "\<exists>fl. map_of nodes' node = Some fl \<and> ord \<in> set (fl_order_book_orders fl)"
proof -
  have none: "\<not> holds_order nodes ord n" for n using assms(1) unfolding holds_order_def unseen_def by blast
  have "packet_ok nodes (origin, origin, new_message origin region ts ord)" by (simp add: packet_ok_def new_message_def)
  moreover have "f_order (new_message origin region ts ord) = ord" by (simp add: new_message_def)
  ultimately have "spreading E ord origin nodes [(origin, origin, new_message origin region ts ord)]"
    using assms(1,2) none unfolding spreading_def by simp
  from spreading_works [OF assms(5) this] have inv: "spreading E ord origin nodes' []"
    and same: "links nodes' = links nodes" "dom (map_of nodes') = dom (map_of nodes)" by blast+
  have "node \<in> dom (map_of nodes) \<longrightarrow> holds_order nodes' ord node"
    using assms(4)
  proof (induction rule: rtrancl_induct)
    case base
    then show ?case using inv unfolding spreading_def by simp
  next
    case (step a b)
    have "a \<in> dom (map_of nodes)" using step(2) unfolding links_def by auto
    then show ?case using step inv unfolding spreading_def same by auto
  qed
  then show ?thesis using assms(3) unfolding holds_order_def by blast
qed


lemma rnd_minus_numeral [simp]: "numeral n \<le> (2 ^ 53 :: int) \<Longrightarrow> rnd (- numeral n) = Fin (- numeral n)"
  using rnd_of_int [of "- numeral n"] by simp

section \<open>Two relays\<close>

text \<open>Two nodes, each the other's downstream peer, with caches that keep nothing.\<close>

definition demo_flood_env :: "(unit, unit) flood_env" where
  "demo_flood_env =
     \<lparr>fe_ed = demo_ed25519,
      fe_received = \<lparr>lru_new = (\<lambda>_. ()), lru_contains = (\<lambda>_ _. False), lru_get = (\<lambda>_ c. (None, c)), lru_put = (\<lambda>_ _ c. c), lru_update = (\<lambda>_ _ c. c)\<rparr>,
      fe_seen = \<lparr>lru_new = (\<lambda>_. ()), lru_contains = (\<lambda>_ _. False), lru_get = (\<lambda>_ c. (None, c)), lru_put = (\<lambda>_ _ c. c), lru_update = (\<lambda>_ _ c. c)\<rparr>\<rparr>"

definition demo_peer :: "node_id \<Rightarrow> peer" where
  "demo_peer n = \<lparr>pe_id = n, pe_latency_ms = Fin 1, pe_last_heartbeat = Fin 0, pe_health_score = Fin 1\<rparr>"

definition demo_relay :: "node_id \<Rightarrow> node_id \<Rightarrow> (unit, unit) deterministic_flood" where
  "demo_relay n p = new_flood demo_flood_env n UsEast1
     \<lparr>upstream_peers = [], downstream_peers = [demo_peer p], zone_peers = []\<rparr> default_schedule"

definition demo_relays :: "(unit, unit) relays" where
  "demo_relays = [(1, demo_relay 1 2), (2, demo_relay 2 1)]"

definition demo_flooded :: order where
  "demo_flooded = (demo_order Buy 2 2 7 3)\<lparr>o_signature := [1]\<rparr>"

definition demo_packet :: packet where
  "demo_packet = (1, 1, new_message 1 UsEast1 (Fin 0) demo_flooded)"

definition demo_forward :: packet where
  "demo_forward = (2, 1, (new_message 1 UsEast1 (Fin 0) demo_flooded)\<lparr>f_hop_count := 1, f_path := [1, 1]\<rparr>)"

lemma demo_acceptable: "acceptable (fe_ed demo_flood_env) 0 demo_flooded"
  by (simp add: acceptable_def demo_flood_env_def demo_ed25519_def demo_flooded_def demo_order_def zero32_def)

lemma demo_unseen: "unseen demo_flood_env demo_flooded (demo_relay n p)"
  by (simp add: unseen_def demo_relay_def new_flood_def demo_flood_env_def new_validator_def fresh_nonce_def)

lemma demo_on_time: "on_time default_schedule (Fin 0) (snd (snd demo_packet))" "on_time default_schedule (Fin 0) (snd (snd demo_forward))"
  by (simp_all add: on_time_def default_schedule_def demo_packet_def demo_forward_def new_message_def fsub_def f64_of_word_def)

lemma demo_relays_of: "map_of demo_relays n = (if n = 1 then Some (demo_relay 1 2) else if n = 2 then Some (demo_relay 2 1) else None)"
  by (simp add: demo_relays_def)

lemma demo_accepts:
  assumes "f_order msg = demo_flooded" "on_time default_schedule (Fin 0) msg"
  shows "accepts demo_flood_env 0 (Fin 0) msg (demo_relay n p)"
  using demo_acceptable demo_unseen [of n p] assms
  unfolding accepts_def relayable_def unseen_def by (simp add: demo_relay_def new_flood_def)

lemma demo_delivered:
  obtains nodes' where "delivery demo_flood_env demo_relays demo_packet nodes' [demo_forward]"
    "timely_delivery demo_flood_env demo_relays demo_packet nodes' [demo_forward]"
    "map_of nodes' 2 = Some (demo_relay 2 1)"
proof
  let ?nodes = "fst (deliver demo_flood_env 0 (Fin 0) demo_packet demo_relays)"
  have d: "map_of demo_relays 1 = Some (demo_relay 1 2)" by (simp add: demo_relays_of)
  have acc: "accepts demo_flood_env 0 (Fin 0) (snd (snd demo_packet)) (demo_relay 1 2)"
    by (rule demo_accepts [OF _ demo_on_time(1)]) (simp add: demo_packet_def new_message_def)
  have "snd (deliver demo_flood_env 0 (Fin 0) demo_packet demo_relays) = [demo_forward]"
    using acc unfolding demo_packet_def deliver_forwards [OF d]
    by (simp add: demo_forward_def forwards_of_def demo_relay_def new_flood_def demo_peer_def new_message_def default_schedule_def)
  then have del: "deliver demo_flood_env 0 (Fin 0) demo_packet demo_relays = (?nodes, [demo_forward])" by (metis prod.collapse)
  then show "delivery demo_flood_env demo_relays demo_packet ?nodes [demo_forward]" unfolding delivery_def by blast
  have "acceptable (fe_ed demo_flood_env) 0 (f_order (snd (snd demo_packet)))"
    using demo_acceptable by (simp add: demo_packet_def new_message_def)
  moreover have "on_time (fl_schedule (demo_relay 1 2)) (Fin 0) (snd (snd demo_packet))"
    using demo_on_time(1) by (simp add: demo_relay_def new_flood_def)
  ultimately show "timely_delivery demo_flood_env demo_relays demo_packet ?nodes [demo_forward]"
    using del d unfolding timely_delivery_def by (intro exI [of _ 0] exI [of _ "Fin 0"]) (simp add: demo_packet_def)
  show "map_of ?nodes 2 = Some (demo_relay 2 1)" unfolding demo_packet_def deliver_nodes [OF d] by (simp add: demo_relays_of)
qed

lemma demo_last:
  assumes "map_of nodes 2 = Some (demo_relay 2 1)"
  shows "\<exists>nodes'. timely_delivery demo_flood_env nodes demo_forward nodes' []"
proof -
  have "snd (deliver demo_flood_env 0 (Fin 0) demo_forward nodes) = []"
    unfolding demo_forward_def deliver_forwards [OF assms] by (simp add: forwards_of_def demo_relay_def new_flood_def demo_peer_def)
  then obtain nodes' where del: "deliver demo_flood_env 0 (Fin 0) demo_forward nodes = (nodes', [])" by (metis prod.collapse)
  have "acceptable (fe_ed demo_flood_env) 0 (f_order (snd (snd demo_forward)))"
    using demo_acceptable by (simp add: demo_forward_def new_message_def)
  moreover have "on_time (fl_schedule (demo_relay 2 1)) (Fin 0) (snd (snd demo_forward))"
    using demo_on_time(2) by (simp add: demo_relay_def new_flood_def)
  ultimately show ?thesis using del assms unfolding timely_delivery_def
    by (intro exI [of _ nodes'] exI [of _ 0] exI [of _ "Fin 0"]) (simp add: demo_forward_def)
qed

theorem flood_reaches_everyone_witness:
  "\<exists>nodes' fl. works (timely_delivery demo_flood_env) demo_relays [demo_packet] 2 nodes' []
     \<and> map_of nodes' 2 = Some fl \<and> demo_flooded \<in> set (fl_order_book_orders fl)"
proof -
  obtain nodes where first: "timely_delivery demo_flood_env demo_relays demo_packet nodes [demo_forward]"
    and two: "map_of nodes 2 = Some (demo_relay 2 1)" by (rule demo_delivered)
  obtain nodes' where second: "timely_delivery demo_flood_env nodes demo_forward nodes' []" using demo_last [OF two] by blast
  have "works (timely_delivery demo_flood_env) demo_relays [demo_packet] (Suc 0) nodes [demo_forward]"
    using first by (rule works_first)
  from works_next [OF this second] have run: "works (timely_delivery demo_flood_env) demo_relays [demo_packet] 2 nodes' []"
    unfolding numeral_2_eq_2 .
  have start: "works (timely_delivery demo_flood_env) demo_relays [(1, 1, new_message 1 UsEast1 (Fin 0) demo_flooded)] 2 nodes' []"
    using run by (simp add: demo_packet_def)
  have dom: "dom (map_of demo_relays) = {1, 2}" by (auto simp: demo_relays_of split: if_splits)
  have "\<exists>fl. map_of nodes' 2 = Some fl \<and> demo_flooded \<in> set (fl_order_book_orders fl)"
  proof (rule flood_reaches_everyone [OF _ _ _ _ start])
    show "\<forall>n fl. map_of demo_relays n = Some fl \<longrightarrow> fl_node_id fl = n \<and> unseen demo_flood_env demo_flooded fl
        \<and> card (dom (map_of demo_relays)) \<le> unat (max_hops (fl_schedule fl))"
      unfolding dom using demo_unseen
      by (auto simp: demo_relays_of demo_relay_def new_flood_def default_schedule_def split: if_splits)
    have "(1, 2) \<in> links demo_relays"
      by (simp add: links_def demo_relays_of demo_relay_def new_flood_def demo_peer_def)
    then show "(1, 2) \<in> (links demo_relays)\<^sup>*" by simp
  qed (simp_all add: dom)
  then show ?thesis using run by blast
qed

theorem flood_terminates_witness:
  "\<exists>nodes'. works (delivery demo_flood_env) demo_relays [demo_packet] 1 nodes' [demo_forward]
     \<and> 1 + load (hops_left 7) 1 [demo_forward] \<le> load (hops_left 7) 1 [demo_packet]"
proof -
  obtain nodes where first: "delivery demo_flood_env demo_relays demo_packet nodes [demo_forward]" by (rule demo_delivered)
  have run: "works (delivery demo_flood_env) demo_relays [demo_packet] 1 nodes [demo_forward]"
    using first unfolding One_nat_def by (rule works_first)
  have "\<forall>n fl. map_of demo_relays n = Some fl \<longrightarrow>
      unat (max_hops (fl_schedule fl)) \<le> 7 \<and> length (downstream_peers (fl_routing_table fl)) \<le> 1"
    by (auto simp: demo_relays_of demo_relay_def new_flood_def default_schedule_def split: if_splits)
  from flood_terminates [OF this run] show ?thesis using run by blast
qed

lemma demo_net_reach:
  "\<exists>nodes. net_reach demo_flood_env \<lparr>fn_nodes = nodes, fn_flight = [demo_forward], fn_submitted = [demo_flooded]\<rparr>
     \<and> (\<exists>fl. map_of nodes 1 = Some fl)"
proof -
  obtain nodes where "delivery demo_flood_env demo_relays demo_packet nodes [demo_forward]" by (rule demo_delivered)
  then obtain secs now where del: "deliver demo_flood_env secs now demo_packet demo_relays = (nodes, [demo_forward])"
    unfolding delivery_def by blast
  let ?s = "\<lparr>fn_nodes = demo_relays, fn_flight = [], fn_submitted = []\<rparr>"
  let ?t = "\<lparr>fn_nodes = demo_relays, fn_flight = [demo_packet], fn_submitted = [demo_flooded]\<rparr>"
  have "net_reach demo_flood_env ?s"
    by (rule net_reach.start) (auto simp: net_new_def demo_relays_of demo_relay_def split: if_splits)
  moreover have "net_step demo_flood_env ?s ?t"
    using net_step.submit [of ?s 1 "demo_relay 1 2" demo_flood_env demo_flooded UsEast1 "Fin 0"]
    by (simp add: demo_relays_of demo_packet_def)
  ultimately have "net_reach demo_flood_env ?t" by (rule net_reach.step)
  moreover have "net_step demo_flood_env ?t \<lparr>fn_nodes = nodes, fn_flight = [demo_forward], fn_submitted = [demo_flooded]\<rparr>"
    using net_step.receive [of ?t "[]" demo_packet "[]" demo_flood_env secs now nodes "[demo_forward]"] del by simp
  ultimately have "net_reach demo_flood_env \<lparr>fn_nodes = nodes, fn_flight = [demo_forward], fn_submitted = [demo_flooded]\<rparr>"
    by (rule net_reach.step)
  moreover have "\<exists>fl. map_of nodes 1 = Some fl"
    using deliver_links(2) [of demo_flood_env secs now 1 1 "new_message 1 UsEast1 (Fin 0) demo_flooded" demo_relays] del
    by (auto simp: demo_packet_def demo_relays_of)
  ultimately show ?thesis by blast
qed

theorem flood_packets_ok_witness:
  "\<exists>s :: (unit, unit) flood_net. net_reach demo_flood_env s \<and> demo_forward \<in> set (fn_flight s)
     \<and> (\<exists>fl. map_of (fn_nodes s) 1 = Some fl \<and> demo_flooded \<in> set (fl_order_book_orders fl))"
proof -
  obtain nodes where s: "net_reach demo_flood_env \<lparr>fn_nodes = nodes, fn_flight = [demo_forward], fn_submitted = [demo_flooded]\<rparr>"
    using demo_net_reach by blast
  from flood_packets_ok [OF s, of 2 1 "snd (snd demo_forward)"]
  have "\<exists>fl. map_of nodes 1 = Some fl \<and> demo_flooded \<in> set (fl_order_book_orders fl)"
    by (simp add: demo_forward_def new_message_def)
  with s show ?thesis
    by (intro exI [of _ "\<lparr>fn_nodes = nodes, fn_flight = [demo_forward], fn_submitted = [demo_flooded]\<rparr>"]) simp
qed

theorem relay_takes_orders_once_witness:
  "\<exists>(s :: (unit, unit) flood_net) fl. net_reach demo_flood_env s \<and> map_of (fn_nodes s) 1 = Some fl
     \<and> distinct (fl_order_book_orders fl)"
proof -
  obtain nodes fl where s: "net_reach demo_flood_env \<lparr>fn_nodes = nodes, fn_flight = [demo_forward], fn_submitted = [demo_flooded]\<rparr>"
    and fl: "map_of nodes 1 = Some fl" using demo_net_reach by blast
  have "distinct (fl_order_book_orders fl)" using relay_takes_orders_once [OF s, of 1 fl] fl by simp
  then show ?thesis using s fl by (intro exI conjI) (assumption, simp_all)
qed

section \<open>Packets out of time\<close>

text \<open>A packet that is early or late is not taken, but its order's nonce is used up: no later copy of the
  order is taken, however punctual.\<close>

lemma untimely_packet_blocks_order:
  assumes "relayable E secs (f_order msg) fl" "\<not> on_time (fl_schedule fl) now msg" "f_order msg' = f_order msg"
  shows "f_order msg \<notin> set (fl_order_book_orders fl) \<Longrightarrow>
      f_order msg \<notin> set (fl_order_book_orders (fst (on_receive E secs msg sender now fl)))"
    and "\<not> accepts E secs' now' msg' (fst (on_receive E secs msg sender now fl))"
  using assms by (simp_all add: on_receive_book accepts_def relayable_def fresh_nonce_def on_receive_nonces)

end
