(* ===== verification/Transport.thy ===== *)
theory Transport
  imports Orderlog Flood
begin

text \<open>
  Packets of the mesh: the authenticated encryption of the \<^verbatim>\<open>security\<close> crate and the UDP transport of the
  \<^verbatim>\<open>protocol\<close> crate (\<^verbatim>\<open>transport.rs\<close>) with its messages, peer table and heartbeat signatures.

  ChaCha20-Poly1305, Ed25519 and \<^verbatim>\<open>bincode\<close> are arguments. The socket is outside: \<open>send\<close> yields the
  datagram handed to it, \<open>recv\<close> takes one it delivered. A socket address is any type.
\<close>

section \<open>Packet encryption\<close>

text \<open>ChaCha20-Poly1305 on key, nonce and text; \<open>None\<close> is an error of the cipher.\<close>

record aead =
  aead_encrypt :: "bytes32 \<Rightarrow> bytes \<Rightarrow> bytes \<Rightarrow> bytes option"
  aead_decrypt :: "bytes32 \<Rightarrow> bytes \<Rightarrow> bytes \<Rightarrow> bytes option"

definition aead_laws :: "aead \<Rightarrow> bool" where
  "aead_laws A \<longleftrightarrow> (\<forall>key nonce text ct. aead_encrypt A key nonce text = Some ct \<longrightarrow> aead_decrypt A key nonce ct = Some text)"

text \<open>\<open>nonce\<close> stands for the twelve random bytes drawn for the packet.\<close>

definition encrypt_packet :: "aead \<Rightarrow> bytes \<Rightarrow> bytes32 \<Rightarrow> bytes \<Rightarrow> string + bytes" where
  "encrypt_packet A nonce key plaintext = (case aead_encrypt A key nonce plaintext of
     None \<Rightarrow> Inl ''aead::Error'' | Some ciphertext \<Rightarrow> Inr (nonce @ ciphertext))"

definition decrypt_packet :: "aead \<Rightarrow> bytes32 \<Rightarrow> bytes \<Rightarrow> string + bytes" where
  "decrypt_packet A key packet =
     (if length packet < 12 then Inl ''Invalid packet length: missing nonce''
      else case aead_decrypt A key (take 12 packet) (drop 12 packet) of
             None \<Rightarrow> Inl ''aead::Error'' | Some plaintext \<Rightarrow> Inr plaintext)"

lemma decrypt_encrypt:
  assumes "aead_laws A" "length nonce = 12" "encrypt_packet A nonce key text = Inr packet"
  shows "decrypt_packet A key packet = Inr text"
  using assms by (auto simp: encrypt_packet_def decrypt_packet_def aead_laws_def split: option.splits)

section \<open>Messages\<close>

datatype wire_message =
    Flood flood_message
  | Heartbeat node_id f64
  | Ack node_id
  | EncryptedFlood bytes
  | SignedHeartbeat node_id f64 bytes32 bytes
  | EchoRequest "bytes32 list"
  | EchoResponse "bytes32 list" "bytes32 list"
  | SettlementProof trade_batch bytes
  | LogEntryBroadcast "order_receipt log_entry"
  | MisconductReport node_id node_id string f64
  | Ping u64 f64
  | Pong u64
  | HopWitness bytes32 node_id f64
  | BatchProposal bytes32 bytes32 node_id f64

text \<open>The first byte of a datagram. An \<^verbatim>\<open>Ack\<close> is sent with the byte of a heartbeat.\<close>

fun msg_type :: "wire_message \<Rightarrow> u8" where
  "msg_type (Flood _) = 0x01"
| "msg_type (EncryptedFlood _) = 0x04"
| "msg_type (Heartbeat _ _) = 0x02"
| "msg_type (Ack _) = 0x02"
| "msg_type (SignedHeartbeat _ _ _ _) = 0x05"
| "msg_type (EchoRequest _) = 0x06"
| "msg_type (EchoResponse _ _) = 0x07"
| "msg_type (SettlementProof _ _) = 0x08"
| "msg_type (LogEntryBroadcast _) = 0x09"
| "msg_type (MisconductReport _ _ _ _) = 0x0A"
| "msg_type (Ping _ _) = 0x0B"
| "msg_type (Pong _) = 0x0C"
| "msg_type (HopWitness _ _ _) = 0x0D"
| "msg_type (BatchProposal _ _ _ _) = 0x0E"

section \<open>The transport\<close>

record codec =
  bc_serialize :: "wire_message \<Rightarrow> bytes option"
  bc_deserialize :: "bytes \<Rightarrow> wire_message option"

text \<open>What \<^verbatim>\<open>bincode\<close> documents: an enum starts with its variant index, and reads back as written.\<close>

definition codec_laws :: "codec \<Rightarrow> bool" where
  "codec_laws C \<longleftrightarrow> (\<forall>msg bs. bc_serialize C msg = Some bs \<longrightarrow> bs \<noteq> [] \<and> bc_deserialize C bs = Some msg)"

record 'a udp_transport =
  tr_peer_addrs :: "(node_id, 'a) hash_map"
  tr_peer_keys :: "(node_id, bytes32) hash_map"
  tr_private_key :: "bytes32 option"
  tr_public_key :: bytes32

definition bind_transport :: "(bytes32 \<times> bytes32) option \<Rightarrow> 'a udp_transport" where
  "bind_transport node_key =
     (let (private_seed, public_key) = (case node_key of Some k \<Rightarrow> k | None \<Rightarrow> (zero32, zero32))
      in \<lparr>tr_peer_addrs = [], tr_peer_keys = [],
          tr_private_key = (if private_seed = zero32 then None else Some private_seed), tr_public_key = public_key\<rparr>)"

definition register_peer :: "node_id \<Rightarrow> 'a \<Rightarrow> bytes32 \<Rightarrow> 'a udp_transport \<Rightarrow> 'a udp_transport" where
  "register_peer node addr pubkey self =
     self\<lparr>tr_peer_addrs := AList.update node addr (tr_peer_addrs self),
          tr_peer_keys := AList.update node pubkey (tr_peer_keys self)\<rparr>"

definition peer_pubkey :: "node_id \<Rightarrow> 'a udp_transport \<Rightarrow> bytes32 option" where
  "peer_pubkey node self = (case map_of (tr_peer_keys self) node of
     Some key \<Rightarrow> (if key \<noteq> zero32 then Some key else None) | None \<Rightarrow> None)"

text \<open>\<^verbatim>\<open>f64::to_be_bytes\<close>: sign, biased exponent and fraction of the binary64 format.\<close>

fun f64_bits :: "f64 \<Rightarrow> u64" where
  "f64_bits (Fin a) =
     (let m = \<lfloor>\<bar>a\<bar> / 2 powi ulp_exp a\<rfloor>;
          magnitude = (if m < 2 ^ 52 then m else m - 2 ^ 52 + (ulp_exp a + 1075) * 2 ^ 52)
      in word_of_int (if a < 0 then magnitude + 2 ^ 63 else magnitude))"
| "f64_bits PInf = 0x7FF0000000000000"
| "f64_bits NInf = 0xFFF0000000000000"
| "f64_bits NaN = 0x7FF8000000000000"

definition heartbeat_message :: "node_id \<Rightarrow> f64 \<Rightarrow> bytes" where
  "heartbeat_message node timestamp = be_bytes node @ be_bytes (f64_bits timestamp)"

definition sign_heartbeat :: "ed25519 \<Rightarrow> node_id \<Rightarrow> f64 \<Rightarrow> 'a udp_transport \<Rightarrow> bytes" where
  "sign_heartbeat ed node timestamp self = (case tr_private_key self of
     Some seed \<Rightarrow> sk_sign ed seed (heartbeat_message node timestamp) | None \<Rightarrow> [])"

definition send :: "codec \<Rightarrow> node_id \<Rightarrow> wire_message \<Rightarrow> 'a udp_transport \<Rightarrow> string + ('a \<times> bytes)" where
  "send C node msg self = (case map_of (tr_peer_addrs self) node of
     None \<Rightarrow> Inl ''Unknown peer''
   | Some addr \<Rightarrow>
       (case (case msg of EncryptedFlood data \<Rightarrow> Some data | _ \<Rightarrow> bc_serialize C msg) of
          None \<Rightarrow> Inl ''Serialize''
        | Some payload \<Rightarrow> Inr (addr, msg_type msg # payload)))"

definition verify_heartbeat_sig :: "ed25519 \<Rightarrow> node_id \<Rightarrow> f64 \<Rightarrow> bytes32 \<Rightarrow> bytes \<Rightarrow> bool" where
  "verify_heartbeat_sig ed node timestamp pubkey signature =
     (if \<not> vk_from_bytes_ok ed pubkey then False
      else if \<not> sig_from_slice_ok ed signature then False
      else vk_verify ed pubkey (heartbeat_message node timestamp) signature)"

definition resolve_sender :: "'a \<Rightarrow> 'a udp_transport \<Rightarrow> node_id" where
  "resolve_sender addr self = (case filter (\<lambda>(_, peer_addr). peer_addr = addr) (tr_peer_addrs self) of
     [] \<Rightarrow> - 1 | (node, _) # _ \<Rightarrow> node)"

text \<open>The type bytes whose payload is deserialized.\<close>

definition PLAIN_TYPES :: "u8 set" where
  "PLAIN_TYPES = {0x05, 0x02, 0x01, 0x03, 0x06, 0x07, 0x08, 0x09, 0x0A, 0x0B, 0x0C, 0x0D, 0x0E}"

text \<open>Only a signed heartbeat is checked against the pinned keys.\<close>

definition check_sender :: "ed25519 \<Rightarrow> wire_message \<Rightarrow> 'a udp_transport \<Rightarrow> string + unit" where
  "check_sender ed msg self = (case msg of
     SignedHeartbeat hb_id timestamp node_public_key signature \<Rightarrow>
       (case map_of (tr_peer_keys self) hb_id of
          None \<Rightarrow> Inl ''Unknown peer for heartbeat''
        | Some pinned_key \<Rightarrow>
            if pinned_key \<noteq> node_public_key then Inl ''Heartbeat public key does not match pinned peer key''
            else if \<not> verify_heartbeat_sig ed hb_id timestamp pinned_key signature then Inl ''Invalid heartbeat signature''
            else Inr ())
   | _ \<Rightarrow> Inr ())"

definition recv :: "ed25519 \<Rightarrow> codec \<Rightarrow> 'a \<Rightarrow> bytes \<Rightarrow> 'a udp_transport \<Rightarrow> string + (node_id \<times> wire_message)" where
  "recv ed C addr buf self =
     (if length buf < 2 then Inl ''Packet too short''
      else let ty = hd buf; payload = tl buf;
               msg = (if ty = 0x04 then Inr (EncryptedFlood payload)
                      else if ty \<in> PLAIN_TYPES
                      then (case bc_deserialize C payload of Some m \<Rightarrow> Inr m | None \<Rightarrow> Inl ''Deserialize'')
                      else Inl ''Unknown message type'')
           in case msg of
                Inl e \<Rightarrow> Inl e
              | Inr m \<Rightarrow> (case check_sender ed m self of Inl e \<Rightarrow> Inl e | Inr _ \<Rightarrow> Inr (resolve_sender addr self, m)))"

section \<open>Datagrams\<close>

lemma msg_type_known: "msg_type msg \<noteq> 4 \<Longrightarrow> msg_type msg \<in> PLAIN_TYPES"
  by (cases msg) (simp_all add: PLAIN_TYPES_def)

lemma msg_type_encrypted: "msg_type msg = 4 \<longleftrightarrow> (\<exists>data. msg = EncryptedFlood data)"
  by (cases msg) simp_all

definition authentic :: "ed25519 \<Rightarrow> 'a udp_transport \<Rightarrow> wire_message \<Rightarrow> bool" where
  "authentic ed self msg = (case msg of
     SignedHeartbeat node timestamp pk signature \<Rightarrow>
       map_of (tr_peer_keys self) node = Some pk \<and> verify_heartbeat_sig ed node timestamp pk signature
   | _ \<Rightarrow> True)"

text \<open>What a datagram carries, before heartbeats are checked.\<close>

definition contents :: "codec \<Rightarrow> bytes \<Rightarrow> wire_message option" where
  "contents C buf =
     (if length buf < 2 then None else if hd buf = 4 then Some (EncryptedFlood (tl buf))
      else if hd buf \<in> PLAIN_TYPES then bc_deserialize C (tl buf) else None)"

lemma check_sender_ok: "check_sender ed msg self = Inr u \<longleftrightarrow> authentic ed self msg"
  by (cases msg) (auto simp: check_sender_def authentic_def split: option.splits)

lemma recv_contents:
  "recv ed C addr buf self = Inr (node, msg) \<longleftrightarrow>
     contents C buf = Some msg \<and> authentic ed self msg \<and> node = resolve_sender addr self"
proof -
  have "recv ed C addr buf self = Inr (node, msg) \<longleftrightarrow>
      (\<exists>m. contents C buf = Some m \<and> check_sender ed m self = Inr () \<and> (node, msg) = (resolve_sender addr self, m))"
    by (cases "bc_deserialize C (tl buf)") (auto simp: recv_def contents_def Let_def split: sum.splits)
  then show ?thesis unfolding check_sender_ok by auto
qed

lemma send_contents:
  assumes "codec_laws C" "send C node msg self = Inr (addr, buf)" "msg \<noteq> EncryptedFlood []"
  shows "contents C buf = Some msg" "map_of (tr_peer_addrs self) node = Some addr"
proof -
  let ?payload = "case msg of EncryptedFlood data \<Rightarrow> Some data | _ \<Rightarrow> bc_serialize C msg"
  obtain payload where p: "?payload = Some payload" "buf = msg_type msg # payload" "map_of (tr_peer_addrs self) node = Some addr"
    using assms(2) by (auto simp: send_def split: option.splits)
  show "map_of (tr_peer_addrs self) node = Some addr" by fact
  show "contents C buf = Some msg"
  proof (cases "msg_type msg = 4")
    case True
    then show ?thesis using p assms(3) by (auto simp: msg_type_encrypted contents_def neq_Nil_conv)
  next
    case False
    then have "bc_serialize C msg = Some payload" using p(1) by (cases msg) simp_all
    then have "payload \<noteq> []" "bc_deserialize C payload = Some msg" using assms(1) unfolding codec_laws_def by blast+
    then show ?thesis using p(2) False msg_type_known [OF False] by (cases payload) (simp_all add: contents_def)
  qed
qed

section \<open>Properties\<close>

text \<open>C31. What one node sends the other receives: a datagram the transport hands to the socket for a message is
  read by any receiver as that very message, from the peer registered under the source address; a
  signed heartbeat only when it is signed with the key pinned for the node it names.\<close>

theorem datagram_roundtrip:
  assumes "codec_laws C" "send C node msg tx = Inr (addr, buf)" "msg \<noteq> EncryptedFlood []"
  shows "recv ed C source buf rx = Inr (resolve_sender source rx, msg) \<longleftrightarrow>
     (\<forall>n ts pk sg. msg = SignedHeartbeat n ts pk sg \<longrightarrow>
        map_of (tr_peer_keys rx) n = Some pk \<and> verify_heartbeat_sig ed n ts pk sg)"
  using send_contents(1) [OF assms] by (cases msg) (simp_all add: recv_contents authentic_def)

text \<open>A codec that knows one ping only.\<close>

definition ping_codec :: codec where
  "ping_codec = \<lparr>bc_serialize = (\<lambda>msg. if msg = Ping 5 (Fin 0) then Some [5] else None),
     bc_deserialize = (\<lambda>bs. if bs = [5] then Some (Ping 5 (Fin 0)) else None)\<rparr>"

lemma ping_codec_laws: "codec_laws ping_codec"
  by (simp add: codec_laws_def ping_codec_def)

theorem datagram_roundtrip_witness:
  "\<exists>buf. send ping_codec 2 (Ping 5 (Fin 0)) (register_peer 2 ''b'' zero32 (bind_transport None)) = Inr (''b'', buf)
     \<and> recv demo_ed25519 ping_codec ''a'' buf (register_peer 1 ''a'' zero32 (bind_transport None)) = Inr (1, Ping 5 (Fin 0))"
proof -
  let ?tx = "register_peer 2 ''b'' zero32 (bind_transport None)" and ?rx = "register_peer 1 ''a'' zero32 (bind_transport None)"
  have sent: "send ping_codec 2 (Ping 5 (Fin 0)) ?tx = Inr (''b'', [11, 5])"
    by (simp add: send_def register_peer_def bind_transport_def ping_codec_def)
  moreover have "resolve_sender ''a'' ?rx = 1" by (simp add: resolve_sender_def register_peer_def bind_transport_def)
  ultimately show ?thesis using datagram_roundtrip [OF ping_codec_laws sent, of demo_ed25519 "''a''" ?rx] by simp
qed

end
