(* ===== verification/Mesh.thy ===== *)
theory Mesh
  imports Reputation Transport
begin

text \<open>
  The mesh node of the \<^verbatim>\<open>protocol\<close> crate (\<^verbatim>\<open>node.rs\<close>): its monitors for censorship and slow hops, the quorum on
  reported misconduct, and \<^verbatim>\<open>MeshNode\<close> with every branch of its event loop.

  \<open>route\<close> is the receiving task of \<^verbatim>\<open>run\<close>: what it puts on the internal channels for a message. \<open>handle\<close> is
  one turn of \<^verbatim>\<open>select!\<close>; its result lists, in order, the messages sent and the values put on the channels
  to other tasks. \<open>None\<close> is a panic. A channel that is full drops a value; that is not modelled. The code
  outside the crates is in \<open>mesh_env\<close>, the clock and random bytes one turn uses in \<open>mesh_clock\<close>.
\<close>

section \<open>Environment\<close>

record ('c, 'v, 'u, 'h, 'e) mesh_env =
  me_flood :: "('c, 'v) flood_env"
  me_codec :: codec
  me_aead :: aead
  me_ser_flood :: "flood_message \<Rightarrow> bytes option"
  me_de_flood :: "bytes \<Rightarrow> flood_message option"
  me_orders :: "('u, bytes32, unit) lru_ops"
  me_order_keys :: "'u \<Rightarrow> bytes32 list"
  me_verdicts :: "('h, bytes32, (node_id \<times> f64 \<times> bool) list) lru_ops"
  me_estimates :: "('e, bytes32, estimate list) lru_ops"
  me_sha :: sha256_fn
  me_sqrt :: sqrt_fn
  me_fmt :: "f64 \<Rightarrow> string"

text \<open>The wall clock in seconds, whole seconds and nanoseconds, and the nonces drawn for encryption.\<close>

record mesh_clock =
  mc_now :: f64
  mc_secs :: u64
  mc_nanos :: u128
  mc_nonce :: "nat \<Rightarrow> bytes"

section \<open>Censorship\<close>

definition CENSORSHIP_FLAG_THRESHOLD :: u32 where
  "CENSORSHIP_FLAG_THRESHOLD = 3"

definition CENSORSHIP_WINDOW_SECS :: u64 where
  "CENSORSHIP_WINDOW_SECS = 60"

definition RECENT_ORDER_CACHE_SIZE :: nat where
  "RECENT_ORDER_CACHE_SIZE = 1000"

record 'u censorship_monitor =
  recent_orders :: 'u
  peer_flags :: "(node_id, u64 list) hash_map"
  flag_threshold :: u32
  window_secs :: u64

definition new_censorship :: "('u, bytes32, unit) lru_ops \<Rightarrow> 'u censorship_monitor" where
  "new_censorship L = \<lparr>recent_orders = lru_new L RECENT_ORDER_CACHE_SIZE, peer_flags = [],
     flag_threshold = CENSORSHIP_FLAG_THRESHOLD, window_secs = CENSORSHIP_WINDOW_SECS\<rparr>"

definition track_order :: "('u, bytes32, unit) lru_ops \<Rightarrow> bytes32 \<Rightarrow> 'u censorship_monitor \<Rightarrow> 'u censorship_monitor" where
  "track_order L order_id self = self\<lparr>recent_orders := lru_put L order_id () (recent_orders self)\<rparr>"

definition flag_peer :: "node_id \<Rightarrow> u64 \<Rightarrow> 'u censorship_monitor \<Rightarrow> 'u censorship_monitor \<times> bool" where
  "flag_peer peer now_secs self =
     (let flags = (case map_of (peer_flags self) peer of Some f \<Rightarrow> f | None \<Rightarrow> []) @ [now_secs];
          flags = dropWhile (\<lambda>t. window_secs self < now_secs - t) flags
      in (self\<lparr>peer_flags := AList.update peer flags (peer_flags self)\<rparr>,
          flag_threshold self \<le> of_nat (length flags)))"

definition pick_random_order :: "('u \<Rightarrow> bytes32 list) \<Rightarrow> u128 \<Rightarrow> 'u censorship_monitor \<Rightarrow> bytes32 option" where
  "pick_random_order iter seed self =
     (let keys = iter (recent_orders self)
      in if keys = [] then None else Some (keys ! (unat (ucast seed :: usize) mod length keys)))"

definition reported_missing :: "u64 \<Rightarrow> node_id \<Rightarrow> 'u censorship_monitor \<Rightarrow> 'u censorship_monitor \<times> bool" where
  "reported_missing now peer self = flag_peer peer now self"

section \<open>Hop latency\<close>

record 'h hop_latency_monitor =
  pending_floods :: "(bytes32 \<times> node_id, f64) hash_map"
  pending_witnesses :: "(bytes32 \<times> node_id, f64) hash_map"
  verdicts :: 'h

definition new_hop_latency :: "('h, bytes32, (node_id \<times> f64 \<times> bool) list) lru_ops \<Rightarrow> 'h hop_latency_monitor" where
  "new_hop_latency L = \<lparr>pending_floods = [], pending_witnesses = [], verdicts = lru_new L 10000\<rparr>"

definition try_match :: "bytes32 \<Rightarrow> node_id \<Rightarrow> 'h hop_latency_monitor \<Rightarrow> 'h hop_latency_monitor \<times> (node_id \<times> f64) option" where
  "try_match order_id hop_node self =
     (case map_of (pending_floods self) (order_id, hop_node) of
        None \<Rightarrow> (self, None)
      | Some recv_time \<Rightarrow>
          (case map_of (pending_witnesses self) (order_id, hop_node) of
             None \<Rightarrow> (self, None)
           | Some forwarded_at \<Rightarrow>
               (self\<lparr>pending_floods := AList.delete (order_id, hop_node) (pending_floods self),
                     pending_witnesses := AList.delete (order_id, hop_node) (pending_witnesses self)\<rparr>,
                Some (hop_node, fsub recv_time forwarded_at))))"

definition on_flood_received ::
    "bytes32 \<Rightarrow> node_id \<Rightarrow> f64 \<Rightarrow> 'h hop_latency_monitor \<Rightarrow> 'h hop_latency_monitor \<times> (node_id \<times> f64) option" where
  "on_flood_received order_id from recv_time self =
     try_match order_id from (self\<lparr>pending_floods := AList.update (order_id, from) recv_time (pending_floods self)\<rparr>)"

definition on_witness_received ::
    "bytes32 \<Rightarrow> node_id \<Rightarrow> f64 \<Rightarrow> 'h hop_latency_monitor \<Rightarrow> 'h hop_latency_monitor \<times> (node_id \<times> f64) option" where
  "on_witness_received order_id hop_node forwarded_at self =
     try_match order_id hop_node
       (self\<lparr>pending_witnesses := AList.update (order_id, hop_node) forwarded_at (pending_witnesses self)\<rparr>)"

definition record_verdict ::
    "('h, bytes32, (node_id \<times> f64 \<times> bool) list) lru_ops \<Rightarrow> bytes32 \<Rightarrow> node_id \<Rightarrow> f64 \<Rightarrow> bool \<Rightarrow>
     'h hop_latency_monitor \<Rightarrow> 'h hop_latency_monitor" where
  "record_verdict L order_id hop_node observed_ms anomalous self =
     (if lru_contains L order_id (verdicts self)
      then self\<lparr>verdicts := lru_update L order_id (\<lambda>v. v @ [(hop_node, observed_ms, anomalous)]) (verdicts self)\<rparr>
      else self\<lparr>verdicts := lru_put L order_id [(hop_node, observed_ms, anomalous)] (verdicts self)\<rparr>)"

definition has_corroborating_non_anomalous_hop ::
    "('h, bytes32, (node_id \<times> f64 \<times> bool) list) lru_ops \<Rightarrow> bytes32 \<Rightarrow> node_id \<Rightarrow>
     'h hop_latency_monitor \<Rightarrow> 'h hop_latency_monitor \<times> bool" where
  "has_corroborating_non_anomalous_hop L order_id hop_node self =
     (let (v, c) = lru_get L order_id (verdicts self)
      in (self\<lparr>verdicts := c\<rparr>,
          case v of None \<Rightarrow> False | Some v \<Rightarrow> list_ex (\<lambda>(h, _, anomalous). h \<noteq> hop_node \<and> \<not> anomalous) v))"

section \<open>The misconduct quorum\<close>

record chain_node_status =
  cs_active :: bool
  cs_stake :: u64

record misconduct_quorum =
  accusations :: "(node_id, (node_id, f64 \<times> f64) hash_map) hash_map"
  mq_min_reporters :: nat
  mq_stake_threshold :: f64
  mq_window_secs :: f64

definition new_misconduct_quorum :: "nat \<Rightarrow> f64 \<Rightarrow> f64 \<Rightarrow> misconduct_quorum" where
  "new_misconduct_quorum min_reporters stake_threshold window =
     \<lparr>accusations = [], mq_min_reporters = min_reporters, mq_stake_threshold = stake_threshold, mq_window_secs = window\<rparr>"

definition record_accusation ::
    "node_id \<Rightarrow> node_id \<Rightarrow> f64 \<Rightarrow> f64 \<Rightarrow> misconduct_quorum \<Rightarrow> misconduct_quorum \<times> bool \<times> nat \<times> f64" where
  "record_accusation subject reporter weight now self =
     (let reporters = (case map_of (accusations self) subject of Some rs \<Rightarrow> rs | None \<Rightarrow> []);
          reporters = hm_retain (\<lambda>_ (_, last_seen). flt (fsub now last_seen) (mq_window_secs self)) reporters;
          reporters = AList.update reporter (weight, now) reporters;
          n = length reporters;
          total_weight = f64_sum (map (\<lambda>(_, w, _). w) reporters);
          quorum_met = (mq_min_reporters self \<le> n \<and> fle (mq_stake_threshold self) total_weight)
      in (self\<lparr>accusations := AList.update subject reporters (accusations self)\<rparr>, quorum_met, n, total_weight))"

section \<open>The node\<close>

record misconduct_event =
  ev_from :: node_id
  ev_reporter :: node_id
  ev_subject :: node_id
  ev_reason :: string
  ev_timestamp :: f64

record ('a, 'c, 'v, 'u, 'h, 'e) mesh_node =
  n_node_id :: node_id
  n_region :: region
  n_flood :: "('c, 'v) deterministic_flood"
  n_heartbeat :: heartbeat_tracker
  n_heartbeat_interval_ms :: f64
  n_max_missed_heartbeats :: u32
  n_transport :: "'a udp_transport"
  n_peer_addrs :: "(node_id, 'a) hash_map"
  n_mesh_key :: bytes32
  n_censorship :: "'u censorship_monitor"
  n_latency_stats :: peer_latency_stats
  n_hop_latency :: "'h hop_latency_monitor"
  n_origin_time :: "'e origin_time_estimator"
  n_misconduct_quorum :: misconduct_quorum
  n_batch_quorum :: order_batch_quorum
  n_chain_status :: "(bytes32, chain_node_status) hash_map"
  n_require_staked_reporters :: bool
  n_pending_pings :: "(u64, f64) hash_map"
  n_next_ping_nonce :: u64
  n_artificial_forward_delay_ms :: u64
  n_reputation :: reputation_engine
  n_witnessed_orders :: 'u

text \<open>What a turn sends to peers and puts on the channels of other tasks.\<close>

datatype mesh_effect =
    Sent node_id wire_message
  | FloodObserved node_id flood_message
  | MisconductConfirmed node_id
  | BatchConfirmed bytes32 bytes32
  | MisconductSeen misconduct_event
  | SettlementProofSeen node_id trade_batch bytes
  | LogEntrySeen node_id "order_receipt log_entry"
  | OriginTimeReply "f64 option"
  | CompareReply "ordering_decision option"
  | WitnessReply "(node_id \<times> f64) option"

record 'a mesh_config =
  cf_node_id :: node_id
  cf_region :: region
  cf_peers :: "(node_id \<times> 'a \<times> bytes32) list"
  cf_node_key :: "(bytes32 \<times> bytes32) option"
  cf_mesh_encryption_key :: "bytes32 option"
  cf_heartbeat_interval_ms :: f64
  cf_max_missed_heartbeats :: u32
  cf_schedule :: "flood_schedule option"
  cf_artificial_forward_delay_ms :: "u64 option"
  cf_require_staked_reporters :: bool
  cf_misconduct_stake_threshold :: u64

definition add_peer ::
    "node_id \<Rightarrow> node_id \<times> 'a \<times> bytes32 \<Rightarrow> 'a udp_transport \<times> (node_id, 'a) hash_map \<times> routing_table \<Rightarrow>
     'a udp_transport \<times> (node_id, 'a) hash_map \<times> routing_table" where
  "add_peer self_id cfg st = (case (cfg, st) of ((node, addr, pubkey), (transport, peer_addrs, routing)) \<Rightarrow>
     let transport = register_peer node addr pubkey transport;
         peer_addrs = AList.update node addr peer_addrs;
         p = \<lparr>pe_id = node, pe_latency_ms = lit 1, pe_last_heartbeat = lit 0, pe_health_score = lit 1\<rparr>;
         routing = routing\<lparr>zone_peers := zone_peers routing @ [p]\<rparr>;
         routing = (if node < self_id then routing\<lparr>upstream_peers := upstream_peers routing @ [p]\<rparr> else routing);
         routing = routing\<lparr>downstream_peers := downstream_peers routing @ [p]\<rparr>
     in (transport, peer_addrs, routing))"

definition new_mesh_node ::
    "('c, 'v, 'u, 'h, 'e) mesh_env \<Rightarrow> 'a mesh_config \<Rightarrow> ('a, 'c, 'v, 'u, 'h, 'e) mesh_node" where
  "new_mesh_node E cfg =
     (let node_key = (case cf_node_key cfg of Some k \<Rightarrow> k | None \<Rightarrow> (zero32, zero32));
          (transport, peer_addrs, routing) =
            fold (add_peer (cf_node_id cfg)) (cf_peers cfg)
              (bind_transport (Some node_key), [], \<lparr>upstream_peers = [], downstream_peers = [], zone_peers = []\<rparr>)
      in \<lparr>n_node_id = cf_node_id cfg, n_region = cf_region cfg,
          n_flood = new_flood (me_flood E) (cf_node_id cfg) (cf_region cfg) routing
            (case cf_schedule cfg of Some s \<Rightarrow> s | None \<Rightarrow> default_schedule),
          n_heartbeat = new_tracker (cf_heartbeat_interval_ms cfg) (cf_max_missed_heartbeats cfg),
          n_heartbeat_interval_ms = cf_heartbeat_interval_ms cfg, n_max_missed_heartbeats = cf_max_missed_heartbeats cfg,
          n_transport = transport, n_peer_addrs = peer_addrs,
          n_mesh_key = (case cf_mesh_encryption_key cfg of Some k \<Rightarrow> k | None \<Rightarrow> zero32),
          n_censorship = new_censorship (me_orders E), n_latency_stats = new_latency_stats,
          n_hop_latency = new_hop_latency (me_verdicts E), n_origin_time = new_estimator (me_estimates E),
          n_misconduct_quorum = new_misconduct_quorum 2
            (if cf_require_staked_reporters cfg then f64_of_word (cf_misconduct_stake_threshold cfg) else lit 0) (lit 60),
          n_batch_quorum = new_batch_quorum 2 (lit 60), n_chain_status = [],
          n_require_staked_reporters = cf_require_staked_reporters cfg, n_pending_pings = [], n_next_ping_nonce = 0,
          n_artificial_forward_delay_ms = (case cf_artificial_forward_delay_ms cfg of Some d \<Rightarrow> d | None \<Rightarrow> 0),
          n_reputation = new_reputation_engine, n_witnessed_orders = lru_new (me_orders E) 10000\<rparr>)"

definition peer_ids :: "('a, 'c, 'v, 'u, 'h, 'e) mesh_node \<Rightarrow> node_id list" where
  "peer_ids self = map fst (n_peer_addrs self)"

definition reporter_pubkey :: "node_id \<Rightarrow> ('a, 'c, 'v, 'u, 'h, 'e) mesh_node \<Rightarrow> bytes32 option" where
  "reporter_pubkey reporter self =
     (if reporter = n_node_id self
      then let pk = tr_public_key (n_transport self) in if pk \<noteq> zero32 then Some pk else None
      else peer_pubkey reporter (n_transport self))"

definition reporter_weight :: "node_id \<Rightarrow> ('a, 'c, 'v, 'u, 'h, 'e) mesh_node \<Rightarrow> f64" where
  "reporter_weight reporter self =
     (if \<not> n_require_staked_reporters self then lit 1
      else case Option.bind (reporter_pubkey reporter self) (map_of (n_chain_status self)) of
             Some status \<Rightarrow> (if cs_active status then f64_of_word (cs_stake status) else lit 0)
           | None \<Rightarrow> lit 0)"

definition record_batch_proposal ::
    "bytes32 \<Rightarrow> node_id \<Rightarrow> bytes32 \<Rightarrow> f64 \<Rightarrow> ('a, 'c, 'v, 'u, 'h, 'e) mesh_node \<Rightarrow>
     ('a, 'c, 'v, 'u, 'h, 'e) mesh_node \<times> mesh_effect list" where
  "record_batch_proposal batch_key reporter proposed_hash now self =
     (case record_proposal batch_key reporter proposed_hash now (n_batch_quorum self) of
        (q, Some agreed_hash) \<Rightarrow> (self\<lparr>n_batch_quorum := q\<rparr>, [BatchConfirmed batch_key agreed_hash])
      | (q, None) \<Rightarrow> (self\<lparr>n_batch_quorum := q\<rparr>, []))"

definition propose_batch ::
    "('c, 'v, 'u, 'h, 'e) mesh_env \<Rightarrow> mesh_clock \<Rightarrow> bytes32 \<Rightarrow> bytes32 list \<Rightarrow> ('a, 'c, 'v, 'u, 'h, 'e) mesh_node \<Rightarrow>
     ('a, 'c, 'v, 'u, 'h, 'e) mesh_node \<times> mesh_effect list" where
  "propose_batch E clk batch_key resolved_order_ids self =
     (let proposed_hash = compute_proposal_hash (me_sha E) resolved_order_ids;
          sent = map (\<lambda>peer. Sent peer (BatchProposal batch_key proposed_hash (n_node_id self) (mc_now clk))) (peer_ids self);
          (self, out) = record_batch_proposal batch_key (n_node_id self) proposed_hash (mc_now clk) self
      in (self, sent @ out))"

definition apply_or_record_accusation ::
    "mesh_clock \<Rightarrow> node_id \<Rightarrow> node_id \<Rightarrow> string \<Rightarrow> f64 \<Rightarrow> ('a, 'c, 'v, 'u, 'h, 'e) mesh_node \<Rightarrow>
     ('a, 'c, 'v, 'u, 'h, 'e) mesh_node \<times> mesh_effect list" where
  "apply_or_record_accusation clk subject reporter reason now self =
     (let weight = reporter_weight reporter self
      in if fle weight (lit 0) then (self, [])
         else let (q, quorum_met, _, _) = record_accusation subject reporter weight now (n_misconduct_quorum self);
                  self = self\<lparr>n_misconduct_quorum := q\<rparr>
              in if quorum_met
                 then (self\<lparr>n_reputation := on_misconduct_reported subject reporter reason (mc_now clk) (n_reputation self)\<rparr>,
                       [MisconductConfirmed subject])
                 else (self, []))"

definition report_misconduct ::
    "mesh_clock \<Rightarrow> node_id \<Rightarrow> string \<Rightarrow> ('a, 'c, 'v, 'u, 'h, 'e) mesh_node \<Rightarrow>
     ('a, 'c, 'v, 'u, 'h, 'e) mesh_node \<times> mesh_effect list" where
  "report_misconduct clk subject reason self =
     (let sent = map (\<lambda>peer. Sent peer (MisconductReport (n_node_id self) subject reason (mc_now clk))) (peer_ids self);
          (self, out) = apply_or_record_accusation clk subject (n_node_id self) reason (mc_now clk) self
      in (self, sent @ out))"

definition delay_reason :: "(f64 \<Rightarrow> string) \<Rightarrow> f64 \<Rightarrow> f64 \<Rightarrow> bool \<Rightarrow> string" where
  "delay_reason fmt observed_ms bound corroborated =
     ''order propagation delay: '' @ fmt observed_ms @ ''ms observed vs '' @ fmt bound @ ''ms baseline bound (''
     @ (if corroborated
        then ''corroborated: another independent path for the same order showed normal timing''
        else ''uncorroborated: no other independent path observed for this order yet'') @ '')''"

definition handle_hop_latency_result ::
    "('c, 'v, 'u, 'h, 'e) mesh_env \<Rightarrow> mesh_clock \<Rightarrow> bytes32 \<Rightarrow> node_id \<Rightarrow> f64 \<Rightarrow> ('a, 'c, 'v, 'u, 'h, 'e) mesh_node \<Rightarrow>
     ('a, 'c, 'v, 'u, 'h, 'e) mesh_node \<times> mesh_effect list" where
  "handle_hop_latency_result E clk order_id hop_node observed_ms self =
     (let anomalous = is_anomalous (me_sqrt E) hop_node observed_ms (n_latency_stats self);
          self = self\<lparr>n_hop_latency := record_verdict (me_verdicts E) order_id hop_node observed_ms anomalous (n_hop_latency self)\<rparr>;
          self = (if is_implausibly_fast (me_sqrt E) hop_node observed_ms (n_latency_stats self)
                  then self\<lparr>n_origin_time := mark_anomalous (me_estimates E) order_id hop_node (n_origin_time self)\<rparr> else self)
      in if \<not> anomalous then (self, [])
         else let self = self\<lparr>n_origin_time := mark_anomalous (me_estimates E) order_id hop_node (n_origin_time self)\<rparr>;
                  bound = (case expected_one_way_bound_ms (me_sqrt E) hop_node (n_latency_stats self) of Some b \<Rightarrow> b | None \<Rightarrow> lit 0);
                  (hl, corroborated) = has_corroborating_non_anomalous_hop (me_verdicts E) order_id hop_node (n_hop_latency self);
                  self = self\<lparr>n_hop_latency := hl\<rparr>
              in report_misconduct clk hop_node (delay_reason (me_fmt E) observed_ms bound corroborated) self)"

section \<open>The receiving task\<close>

text \<open>The values on the internal channels and the timers of \<^verbatim>\<open>run\<close>, one constructor per branch of
  \<^verbatim>\<open>select!\<close>.\<close>

datatype mesh_event =
    FloodIn node_id flood_message
  | PongIn node_id u64 f64
  | MisconductIn misconduct_event
  | BatchProposalIn bytes32 bytes32 node_id f64
  | ProposeBatch bytes32 "bytes32 list"
  | ChainStatusIn "(bytes32, chain_node_status) hash_map"
  | OriginTimeQuery bytes32
  | CompareQuery bytes32 bytes32
  | EarliestWitnessQuery bytes32
  | HopWitnessIn node_id bytes32 node_id f64
  | EchoIn node_id "bytes32 list"
  | EchoTick
  | PingTick
  | HeartbeatTick

definition now_ms :: "mesh_clock \<Rightarrow> f64" where
  "now_ms clk = fmul (mc_now clk) (lit 1000)"

definition route ::
    "('c, 'v, 'u, 'h, 'e) mesh_env \<Rightarrow> mesh_clock \<Rightarrow> bytes32 \<Rightarrow> node_id \<Rightarrow> wire_message \<Rightarrow> mesh_event list \<times> mesh_effect list" where
  "route E clk mesh_key from msg = (case msg of
     Flood fm \<Rightarrow> ([FloodIn from fm], [])
   | EncryptedFlood encrypted \<Rightarrow>
       if mesh_key = zero32 then ([], [])
       else (case decrypt_packet (me_aead E) mesh_key encrypted of
               Inr decrypted \<Rightarrow> (case me_de_flood E decrypted of Some fm \<Rightarrow> ([FloodIn from fm], []) | None \<Rightarrow> ([], []))
             | Inl _ \<Rightarrow> ([], []))
   | EchoRequest order_ids \<Rightarrow> ([EchoIn from order_ids], [])
   | EchoResponse present _ \<Rightarrow> if present = [] then ([EchoIn from []], []) else ([], [])
   | SignedHeartbeat _ _ _ _ \<Rightarrow> ([], [])
   | Heartbeat _ _ \<Rightarrow> ([], [])
   | Ack _ \<Rightarrow> ([], [])
   | SettlementProof batch proof \<Rightarrow> ([], [SettlementProofSeen from batch proof])
   | LogEntryBroadcast entry \<Rightarrow> ([], [LogEntrySeen from entry])
   | MisconductReport reporter subject reason timestamp \<Rightarrow>
       let event = \<lparr>ev_from = from, ev_reporter = reporter, ev_subject = subject, ev_reason = reason, ev_timestamp = timestamp\<rparr>
       in ([MisconductIn event], [MisconductSeen event])
   | Ping nonce _ \<Rightarrow> ([], [Sent from (Pong nonce)])
   | Pong nonce \<Rightarrow> ([PongIn from nonce (now_ms clk)], [])
   | HopWitness order_id hop_node forwarded_at \<Rightarrow> ([HopWitnessIn from order_id hop_node forwarded_at], [])
   | BatchProposal batch_key proposed_hash reporter timestamp \<Rightarrow> ([BatchProposalIn batch_key proposed_hash reporter timestamp], []))"

section \<open>The event loop\<close>

text \<open>A forwarded order, encrypted when there is a mesh key and encryption succeeds.\<close>

definition forward_packet ::
    "('c, 'v, 'u, 'h, 'e) mesh_env \<Rightarrow> bytes \<Rightarrow> bytes32 \<Rightarrow> flood_message \<Rightarrow> wire_message" where
  "forward_packet E nonce mesh_key fwd_msg =
     (if mesh_key \<noteq> zero32
      then let serialized = (case me_ser_flood E fwd_msg of Some b \<Rightarrow> b | None \<Rightarrow> [])
           in case encrypt_packet (me_aead E) nonce mesh_key serialized of
                Inr encrypted \<Rightarrow> EncryptedFlood encrypted | Inl _ \<Rightarrow> Flood fwd_msg
      else Flood fwd_msg)"

text \<open>The first half of the flood branch: an arrival is evidence of the order's time and of the latency of the
  last hop, whether or not the order is relayed.\<close>

definition note_arrival ::
    "('c, 'v, 'u, 'h, 'e) mesh_env \<Rightarrow> mesh_clock \<Rightarrow> node_id \<Rightarrow> flood_message \<Rightarrow> ('a, 'c, 'v, 'u, 'h, 'e) mesh_node \<Rightarrow>
     ('a, 'c, 'v, 'u, 'h, 'e) mesh_node \<times> mesh_effect list" where
  "note_arrival E clk from_node flood_msg self =
     (let now = now_ms clk;
          order_id = o_id (f_order flood_msg);
          self = (case mean_one_way_ms (me_sqrt E) from_node (n_latency_stats self) of
                    Some one_way_ms \<Rightarrow> self\<lparr>n_origin_time := record_estimate (me_estimates E) order_id from_node (fsub now one_way_ms) (n_origin_time self)\<rparr>
                  | None \<Rightarrow> self);
          observed = (if from_node \<noteq> n_node_id self then [FloodObserved from_node flood_msg] else []);
          witnesses = (if lru_contains (me_orders E) order_id (n_witnessed_orders self) then []
                       else map (\<lambda>p. Sent (pe_id p) (HopWitness order_id (n_node_id self) now))
                              (downstream_peers (fl_routing_table (n_flood self))));
          self = self\<lparr>n_witnessed_orders := lru_put (me_orders E) order_id () (n_witnessed_orders self)\<rparr>;
          (hl, matched) = on_flood_received order_id from_node now (n_hop_latency self);
          self = self\<lparr>n_hop_latency := hl\<rparr>;
          (self, reports) = (case matched of
             Some (hop_node, observed_ms) \<Rightarrow> handle_hop_latency_result E clk order_id hop_node observed_ms self
           | None \<Rightarrow> (self, []))
      in (self, observed @ witnesses @ reports))"

text \<open>The second half: relaying, with its reward or penalty for the sender.\<close>

definition relay_flood ::
    "('c, 'v, 'u, 'h, 'e) mesh_env \<Rightarrow> mesh_clock \<Rightarrow> node_id \<Rightarrow> flood_message \<Rightarrow> ('a, 'c, 'v, 'u, 'h, 'e) mesh_node \<Rightarrow>
     ('a, 'c, 'v, 'u, 'h, 'e) mesh_node \<times> mesh_effect list" where
  "relay_flood E clk from_node flood_msg self =
     (let (fl, result) = on_receive (me_flood E) (mc_secs clk) flood_msg from_node (now_ms clk) (n_flood self);
          self = self\<lparr>n_flood := fl\<rparr>
      in case result of
           Inr forwards \<Rightarrow>
             (self\<lparr>n_reputation := on_flood_relayed from_node (mc_now clk) (n_reputation self),
                   n_censorship := fold (\<lambda>(_, fwd_msg). track_order (me_orders E) (o_id (f_order fwd_msg))) forwards (n_censorship self)\<rparr>,
              map (\<lambda>(i, target, fwd_msg). Sent target (forward_packet E (mc_nonce clk i) (n_mesh_key self) fwd_msg)) (enumerate 0 forwards))
         | Inl DuplicatePacket \<Rightarrow> (self, [])
         | Inl _ \<Rightarrow> (self\<lparr>n_reputation := on_flood_dropped from_node (mc_now clk) (n_reputation self)\<rparr>, []))"

definition on_flood ::
    "('c, 'v, 'u, 'h, 'e) mesh_env \<Rightarrow> mesh_clock \<Rightarrow> node_id \<Rightarrow> flood_message \<Rightarrow> ('a, 'c, 'v, 'u, 'h, 'e) mesh_node \<Rightarrow>
     ('a, 'c, 'v, 'u, 'h, 'e) mesh_node \<times> mesh_effect list" where
  "on_flood E clk from_node flood_msg self =
     (let (self, noted) = note_arrival E clk from_node flood_msg self;
          (self, forwarded) = relay_flood E clk from_node flood_msg self
      in (self, noted @ forwarded))"

definition on_pong ::
    "node_id \<Rightarrow> u64 \<Rightarrow> f64 \<Rightarrow> ('a, 'c, 'v, 'u, 'h, 'e) mesh_node \<Rightarrow> ('a, 'c, 'v, 'u, 'h, 'e) mesh_node" where
  "on_pong from_peer nonce arrived_at self = (case map_of (n_pending_pings self) nonce of
     None \<Rightarrow> self
   | Some sent_at \<Rightarrow>
       self\<lparr>n_pending_pings := AList.delete nonce (n_pending_pings self),
            n_latency_stats := record_rtt from_peer (fsub arrived_at sent_at) (n_latency_stats self)\<rparr>)"

definition on_hop_witness ::
    "('c, 'v, 'u, 'h, 'e) mesh_env \<Rightarrow> mesh_clock \<Rightarrow> bytes32 \<Rightarrow> node_id \<Rightarrow> f64 \<Rightarrow> ('a, 'c, 'v, 'u, 'h, 'e) mesh_node \<Rightarrow>
     ('a, 'c, 'v, 'u, 'h, 'e) mesh_node \<times> mesh_effect list" where
  "on_hop_witness E clk order_id hop_node forwarded_at self =
     (let (hl, matched) = on_witness_received order_id hop_node forwarded_at (n_hop_latency self);
          self = self\<lparr>n_hop_latency := hl\<rparr>
      in case matched of
           Some (matched_hop, observed_ms) \<Rightarrow> handle_hop_latency_result E clk order_id matched_hop observed_ms self
         | None \<Rightarrow> (self, []))"

fun decimal :: "nat \<Rightarrow> string" where
  "decimal n = (if n < 10 then [char_of (48 + n)] else decimal (n div 10) @ [char_of (48 + n mod 10)])"

declare decimal.simps [simp del]

definition on_echo ::
    "('c, 'v, 'u, 'h, 'e) mesh_env \<Rightarrow> mesh_clock \<Rightarrow> node_id \<Rightarrow> bytes32 list \<Rightarrow> ('a, 'c, 'v, 'u, 'h, 'e) mesh_node \<Rightarrow>
     ('a, 'c, 'v, 'u, 'h, 'e) mesh_node \<times> mesh_effect list" where
  "on_echo E clk echo_from order_ids self =
     (let known = (\<lambda>i. lru_contains (fe_received (me_flood E)) i (fl_received_cache (n_flood self)));
          present = filter known order_ids;
          missing = filter (\<lambda>i. \<not> known i) order_ids;
          missing_count = length missing;
          answer = [Sent echo_from (EchoResponse present missing)]
      in if 0 < missing_count
         then let (mon, flagged) = reported_missing (mc_secs clk) echo_from (n_censorship self);
                  self = self\<lparr>n_censorship := mon\<rparr>
              in if flagged
                 then let self = self\<lparr>n_reputation := on_censorship_flag echo_from (mc_now clk) (n_reputation self)\<rparr>;
                          (self, reports) = report_misconduct clk echo_from
                            (''censorship: missing '' @ decimal missing_count @ '' order(s) this node had already seen'') self
                      in (self, answer @ reports)
                 else (self, answer)
         else (self, answer))"

definition on_echo_tick ::
    "('c, 'v, 'u, 'h, 'e) mesh_env \<Rightarrow> mesh_clock \<Rightarrow> ('a, 'c, 'v, 'u, 'h, 'e) mesh_node \<Rightarrow> mesh_effect list" where
  "on_echo_tick E clk self = (case pick_random_order (me_order_keys E) (mc_nanos clk) (n_censorship self) of
     None \<Rightarrow> []
   | Some order_id \<Rightarrow> map (\<lambda>p. Sent (pe_id p) (EchoRequest [order_id])) (downstream_peers (fl_routing_table (n_flood self))))"

definition send_ping ::
    "f64 \<Rightarrow> node_id \<Rightarrow> ('a, 'c, 'v, 'u, 'h, 'e) mesh_node \<times> mesh_effect list \<Rightarrow> ('a, 'c, 'v, 'u, 'h, 'e) mesh_node \<times> mesh_effect list" where
  "send_ping now peer st = (case st of (self, sent) \<Rightarrow>
     let nonce = n_next_ping_nonce self
     in (self\<lparr>n_next_ping_nonce := n_next_ping_nonce self + 1,
              n_pending_pings := AList.update nonce now (n_pending_pings self)\<rparr>,
         sent @ [Sent peer (Ping nonce now)]))"

definition on_ping_tick ::
    "mesh_clock \<Rightarrow> ('a, 'c, 'v, 'u, 'h, 'e) mesh_node \<Rightarrow> ('a, 'c, 'v, 'u, 'h, 'e) mesh_node \<times> mesh_effect list" where
  "on_ping_tick clk self =
     (let now = now_ms clk;
          (self, sent) = fold (send_ping now) (peer_ids self) (self, [])
      in (self\<lparr>n_pending_pings := hm_retain (\<lambda>_ sent_at. flt (fsub now sent_at) (lit 5000)) (n_pending_pings self)\<rparr>, sent))"

text \<open>\<^verbatim>\<open>Duration::from_millis(ms).as_secs_f64()\<close>\<close>

definition millis_as_secs :: "u64 \<Rightarrow> f64" where
  "millis_as_secs ms =
     fadd (f64_of_word (ms div 1000)) (fdiv (f64_of_word (ms mod 1000 * 1000000)) (lit 1000000000))"

definition mark_dead :: "mesh_clock \<Rightarrow> node_id \<Rightarrow> ('a, 'c, 'v, 'u, 'h, 'e) mesh_node \<Rightarrow> ('a, 'c, 'v, 'u, 'h, 'e) mesh_node" where
  "mark_dead clk node self =
     (let downtime_secs = millis_as_secs (word_of_f64 (fmul (f64_of_word (n_max_missed_heartbeats self)) (n_heartbeat_interval_ms self)));
          rt = fl_routing_table (n_flood self);
          rt = rt\<lparr>downstream_peers := filter (\<lambda>p. pe_id p \<noteq> node) (downstream_peers rt),
                  upstream_peers := filter (\<lambda>p. pe_id p \<noteq> node) (upstream_peers rt)\<rparr>
      in self\<lparr>n_reputation := on_node_leave node downtime_secs (mc_now clk) (n_reputation self),
              n_flood := (n_flood self)\<lparr>fl_routing_table := rt\<rparr>\<rparr>)"

definition on_heartbeat_tick ::
    "('c, 'v, 'u, 'h, 'e) mesh_env \<Rightarrow> mesh_clock \<Rightarrow> ('a, 'c, 'v, 'u, 'h, 'e) mesh_node \<Rightarrow>
     ('a, 'c, 'v, 'u, 'h, 'e) mesh_node \<times> mesh_effect list" where
  "on_heartbeat_tick E clk self =
     (let now = mc_now clk;
          sent = map (\<lambda>peer. Sent peer (SignedHeartbeat (n_node_id self) now (tr_public_key (n_transport self))
                   (sign_heartbeat (fe_ed (me_flood E)) peer now (n_transport self)))) (peer_ids self);
          (tracker, dead) = check_health now (n_heartbeat self);
          self = fold (mark_dead clk) dead (self\<lparr>n_heartbeat := tracker\<rparr>);
          self = self\<lparr>n_reputation := fold (\<lambda>peer. on_heartbeat_received peer now) (peer_ids self) (n_reputation self)\<rparr>
      in (self, sent))"

text \<open>One turn of the loop.\<close>

fun handle ::
    "('c, 'v, 'u, 'h, 'e) mesh_env \<Rightarrow> mesh_clock \<Rightarrow> mesh_event \<Rightarrow> ('a, 'c, 'v, 'u, 'h, 'e) mesh_node \<Rightarrow>
     (('a, 'c, 'v, 'u, 'h, 'e) mesh_node \<times> mesh_effect list) option" where
  "handle E clk (FloodIn from_node flood_msg) self = Some (on_flood E clk from_node flood_msg self)"
| "handle E clk (PongIn from_peer nonce arrived_at) self = Some (on_pong from_peer nonce arrived_at self, [])"
| "handle E clk (MisconductIn event) self =
     Some (apply_or_record_accusation clk (ev_subject event) (ev_reporter event) (ev_reason event) (ev_timestamp event) self)"
| "handle E clk (BatchProposalIn batch_key proposed_hash reporter timestamp) self =
     Some (record_batch_proposal batch_key reporter proposed_hash timestamp self)"
| "handle E clk (ProposeBatch batch_key resolved_order_ids) self = Some (propose_batch E clk batch_key resolved_order_ids self)"
| "handle E clk (ChainStatusIn snapshot) self = Some (self\<lparr>n_chain_status := snapshot\<rparr>, [])"
| "handle E clk (OriginTimeQuery order_id) self =
     (case earliest_estimate_ms (me_estimates E) order_id (n_origin_time self) of
        (ot, Some reply) \<Rightarrow> Some (self\<lparr>n_origin_time := ot\<rparr>, [OriginTimeReply reply]) | (_, None) \<Rightarrow> None)"
| "handle E clk (CompareQuery order_a order_b) self =
     (case compare_orders (me_sha E) (me_estimates E) order_a order_b (n_origin_time self) of
        (ot, Some reply) \<Rightarrow> Some (self\<lparr>n_origin_time := ot\<rparr>, [CompareReply reply]) | (_, None) \<Rightarrow> None)"
| "handle E clk (EarliestWitnessQuery order_id) self =
     (case earliest_witness (me_estimates E) order_id (n_origin_time self) of
        (ot, Some reply) \<Rightarrow> Some (self\<lparr>n_origin_time := ot\<rparr>, [WitnessReply reply]) | (_, None) \<Rightarrow> None)"
| "handle E clk (HopWitnessIn from_wire order_id hop_node forwarded_at) self = Some (on_hop_witness E clk order_id hop_node forwarded_at self)"
| "handle E clk (EchoIn echo_from order_ids) self = Some (on_echo E clk echo_from order_ids self)"
| "handle E clk EchoTick self = Some (self, on_echo_tick E clk self)"
| "handle E clk PingTick self = Some (on_ping_tick clk self)"
| "handle E clk HeartbeatTick self = Some (on_heartbeat_tick E clk self)"

text \<open>A run of the loop: the turns with their clocks, and everything sent.\<close>

fun run_mesh ::
    "('c, 'v, 'u, 'h, 'e) mesh_env \<Rightarrow> (mesh_clock \<times> mesh_event) list \<Rightarrow> ('a, 'c, 'v, 'u, 'h, 'e) mesh_node \<Rightarrow>
     (('a, 'c, 'v, 'u, 'h, 'e) mesh_node \<times> mesh_effect list) option" where
  "run_mesh E [] self = Some (self, [])"
| "run_mesh E ((clk, ev) # evs) self = (case handle E clk ev self of
     None \<Rightarrow> None
   | Some (self, out) \<Rightarrow> (case run_mesh E evs self of None \<Rightarrow> None | Some (self, out') \<Rightarrow> Some (self, out @ out')))"

text \<open>What the transport hands to the socket for the messages of a turn.\<close>

definition datagrams :: "codec \<Rightarrow> 'a udp_transport \<Rightarrow> mesh_effect list \<Rightarrow> ('a \<times> bytes) list" where
  "datagrams C transport out = List.map_filter (\<lambda>eff. case eff of
     Sent node msg \<Rightarrow> (case send C node msg transport of Inr d \<Rightarrow> Some d | Inl _ \<Rightarrow> None) | _ \<Rightarrow> None) out"

text \<open>One datagram from socket to socket: received, routed, its events handled, the answers sent.\<close>

definition on_datagram ::
    "('c, 'v, 'u, 'h, 'e) mesh_env \<Rightarrow> mesh_clock \<Rightarrow> 'a \<Rightarrow> bytes \<Rightarrow> ('a, 'c, 'v, 'u, 'h, 'e) mesh_node \<Rightarrow>
     (('a, 'c, 'v, 'u, 'h, 'e) mesh_node \<times> ('a \<times> bytes) list) option" where
  "on_datagram E clk addr buf self = (case recv (fe_ed (me_flood E)) (me_codec E) addr buf (n_transport self) of
     Inl _ \<Rightarrow> Some (self, [])
   | Inr (from, msg) \<Rightarrow>
       let (evs, out) = route E clk (n_mesh_key self) from msg
       in case run_mesh E (map (Pair clk) evs) self of
            None \<Rightarrow> None
          | Some (self, out') \<Rightarrow> Some (self, datagrams (me_codec E) (n_transport self) (out @ out')))"

end
