(* ===== verification/MeshLoop.thy ===== *)
theory MeshLoop
  imports Mesh
begin

text \<open>
  Runs of the mesh node's event loop: the quorum on misconduct, the numbers behind order times, the relation
  to the flood, failure detection and echo probes.
\<close>

section \<open>Runs\<close>

lemma run_mesh_snoc:
  "run_mesh E (evs @ [(clk, ev)]) self = (case run_mesh E evs self of
     None \<Rightarrow> None
   | Some (self, out) \<Rightarrow> (case handle E clk ev self of None \<Rightarrow> None | Some (self, out') \<Rightarrow> Some (self, out @ out')))"
  by (induction evs arbitrary: self) (auto split: option.splits)

text \<open>Invariants of a run, with the events so far.\<close>

lemma run_mesh_invariant [consumes 1, case_names start turn]:
  assumes "run_mesh E evs self = Some (self', out)"
    and "I [] self"
    and "\<And>es clk ev n n' o' o''. run_mesh E es self = Some (n, o') \<Longrightarrow> I es n \<Longrightarrow> (clk, ev) \<in> set evs \<Longrightarrow>
       handle E clk ev n = Some (n', o'') \<Longrightarrow> I (es @ [(clk, ev)]) n'"
  shows "I evs self'"
  using assms
proof (induction evs arbitrary: self' out rule: rev_induct)
  case (snoc e evs)
  obtain clk ev where e: "e = (clk, ev)" by (cases e)
  obtain n o' o'' where r: "run_mesh E evs self = Some (n, o')" "handle E clk ev n = Some (self', o'')"
    using snoc.prems(1) by (auto simp: e run_mesh_snoc split: option.splits prod.splits)
  have "I evs n" using snoc.IH [OF r(1) snoc.prems(2)] snoc.prems(3) by auto
  then show ?case using snoc.prems(3) [OF r(1) _ _ r(2)] by (simp add: e)
qed simp

lemma mark_dead_frame [simp]:
  "n_node_id (fold (mark_dead clk) ds n) = n_node_id n"
  "n_misconduct_quorum (fold (mark_dead clk) ds n) = n_misconduct_quorum n"
  "n_latency_stats (fold (mark_dead clk) ds n) = n_latency_stats n"
  "n_origin_time (fold (mark_dead clk) ds n) = n_origin_time n"
  "n_pending_pings (fold (mark_dead clk) ds n) = n_pending_pings n"
  "n_peer_addrs (fold (mark_dead clk) ds n) = n_peer_addrs n"
  by (induction ds arbitrary: n) (simp_all add: mark_dead_def Let_def)

section \<open>Misconduct\<close>

text \<open>\<open>V\<close> is the set of votes cast: pairs of subject and reporter.\<close>

definition quorum_of :: "(node_id \<times> node_id) set \<Rightarrow> nat \<Rightarrow> node_id \<Rightarrow> bool" where
  "quorum_of V n subject \<longleftrightarrow> (\<exists>R. n \<le> card R \<and> (\<forall>r \<in> R. (subject, r) \<in> V))"

definition accusations_ok :: "(node_id \<times> node_id) set \<Rightarrow> misconduct_quorum \<Rightarrow> bool" where
  "accusations_ok V q \<longleftrightarrow> (\<forall>subject rs. map_of (accusations q) subject = Some rs \<longrightarrow>
     distinct (map fst rs) \<and> (\<forall>r \<in> fst ` set rs. (subject, r) \<in> V))"

lemma record_accusation_ok:
  assumes "accusations_ok V q" "(subject, reporter) \<in> V"
  shows "accusations_ok V (fst (record_accusation subject reporter w now q))"
    and "mq_min_reporters (fst (record_accusation subject reporter w now q)) = mq_min_reporters q"
    and "fst (snd (record_accusation subject reporter w now q)) \<Longrightarrow> quorum_of V (mq_min_reporters q) subject"
proof -
  define rs0 where "rs0 = (case map_of (accusations q) subject of Some rs \<Rightarrow> rs | None \<Rightarrow> [])"
  define rs where "rs = AList.update reporter (w, now) (hm_retain (\<lambda>_ (_, last_seen). flt (fsub now last_seen) (mq_window_secs q)) rs0)"
  have rec: "record_accusation subject reporter w now q =
      (q\<lparr>accusations := AList.update subject rs (accusations q)\<rparr>,
       mq_min_reporters q \<le> length rs \<and> fle (mq_stake_threshold q) (f64_sum (map (\<lambda>(_, w, _). w) rs)), length rs,
       f64_sum (map (\<lambda>(_, w, _). w) rs))"
    by (simp add: record_accusation_def Let_def rs_def rs0_def)
  have old: "hm_ok rs0" "\<forall>r \<in> fst ` set rs0. (subject, r) \<in> V"
    using assms(1) unfolding accusations_ok_def rs0_def by (cases "map_of (accusations q) subject"; auto)+
  have rs: "distinct (map fst rs)" "\<forall>r \<in> fst ` set rs. (subject, r) \<in> V"
    using old assms(2) unfolding rs_def
    by (auto simp: distinct_update) (force simp: hm_retain_def dest!: update_set)
  show "accusations_ok V (fst (record_accusation subject reporter w now q))"
    using assms(1) rs unfolding rec accusations_ok_def by (auto simp: update_conv' split: if_splits)
  show "mq_min_reporters (fst (record_accusation subject reporter w now q)) = mq_min_reporters q" by (simp add: rec)
  have "card (fst ` set rs) = length rs" using rs(1) by (metis distinct_card length_map set_map)
  then show "fst (snd (record_accusation subject reporter w now q)) \<Longrightarrow> quorum_of V (mq_min_reporters q) subject"
    using rs(2) unfolding rec quorum_of_def by (intro exI [of _ "fst ` set rs"]) auto
qed

definition guarded ::
    "(node_id \<times> node_id) set \<Rightarrow> node_id \<Rightarrow> ('a, 'c, 'v, 'u, 'h, 'e) mesh_node \<times> mesh_effect list \<Rightarrow> bool" where
  "guarded V own res \<longleftrightarrow> n_node_id (fst res) = own \<and> mq_min_reporters (n_misconduct_quorum (fst res)) = 2
     \<and> accusations_ok V (n_misconduct_quorum (fst res))
     \<and> (\<forall>s. MisconductConfirmed s \<in> set (snd res) \<longrightarrow> quorum_of V 2 s)"

lemma guarded_accusation:
  assumes "guarded V own (n, [])" "(subject, reporter) \<in> V"
  shows "guarded V own (apply_or_record_accusation clk subject reporter reason now n)"
proof (cases "record_accusation subject reporter (reporter_weight reporter n) now (n_misconduct_quorum n)")
  case (fields q met k total)
  have "accusations_ok V (n_misconduct_quorum n)" using assms(1) by (simp add: guarded_def)
  from record_accusation_ok [OF this assms(2), of "reporter_weight reporter n" now]
  show ?thesis using assms(1) fields by (simp add: guarded_def apply_or_record_accusation_def Let_def)
qed

lemma guarded_report:
  assumes "guarded V own (n, [])" "(subject, own) \<in> V"
  shows "guarded V own (report_misconduct clk subject reason n)"
proof -
  have "n_node_id n = own" using assms(1) by (simp add: guarded_def)
  then show ?thesis using guarded_accusation [OF assms, of clk reason "mc_now clk"]
    by (auto simp: guarded_def report_misconduct_def Let_def case_prod_beta)
qed

text \<open>Changes of the node that leave its votes alone.\<close>

lemma guarded_frame:
  assumes "guarded V own (n, out)" "n_node_id n' = n_node_id n" "n_misconduct_quorum n' = n_misconduct_quorum n"
    and "\<forall>s. MisconductConfirmed s \<in> set out' \<longrightarrow> MisconductConfirmed s \<in> set out"
  shows "guarded V own (n', out')"
  using assms by (auto simp: guarded_def)

lemma guarded_hop_latency:
  assumes "guarded V own (n, [])" "(hop, own) \<in> V"
  shows "guarded V own (handle_hop_latency_result E clk order_id hop observed n)"
  unfolding handle_hop_latency_result_def Let_def case_prod_beta
  by (auto intro!: guarded_report [OF guarded_frame [OF assms(1)] assms(2)] guarded_frame [OF assms(1)])

lemma guarded_prefix:
  assumes "guarded V own res" "\<forall>s. MisconductConfirmed s \<notin> set us" "\<forall>s. MisconductConfirmed s \<notin> set ws"
  shows "guarded V own (fst res, us @ ws @ snd res)"
  using assms by (auto simp: guarded_def)

lemma guarded_noted:
  assumes "guarded V own (n, [])" "\<forall>s. (s, own) \<in> V"
  shows "guarded V own (note_arrival E clk from_node msg n)"
  unfolding note_arrival_def Let_def case_prod_beta prod.collapse
  by (intro guarded_prefix)
    (auto intro!: guarded_hop_latency [OF guarded_frame [OF assms(1)]] guarded_frame [OF assms(1)] assms(2) [rule_format]
      split: option.splits)

lemma guarded_relay:
  assumes "guarded V own (n, [])"
  shows "guarded V own (relay_flood E clk from_node msg n)"
  unfolding relay_flood_def Let_def case_prod_beta
  by (auto intro!: guarded_frame [OF assms] split: sum.splits flood_error.splits)

lemma guarded_flood:
  assumes "guarded V own (n, [])" "\<forall>s. (s, own) \<in> V"
  shows "guarded V own (on_flood E clk from_node msg n)"
proof -
  obtain n' out where n': "note_arrival E clk from_node msg n = (n', out)" by fastforce
  have g: "guarded V own (n', out)" using guarded_noted [OF assms] n' by metis
  then have "guarded V own (n', [])" by (simp add: guarded_def)
  then have "guarded V own (relay_flood E clk from_node msg n')" by (rule guarded_relay)
  then show ?thesis using g n' by (auto simp: guarded_def on_flood_def Let_def case_prod_beta)
qed

lemma guarded_echo:
  assumes "guarded V own (n, [])" "\<forall>s. (s, own) \<in> V"
  shows "guarded V own (on_echo E clk p ids n)"
proof -
  have sent: "guarded V own (fst r, Sent p m # snd r)" if "guarded V own r" for r :: "('a, 'b, 'c, 'd, 'e, 'f) mesh_node \<times> mesh_effect list" and m
    using that by (auto simp: guarded_def)
  show ?thesis unfolding on_echo_def Let_def case_prod_beta
    by (auto intro!: sent guarded_report [OF guarded_frame [OF assms(1)]] guarded_frame [OF assms(1)] assms(2) [rule_format])
qed

lemma guarded_handle:
  assumes "guarded V own (n, [])" "\<forall>s. (s, own) \<in> V" "\<forall>e. ev = MisconductIn e \<longrightarrow> (ev_subject e, ev_reporter e) \<in> V"
    and "handle E clk ev n = Some res"
  shows "guarded V own res"
proof (cases ev)
  case (FloodIn from_node msg)
  then show ?thesis using assms(4) guarded_flood [OF assms(1,2)] by auto
next
  case (PongIn p k t)
  then show ?thesis using assms(4) by (auto simp: on_pong_def intro!: guarded_frame [OF assms(1)] split: option.splits)
next
  case (MisconductIn e)
  then show ?thesis using assms(3,4) guarded_accusation [OF assms(1)] by auto
next
  case (BatchProposalIn k h r t)
  then show ?thesis using assms(4)
    by (auto simp: record_batch_proposal_def intro!: guarded_frame [OF assms(1)] split: prod.splits option.splits)
next
  case (ProposeBatch k ids)
  then show ?thesis using assms(4)
    by (auto simp: propose_batch_def record_batch_proposal_def Let_def intro!: guarded_frame [OF assms(1)] split: prod.splits option.splits)
next
  case (ChainStatusIn st)
  then show ?thesis using assms(4) by (auto intro!: guarded_frame [OF assms(1)])
next
  case (OriginTimeQuery i)
  then show ?thesis using assms(4) by (auto intro!: guarded_frame [OF assms(1)] split: prod.splits option.splits)
next
  case (CompareQuery i j)
  then show ?thesis using assms(4) by (auto intro!: guarded_frame [OF assms(1)] split: prod.splits option.splits)
next
  case (EarliestWitnessQuery i)
  then show ?thesis using assms(4) by (auto intro!: guarded_frame [OF assms(1)] split: prod.splits option.splits)
next
  case (HopWitnessIn f i hop t)
  have "guarded V own (on_hop_witness E clk i hop t n)" unfolding on_hop_witness_def Let_def case_prod_beta
    by (auto intro!: guarded_hop_latency [OF guarded_frame [OF assms(1)]] guarded_frame [OF assms(1)] assms(2) [rule_format] split: option.splits)
  then show ?thesis using assms(4) HopWitnessIn by simp
next
  case (EchoIn p ids)
  then show ?thesis using assms(4) guarded_echo [OF assms(1,2)] by auto
next
  case EchoTick
  then show ?thesis using assms(4) by (auto simp: on_echo_tick_def intro!: guarded_frame [OF assms(1)] split: option.splits)
next
  case PingTick
  have "guarded V own (fold (send_ping t) ps (n', out))" if "guarded V own (n', out)" for t ps n' out
    using that
  proof (induction ps arbitrary: n' out)
    case (Cons p ps)
    have "guarded V own (send_ping t p (n', out))" using Cons.prems by (auto simp: send_ping_def Let_def guarded_def)
    then show ?case using Cons.IH by (cases "send_ping t p (n', out)") simp
  qed simp
  from this [OF assms(1)] show ?thesis using assms(4) PingTick
    by (auto simp: on_ping_tick_def Let_def case_prod_beta guarded_def)
next
  case HeartbeatTick
  then show ?thesis using assms(4)
    by (auto simp: on_heartbeat_tick_def Let_def case_prod_beta intro!: guarded_frame [OF assms(1)])
qed

lemma guarded_run:
  assumes "run_mesh E evs n = Some res" "guarded V own (n, [])" "\<forall>s. (s, own) \<in> V"
    and "\<forall>(c, ev) \<in> set evs. \<forall>e. ev = MisconductIn e \<longrightarrow> (ev_subject e, ev_reporter e) \<in> V"
  shows "guarded V own res"
  using assms
proof (induction evs arbitrary: n res)
  case (Cons e evs)
  obtain clk ev where e: "e = (clk, ev)" by (cases e)
  obtain n' out n'' out' where r: "handle E clk ev n = Some (n', out)" "run_mesh E evs n' = Some (n'', out')" "res = (n'', out @ out')"
    using Cons.prems(1) by (auto simp: e split: option.splits)
  have g: "guarded V own (n', out)" using guarded_handle [OF Cons.prems(2,3) _ r(1)] Cons.prems(4) e by auto
  then have "guarded V own (n', [])" by (simp add: guarded_def)
  from Cons.IH [OF r(2) this] have "guarded V own (n'', out')" using Cons.prems(3,4) by simp
  then show ?case using g r(3) by (auto simp: guarded_def)
qed simp

section \<open>What a turn leaves alone\<close>

lemmas turn_defs = apply_or_record_accusation_def report_misconduct_def handle_hop_latency_result_def note_arrival_def
  relay_flood_def on_flood_def on_pong_def on_hop_witness_def on_echo_def record_batch_proposal_def propose_batch_def

lemma accusation_frame [simp]:
  "n_heartbeat (fst (apply_or_record_accusation clk s r x t n)) = n_heartbeat n"
  "n_flood (fst (apply_or_record_accusation clk s r x t n)) = n_flood n"
  "n_latency_stats (fst (apply_or_record_accusation clk s r x t n)) = n_latency_stats n"
  "n_origin_time (fst (apply_or_record_accusation clk s r x t n)) = n_origin_time n"
  "n_pending_pings (fst (apply_or_record_accusation clk s r x t n)) = n_pending_pings n"
  "n_mesh_key (fst (apply_or_record_accusation clk s r x t n)) = n_mesh_key n"
  by (simp_all add: apply_or_record_accusation_def Let_def case_prod_beta)

lemma report_frame [simp]:
  "n_heartbeat (fst (report_misconduct clk s x n)) = n_heartbeat n"
  "n_flood (fst (report_misconduct clk s x n)) = n_flood n"
  "n_latency_stats (fst (report_misconduct clk s x n)) = n_latency_stats n"
  "n_origin_time (fst (report_misconduct clk s x n)) = n_origin_time n"
  "n_pending_pings (fst (report_misconduct clk s x n)) = n_pending_pings n"
  "n_mesh_key (fst (report_misconduct clk s x n)) = n_mesh_key n"
  by (simp_all add: report_misconduct_def Let_def case_prod_beta)

lemma hop_latency_frame [simp]:
  "n_heartbeat (fst (handle_hop_latency_result E clk i h t n)) = n_heartbeat n"
  "n_flood (fst (handle_hop_latency_result E clk i h t n)) = n_flood n"
  "n_latency_stats (fst (handle_hop_latency_result E clk i h t n)) = n_latency_stats n"
  "n_pending_pings (fst (handle_hop_latency_result E clk i h t n)) = n_pending_pings n"
  "n_mesh_key (fst (handle_hop_latency_result E clk i h t n)) = n_mesh_key n"
  by (simp_all add: handle_hop_latency_result_def Let_def case_prod_beta)

lemma note_arrival_frame [simp]:
  "n_heartbeat (fst (note_arrival E clk p m n)) = n_heartbeat n"
  "n_flood (fst (note_arrival E clk p m n)) = n_flood n"
  "n_latency_stats (fst (note_arrival E clk p m n)) = n_latency_stats n"
  "n_pending_pings (fst (note_arrival E clk p m n)) = n_pending_pings n"
  "n_mesh_key (fst (note_arrival E clk p m n)) = n_mesh_key n"
  by (simp_all add: note_arrival_def Let_def case_prod_beta split: option.splits)

lemma relay_flood_frame [simp]:
  "n_heartbeat (fst (relay_flood E clk p m n)) = n_heartbeat n"
  "fl_routing_table (n_flood (fst (relay_flood E clk p m n))) = fl_routing_table (n_flood n)"
  "n_latency_stats (fst (relay_flood E clk p m n)) = n_latency_stats n"
  "n_origin_time (fst (relay_flood E clk p m n)) = n_origin_time n"
  "n_pending_pings (fst (relay_flood E clk p m n)) = n_pending_pings n"
  by (simp_all add: relay_flood_def Let_def case_prod_beta on_receive_frame split: sum.splits flood_error.splits)

lemma echo_frame [simp]:
  "n_heartbeat (fst (on_echo E clk p ids n)) = n_heartbeat n"
  "n_flood (fst (on_echo E clk p ids n)) = n_flood n"
  "n_latency_stats (fst (on_echo E clk p ids n)) = n_latency_stats n"
  "n_origin_time (fst (on_echo E clk p ids n)) = n_origin_time n"
  "n_pending_pings (fst (on_echo E clk p ids n)) = n_pending_pings n"
  by (simp_all add: on_echo_def Let_def case_prod_beta)

lemma send_pings_frame [simp]:
  "n_heartbeat (fst (fold (send_ping t) ps (n, out))) = n_heartbeat n"
  "n_flood (fst (fold (send_ping t) ps (n, out))) = n_flood n"
  "n_latency_stats (fst (fold (send_ping t) ps (n, out))) = n_latency_stats n"
  "n_origin_time (fst (fold (send_ping t) ps (n, out))) = n_origin_time n"
  by (induction ps arbitrary: n out) (simp_all add: send_ping_def Let_def)

section \<open>Failure detection\<close>

lemma no_heartbeats_handle:
  assumes "handle E clk ev n = Some (n', out)" "ht_last_heartbeat (n_heartbeat n) = []"
  shows "ht_last_heartbeat (n_heartbeat n') = [] \<and> fl_routing_table (n_flood n') = fl_routing_table (n_flood n)"
proof (cases ev)
  case HeartbeatTick
  have "check_health t (n_heartbeat n) = (n_heartbeat n, [])" for t
    using assms(2) by (simp add: check_health_def)
  then show ?thesis using assms HeartbeatTick by (auto simp: on_heartbeat_tick_def Let_def)
next
  case (PongIn p k t)
  then show ?thesis using assms by (auto simp: on_pong_def split: option.splits)
next
  case (HopWitnessIn w i h t)
  then have "n' = fst (on_hop_witness E clk i h t n)" using assms(1) by simp
  then show ?thesis using assms(2) by (auto simp: on_hop_witness_def Let_def case_prod_beta split: option.splits)
next
  case (FloodIn p m)
  then have "n' = fst (on_flood E clk p m n)" using assms(1) by simp
  then show ?thesis using assms(2) by (simp add: on_flood_def Let_def case_prod_beta)
next
  case (MisconductIn e)
  then have "n' = fst (apply_or_record_accusation clk (ev_subject e) (ev_reporter e) (ev_reason e) (ev_timestamp e) n)" using assms(1) by simp
  then show ?thesis using assms(2) by simp
next
  case (EchoIn p ids)
  then have "n' = fst (on_echo E clk p ids n)" using assms(1) by simp
  then show ?thesis using assms(2) by simp
next
  case PingTick
  then have "n' = fst (on_ping_tick clk n)" using assms(1) by simp
  then show ?thesis using assms(2) by (simp add: on_ping_tick_def Let_def case_prod_beta)
qed (use assms in \<open>auto simp: record_batch_proposal_def propose_batch_def Let_def split: prod.splits option.splits\<close>)

section \<open>Estimates are numbers\<close>

text \<open>Clock readings up to \<open>2\<^sup>40\<close> seconds, and what is computed from them.\<close>

definition sane_clock :: "mesh_clock \<Rightarrow> bool" where
  "sane_clock clk \<longleftrightarrow> (\<exists>q. mc_now clk = Fin q \<and> 0 \<le> q \<and> q \<le> 2 ^ 40)"

definition within_ms :: "f64 \<Rightarrow> bool" where
  "within_ms t \<longleftrightarrow> (\<exists>x. t = Fin x \<and> \<bar>x\<bar> \<le> 2 ^ 52)"

definition time_in_ms :: "f64 \<Rightarrow> bool" where
  "time_in_ms t \<longleftrightarrow> (\<exists>x. t = Fin x \<and> 0 \<le> x \<and> x \<le> 2 ^ 52)"

lemma representable_pow2: "representable (2 ^ 52)"
  using representable_of_int [of "2 ^ 52"] by simp

lemma now_ms_sane: "sane_clock clk \<Longrightarrow> time_in_ms (now_ms clk)"
proof -
  assume "sane_clock clk"
  then obtain q where q: "mc_now clk = Fin q" "0 \<le> q" "q \<le> 2 ^ 40" unfolding sane_clock_def by blast
  have b: "\<bar>q * 1000\<bar> \<le> 2 ^ 52" using q by simp
  have "rnd (q * 1000) = Fin (rnd_val (q * 1000)) \<and> \<bar>rnd_val (q * 1000)\<bar> \<le> 2 ^ 52"
    by (rule rnd_bounded [OF representable_pow2 b]) (simp add: power_int_def)
  moreover have "0 \<le> rnd_val (q * 1000)" using q by (intro rnd_val_nonneg) simp
  ultimately show ?thesis using q by (auto simp: time_in_ms_def now_ms_def)
qed

lemma elapsed_within: "time_in_ms a \<Longrightarrow> time_in_ms b \<Longrightarrow> within_ms (fsub a b)"
proof -
  assume "time_in_ms a" "time_in_ms b"
  then obtain x y where xy: "a = Fin x" "b = Fin y" "0 \<le> x" "x \<le> 2 ^ 52" "0 \<le> y" "y \<le> 2 ^ 52" unfolding time_in_ms_def by blast
  have "rnd (x - y) = Fin (rnd_val (x - y)) \<and> \<bar>rnd_val (x - y)\<bar> \<le> 2 ^ 52"
    by (rule rnd_bounded [OF representable_pow2]) (use xy in \<open>simp_all add: power_int_def\<close>)
  then show ?thesis using xy by (auto simp: within_ms_def fsub_def)
qed

lemma f64_sum_within:
  assumes "\<forall>x \<in> set xs. within_ms x" "k + length xs \<le> 50" "acc = Fin a" "\<bar>a\<bar> \<le> of_nat k * 2 ^ 52"
  shows "\<exists>s. fold (\<lambda>x acc. fadd acc x) xs acc = Fin s"
  using assms
proof (induction xs arbitrary: k acc a)
  case (Cons x xs)
  obtain y where y: "x = Fin y" "\<bar>y\<bar> \<le> 2 ^ 52" using Cons.prems(1) unfolding within_ms_def by auto
  let ?b = "of_nat (Suc k) * 2 ^ 52 :: rat"
  have rep: "representable ?b"
    unfolding representable_def using Cons.prems(2)
    by (intro exI [of _ "int (Suc k)"] exI [of _ 52]) (auto simp: power_int_def)
  have "\<bar>a + y\<bar> \<le> ?b" using Cons.prems(4) y(2) by (simp add: algebra_simps)
  moreover have "?b < 2 powi 1024"
  proof -
    have "?b \<le> 50 * 2 ^ 52" using Cons.prems(2) by simp
    also have "\<dots> < (2 :: rat) ^ 1024" by simp
    finally show ?thesis by (simp add: power_int_def)
  qed
  ultimately have "rnd (a + y) = Fin (rnd_val (a + y)) \<and> \<bar>rnd_val (a + y)\<bar> \<le> ?b" by (rule rnd_bounded [OF rep])
  then show ?case using Cons.IH [of "Suc k" "fadd acc x" "rnd_val (a + y)"] Cons.prems y by simp
qed simp

definition stats_ok :: "peer_latency_stats \<Rightarrow> bool" where
  "stats_ok st \<longleftrightarrow> (\<forall>p w. map_of (samples st) p = Some w \<longrightarrow> length w \<le> 50 \<and> (\<forall>x \<in> set w. within_ms x))"

lemma stats_ok_record: "stats_ok st \<Longrightarrow> within_ms t \<Longrightarrow> stats_ok (record_rtt p t st)"
proof -
  assume ok: "stats_ok st" and t: "within_ms t"
  define w where "w = (case map_of (samples st) p of Some w \<Rightarrow> w | None \<Rightarrow> [])"
  have "length w \<le> 50 \<and> (\<forall>x \<in> set w. within_ms x)" using ok unfolding stats_ok_def w_def by (cases "map_of (samples st) p") auto
  then have "length w' \<le> 50 \<and> (\<forall>x \<in> set w'. within_ms x)"
    if "w' = (if Sequencing.WINDOW_SIZE < length (w @ [t]) then tl (w @ [t]) else w @ [t])" for w'
    using t that by (cases w) (auto simp: Sequencing.WINDOW_SIZE_def)
  then show ?thesis using ok unfolding stats_ok_def record_rtt_def w_def [symmetric] Let_def by (auto simp: update_conv')
qed

lemma one_way_number:
  assumes "stats_ok st" "mean_one_way_ms sq p st = Some t"
  shows "t \<noteq> NaN"
proof -
  obtain w where w: "map_of (samples st) p = Some w" "w \<noteq> []"
    and t: "t = fdiv (fdiv (f64_sum w) (f64_of_word (of_nat (length w) :: u64))) (lit 2)"
    using assms(2) by (auto simp: mean_one_way_ms_def mean_stddev_def Let_def split: if_splits Option.bind_splits)
  have len: "length w \<le> 50" "\<forall>x \<in> set w. within_ms x" using assms(1) w(1) unfolding stats_ok_def by blast+
  then obtain s where s: "f64_sum w = Fin s" using f64_sum_within [of w 0 "lit 0" 0] by (auto simp: f64_sum_def)
  have "take_bit 64 (length w) = length w" using len(1) by (intro take_bit_nat_eq_self) simp
  then have "uint (of_nat (length w) :: u64) = int (length w)" by (simp add: unsigned_of_nat)
  then have n: "f64_of_word (of_nat (length w) :: u64) = rnd (of_int (int (length w)))" by (simp add: f64_of_word_def)
  have "rnd (of_int (int (length w))) = Fin (of_int (int (length w)))" using len(1) by (intro rnd_of_int) simp
  then have "fdiv (f64_sum w) (f64_of_word (of_nat (length w) :: u64)) = rnd (s / of_nat (length w))"
    using w(2) s n by simp
  moreover have "fdiv x (lit 2) \<noteq> NaN" if "x \<noteq> NaN" for x using that by (cases x) simp_all
  ultimately show ?thesis using t by simp
qed

definition estimates_ok :: "('e, bytes32, estimate list) lru_ops \<Rightarrow> 'e origin_time_estimator \<Rightarrow> bool" where
  "estimates_ok L ot \<longleftrightarrow> (\<forall>k v. lru_peek L k (estimates ot) = Some v \<longrightarrow> (\<forall>e \<in> set v. fst (snd e) \<noteq> NaN))"

lemma lru_peekD:
  assumes "lru_laws L"
  shows "lru_contains L k c \<longleftrightarrow> lru_peek L k c \<noteq> None"
    and "lru_peek L k (snd (lru_get L k' c)) = lru_peek L k c"
    and "lru_peek L k (lru_put L k v c) = Some v"
    and "k \<noteq> k' \<Longrightarrow> lru_peek L k (lru_put L k' v c) = Some x \<Longrightarrow> lru_peek L k c = Some x"
    and "lru_peek L k (lru_update L k' f c) = (if k = k' then map_option f (lru_peek L k c) else lru_peek L k c)"
    and "lru_peek L k (lru_new L m) = None"
proof -
  show "k \<noteq> k' \<Longrightarrow> lru_peek L k (lru_put L k' v c) = Some x \<Longrightarrow> lru_peek L k c = Some x"
    using assms unfolding lru_laws_def by (metis insertE option.distinct(1) singletonD)
qed (use assms in \<open>simp_all add: lru_laws_def\<close>)

lemma estimates_ok_record:
  assumes L: "lru_laws L" and ok: "estimates_ok L ot" and t: "t \<noteq> NaN"
  shows "estimates_ok L (record_estimate L i h t ot)"
  unfolding estimates_ok_def
proof (intro allI impI ballI)
  fix k v e assume v: "lru_peek L k (estimates (record_estimate L i h t ot)) = Some v" "e \<in> set v"
  show "fst (snd e) \<noteq> NaN"
  proof (cases "k = i")
    case True
    show ?thesis
    proof (cases "lru_peek L i (estimates ot)")
      case None
      then have "v = [(h, t, False)]" using v(1) True by (simp add: record_estimate_def lru_peekD(1,3) [OF L])
      then show ?thesis using v(2) t by simp
    next
      case (Some w)
      then have "v = w @ [(h, t, False)]" using v(1) True by (simp add: record_estimate_def lru_peekD(1,5) [OF L])
      moreover have "\<forall>e \<in> set w. fst (snd e) \<noteq> NaN" using ok Some unfolding estimates_ok_def by blast
      ultimately show ?thesis using v(2) t by auto
    qed
  next
    case False
    then have "lru_peek L k (estimates ot) = Some v"
      using v(1) by (auto simp: record_estimate_def lru_peekD(5) [OF L] dest: lru_peekD(4) [OF L False] split: if_splits)
    then show ?thesis using ok v(2) unfolding estimates_ok_def by blast
  qed
qed

lemma estimates_ok_mark:
  assumes "lru_laws L" "estimates_ok L ot"
  shows "estimates_ok L (mark_anomalous L i h ot)"
  unfolding estimates_ok_def
proof (intro allI impI ballI)
  fix k v e assume v: "lru_peek L k (estimates (mark_anomalous L i h ot)) = Some v" "e \<in> set v"
  obtain w where w: "lru_peek L k (estimates ot) = Some w" "fst ` snd ` set v = fst ` snd ` set w"
  proof (cases "lru_peek L k (estimates ot)")
    case (Some w)
    have "fst ` snd ` set v = fst ` snd ` set w"
      using v(1) Some by (auto simp: mark_anomalous_def lru_peekD(5) [OF assms(1)] image_image case_prod_beta split: if_splits) force+
    then show ?thesis using that Some by blast
  qed (use v(1) in \<open>simp add: mark_anomalous_def lru_peekD(5) [OF assms(1)] split: if_splits\<close>)
  have "\<forall>e \<in> set w. fst (snd e) \<noteq> NaN" using assms(2) w(1) unfolding estimates_ok_def by blast
  then have "NaN \<notin> fst ` snd ` set v" unfolding w(2) by force
  then show "fst (snd e) \<noteq> NaN" using v(2) by force
qed

lemma earliest_in_total:
  assumes "\<forall>e \<in> set es. fst (snd e) \<noteq> NaN"
  shows "earliest_in es \<noteq> None"
proof -
  define pool where "pool = map (\<lambda>(hop, t, _). (hop, t))
    (filter (\<lambda>(_, _, a). \<not> list_ex (\<lambda>(_, _, a). \<not> a) es \<or> \<not> a) es)"
  have numbers: "\<forall>y \<in> set pool. snd y \<noteq> NaN" using assms unfolding pool_def by auto
  have "earliest_in es = (case pool of [] \<Rightarrow> Some None | x # xs \<Rightarrow> map_option Some (min_by_time x xs))"
    unfolding earliest_in_def Let_def pool_def ..
  moreover have "min_by_time x xs \<noteq> None" if "pool = x # xs" for x xs
    using min_by_time_total [of x xs] numbers that by auto
  ultimately show ?thesis by (cases pool) simp_all
qed

lemma earliest_witness_total:
  assumes L: "lru_laws L" and ok: "estimates_ok L ot"
  shows "\<exists>ot' r. earliest_witness L i ot = (ot', Some r) \<and> estimates_ok L ot'"
proof -
  obtain r c where g: "lru_get L i (estimates ot) = (r, c)" by fastforce
  have c: "lru_peek L k c = lru_peek L k (estimates ot)" for k using lru_peekD(2) [OF L, of k i "estimates ot"] g by simp
  have ok': "estimates_ok L (ot\<lparr>estimates := c\<rparr>)" using ok by (simp add: estimates_ok_def c)
  show ?thesis
  proof (cases r)
    case None
    then show ?thesis using g ok' by (simp add: earliest_witness_def)
  next
    case (Some es)
    then have "lru_peek L i (estimates ot) = Some es" using g by (simp add: lru_peek_def)
    then have "earliest_in es \<noteq> None" using ok unfolding estimates_ok_def by (intro earliest_in_total) blast
    then show ?thesis using g ok' Some by (auto simp: earliest_witness_def)
  qed
qed

lemma compare_orders_total:
  assumes "lru_laws L" "estimates_ok L ot"
  shows "\<exists>ot' r. compare_orders sha L i j ot = (ot', Some r) \<and> estimates_ok L ot'"
proof -
  obtain ot1 r1 where 1: "earliest_witness L i ot = (ot1, Some r1)" "estimates_ok L ot1"
    using earliest_witness_total [OF assms] by blast
  obtain ot2 r2 where 2: "earliest_witness L j ot1 = (ot2, Some r2)" "estimates_ok L ot2"
    using earliest_witness_total [OF assms(1) 1(2)] by blast
  show ?thesis
  proof (cases "r1 = None \<or> r2 = None")
    case True
    then show ?thesis using 1 2 by (cases r1) (auto simp: compare_orders_def)
  next
    case False
    then obtain w1 w2 where w: "r1 = Some w1" "r2 = Some w2" by auto
    obtain d where "compare_by_evidence sha i w1 j w2 = Some d" using compare_by_evidence_total by blast
    then show ?thesis using 1 2 w by (simp add: compare_orders_def)
  qed
qed

section \<open>The loop does not panic\<close>

definition numbers_ok :: "('c, 'v, 'u, 'h, 'e) mesh_env \<Rightarrow> ('a, 'c, 'v, 'u, 'h, 'e) mesh_node \<Rightarrow> bool" where
  "numbers_ok E n \<longleftrightarrow> stats_ok (n_latency_stats n) \<and> estimates_ok (me_estimates E) (n_origin_time n)
     \<and> (\<forall>e \<in> set (n_pending_pings n). time_in_ms (snd e))"

definition sane_event :: "mesh_clock \<times> mesh_event \<Rightarrow> bool" where
  "sane_event e \<longleftrightarrow> sane_clock (fst e) \<and> (\<forall>p k t. snd e = PongIn p k t \<longrightarrow> (\<exists>clk. sane_clock clk \<and> t = now_ms clk))"

lemma numbers_ok_frame:
  "numbers_ok E n \<Longrightarrow> n_latency_stats n' = n_latency_stats n \<Longrightarrow> n_origin_time n' = n_origin_time n \<Longrightarrow>
   n_pending_pings n' = n_pending_pings n \<Longrightarrow> numbers_ok E n'"
  by (simp add: numbers_ok_def)

lemma numbers_ok_hop_latency:
  assumes "lru_laws (me_estimates E)" "numbers_ok E n"
  shows "numbers_ok E (fst (handle_hop_latency_result E clk i h t n))"
  using assms estimates_ok_mark [OF assms(1)]
  by (simp add: numbers_ok_def) (simp add: handle_hop_latency_result_def Let_def case_prod_beta)

lemma numbers_ok_matched:
  assumes "lru_laws (me_estimates E)" "numbers_ok E n"
  shows "numbers_ok E (fst (case r of Some ht \<Rightarrow> handle_hop_latency_result E clk i (fst ht) (snd ht) n | None \<Rightarrow> (n, [])))"
  using assms numbers_ok_hop_latency [OF assms] by (cases r) simp_all

lemma numbers_ok_note:
  assumes L: "lru_laws (me_estimates E)" and ok: "numbers_ok E n" and clk: "sane_clock clk"
  shows "numbers_ok E (fst (note_arrival E clk p m n))"
proof -
  have est: "numbers_ok E (case mean_one_way_ms (me_sqrt E) p (n_latency_stats n) of
        Some t \<Rightarrow> n\<lparr>n_origin_time := record_estimate (me_estimates E) (o_id (f_order m)) p (fsub (now_ms clk) t) (n_origin_time n)\<rparr>
      | None \<Rightarrow> n)" (is "numbers_ok E ?n1")
  proof (cases "mean_one_way_ms (me_sqrt E) p (n_latency_stats n)")
    case (Some t)
    then have "t \<noteq> NaN" using ok one_way_number unfolding numbers_ok_def by blast
    moreover obtain x where "now_ms clk = Fin x" using now_ms_sane [OF clk] unfolding time_in_ms_def by blast
    ultimately have "fsub (now_ms clk) t \<noteq> NaN" by (cases t) (simp_all add: fsub_def)
    then show ?thesis using ok Some estimates_ok_record [OF L] by (simp add: numbers_ok_def)
  qed (use ok in simp)
  show ?thesis
    unfolding note_arrival_def Let_def case_prod_beta fst_conv
    by (intro numbers_ok_matched [OF L] numbers_ok_frame [OF est]) simp_all
qed

lemma numbers_ok_ping:
  assumes "numbers_ok E (fst st)" "time_in_ms t"
  shows "numbers_ok E (fst (fold (send_ping t) ps st))"
  using assms
proof (induction ps arbitrary: st)
  case (Cons p ps)
  have "numbers_ok E (fst (send_ping t p st))" using Cons.prems by (cases st) (auto simp: send_ping_def Let_def numbers_ok_def dest!: update_set)
  then show ?case using Cons.IH Cons.prems(2) by simp
qed simp

lemma numbers_ok_ping_tick:
  assumes "numbers_ok E n" "sane_clock clk"
  shows "numbers_ok E (fst (on_ping_tick clk n))"
proof -
  have "numbers_ok E (fst (fold (send_ping (now_ms clk)) (peer_ids n) (n, [])))"
    using assms now_ms_sane by (intro numbers_ok_ping) auto
  then show ?thesis
    by (simp add: on_ping_tick_def Let_def case_prod_beta numbers_ok_def hm_retain_def)
qed

lemma numbers_ok_turn:
  assumes L: "lru_laws (me_estimates E)" and ok: "numbers_ok E n" and sane: "sane_event (clk, ev)"
  shows "\<exists>n' out. handle E clk ev n = Some (n', out) \<and> numbers_ok E n'"
proof -
  have clk: "sane_clock clk" using sane by (simp add: sane_event_def)
  have est: "estimates_ok (me_estimates E) (n_origin_time n)" using ok by (simp add: numbers_ok_def)
  show ?thesis
  proof (cases ev)
    case (FloodIn p m)
    have "numbers_ok E (fst (on_flood E clk p m n))" unfolding on_flood_def Let_def case_prod_beta fst_conv
      by (rule numbers_ok_frame [OF numbers_ok_note [OF L ok clk]]) simp_all
    then show ?thesis using FloodIn by (cases "on_flood E clk p m n") simp
  next
    case (PongIn p k t)
    then obtain clk' where t: "sane_clock clk'" "t = now_ms clk'" using sane by (auto simp: sane_event_def)
    have "numbers_ok E (on_pong p k t n)"
    proof (cases "map_of (n_pending_pings n) k")
      case (Some t0)
      then have "time_in_ms t0" using ok unfolding numbers_ok_def by (fastforce dest: map_of_SomeD)
      then have "within_ms (fsub t t0)" using elapsed_within now_ms_sane [OF t(1)] t(2) by blast
      then have "stats_ok (record_rtt p (fsub t t0) (n_latency_stats n))" using ok stats_ok_record unfolding numbers_ok_def by blast
      then show ?thesis using ok Some by (simp add: numbers_ok_def on_pong_def AList.delete_eq)
    qed (use ok in \<open>simp add: on_pong_def\<close>)
    then show ?thesis using PongIn by simp
  next
    case (MisconductIn e)
    have "numbers_ok E (fst (apply_or_record_accusation clk (ev_subject e) (ev_reporter e) (ev_reason e) (ev_timestamp e) n))"
      by (rule numbers_ok_frame [OF ok]) simp_all
    then show ?thesis using MisconductIn by (metis handle.simps(3) prod.collapse)
  next
    case (BatchProposalIn k h r t)
    then show ?thesis using ok
      by (auto simp: numbers_ok_def record_batch_proposal_def split: prod.splits option.splits)
  next
    case (ProposeBatch k ids)
    then show ?thesis using ok
      by (auto simp: numbers_ok_def propose_batch_def record_batch_proposal_def Let_def split: prod.splits option.splits)
  next
    case (ChainStatusIn st)
    then show ?thesis using ok by (simp add: numbers_ok_def)
  next
    case (OriginTimeQuery i)
    then show ?thesis using earliest_witness_total [OF L est, of i] ok
      by (auto simp: earliest_estimate_ms_def numbers_ok_def)
  next
    case (CompareQuery i j)
    then show ?thesis using compare_orders_total [OF L est, of "me_sha E" i j] ok by (auto simp: numbers_ok_def)
  next
    case (EarliestWitnessQuery i)
    then show ?thesis using earliest_witness_total [OF L est, of i] ok by (auto simp: numbers_ok_def)
  next
    case (HopWitnessIn w i h t)
    have "numbers_ok E (fst (on_hop_witness E clk i h t n))"
      unfolding on_hop_witness_def Let_def case_prod_beta
      by (intro numbers_ok_matched [OF L] numbers_ok_frame [OF ok]) simp_all
    then show ?thesis using HopWitnessIn by (metis handle.simps(10) prod.collapse)
  next
    case (EchoIn p ids)
    have "numbers_ok E (fst (on_echo E clk p ids n))" by (rule numbers_ok_frame [OF ok]) simp_all
    then show ?thesis using EchoIn by (metis handle.simps(11) prod.collapse)
  next
    case EchoTick
    then show ?thesis using ok by simp
  next
    case PingTick
    have "numbers_ok E (fst (on_ping_tick clk n))" by (rule numbers_ok_ping_tick [OF ok clk])
    then show ?thesis using PingTick by (metis handle.simps(13) prod.collapse)
  next
    case HeartbeatTick
    have "numbers_ok E (fst (on_heartbeat_tick E clk n))"
      unfolding on_heartbeat_tick_def Let_def case_prod_beta fst_conv by (rule numbers_ok_frame [OF ok]) simp_all
    then show ?thesis using HeartbeatTick by (metis handle.simps(14) prod.collapse)
  qed
qed

lemma numbers_ok_run:
  assumes "lru_laws (me_estimates E)" "numbers_ok E n" "\<forall>e \<in> set evs. sane_event e"
  shows "\<exists>n' out. run_mesh E evs n = Some (n', out) \<and> numbers_ok E n'"
  using assms(2,3)
proof (induction evs arbitrary: n)
  case (Cons e evs)
  obtain clk ev where e: "e = (clk, ev)" by (cases e)
  obtain n' out where step: "handle E clk ev n = Some (n', out)" "numbers_ok E n'"
    using numbers_ok_turn [OF assms(1) Cons.prems(1)] Cons.prems(2) e by force
  obtain n'' out' where "run_mesh E evs n' = Some (n'', out')" "numbers_ok E n''"
    using Cons.IH [OF step(2)] Cons.prems(2) by auto
  then show ?case using step(1) e by simp
qed simp

lemma new_mesh_node_fields:
  "n_node_id (new_mesh_node E cfg) = cf_node_id cfg"
  "n_latency_stats (new_mesh_node E cfg) = new_latency_stats"
  "n_origin_time (new_mesh_node E cfg) = new_estimator (me_estimates E)"
  "n_pending_pings (new_mesh_node E cfg) = []"
  "ht_last_heartbeat (n_heartbeat (new_mesh_node E cfg)) = []"
  "accusations (n_misconduct_quorum (new_mesh_node E cfg)) = []"
  "mq_min_reporters (n_misconduct_quorum (new_mesh_node E cfg)) = 2"
  by (simp_all add: new_mesh_node_def Let_def case_prod_beta new_tracker_def new_misconduct_quorum_def)

section \<open>The mesh node relays as the flood does\<close>

text \<open>\<^verbatim>\<open>bincode\<close> writes a message and reads it back.\<close>

definition flood_codec_ok :: "('c, 'v, 'u, 'h, 'e) mesh_env \<Rightarrow> flood_message \<Rightarrow> bool" where
  "flood_codec_ok E m \<longleftrightarrow> (\<exists>b. me_ser_flood E m = Some b \<and> me_de_flood E b = Some m)"

text \<open>The orders a peer with the same mesh key reads out of what a turn sent, with the peer each goes to.\<close>

definition flood_of :: "('c, 'v, 'u, 'h, 'e) mesh_env \<Rightarrow> mesh_clock \<Rightarrow> bytes32 \<Rightarrow> node_id \<Rightarrow> mesh_effect \<Rightarrow> (node_id \<times> flood_message) list" where
  "flood_of E clk key own eff = (case eff of
     Sent target w \<Rightarrow> List.map_filter (\<lambda>ev. case ev of FloodIn _ m \<Rightarrow> Some (target, m) | _ \<Rightarrow> None) (fst (route E clk key own w))
   | _ \<Rightarrow> [])"

definition floods_in :: "('c, 'v, 'u, 'h, 'e) mesh_env \<Rightarrow> mesh_clock \<Rightarrow> bytes32 \<Rightarrow> node_id \<Rightarrow> mesh_effect list \<Rightarrow> (node_id \<times> flood_message) list" where
  "floods_in E clk key own out = concat (map (flood_of E clk key own) out)"

lemma floods_in_append [simp]: "floods_in E clk key own (xs @ ys) = floods_in E clk key own xs @ floods_in E clk key own ys"
  by (simp add: floods_in_def)

lemma floods_in_none: "(\<And>eff. eff \<in> set out \<Longrightarrow> flood_of E clk key own eff = []) \<Longrightarrow> floods_in E clk key own out = []"
  by (simp add: floods_in_def)

lemma route_forward:
  assumes "aead_laws (me_aead E)" "flood_codec_ok E m" "length nonce = 12"
  shows "route E clk key own (forward_packet E nonce key m) = ([FloodIn own m], [])"
proof -
  obtain b where b: "me_ser_flood E m = Some b" "me_de_flood E b = Some m" using assms(2) unfolding flood_codec_ok_def by blast
  show ?thesis
  proof (cases "encrypt_packet (me_aead E) nonce key b")
    case (Inl e)
    then show ?thesis using b by (simp add: forward_packet_def route_def Let_def)
  next
    case (Inr p)
    then show ?thesis using b decrypt_encrypt [OF assms(1,3) Inr] by (simp add: forward_packet_def route_def Let_def)
  qed
qed

lemma report_floods [simp]: "floods_in E c key own (snd (report_misconduct clk s r n)) = []"
  by (rule floods_in_none)
    (auto simp: report_misconduct_def apply_or_record_accusation_def Let_def case_prod_beta flood_of_def route_def List.map_filter_simps
      split: if_splits)

lemma hop_latency_floods [simp]: "floods_in E c key own (snd (handle_hop_latency_result E' clk i h t n)) = []"
  by (simp add: handle_hop_latency_result_def Let_def case_prod_beta floods_in_def [of _ _ _ _ "[]"])

lemma arrival_floods [simp]:
  "floods_in E c key own [FloodObserved p m] = []"
  "floods_in E c key own (map (\<lambda>p. Sent (pe_id p) (HopWitness i k t)) ps) = []"
  "floods_in E c key own [] = []"
  by (simp_all add: floods_in_def flood_of_def route_def List.map_filter_simps)

lemma note_arrival_floods [simp]: "floods_in E c key own (snd (note_arrival E' clk p m n)) = []"
  by (simp add: note_arrival_def Let_def case_prod_beta split: option.splits)

lemma relay_floods:
  assumes "aead_laws (me_aead E)" "\<forall>i. length (mc_nonce clk i) = 12"
    and "flood_codec_ok E (m\<lparr>f_hop_count := f_hop_count m + 1, f_path := f_path m @ [fl_node_id (n_flood n)]\<rparr>)"
  shows "floods_in E c (n_mesh_key n) own (snd (relay_flood E clk p m n)) =
     (case snd (on_receive (me_flood E) (mc_secs clk) m p (now_ms clk) (n_flood n)) of Inr fwds \<Rightarrow> fwds | Inl _ \<Rightarrow> [])"
proof -
  have each: "floods_in E c key own (map (\<lambda>(i, target, fwd). Sent target (forward_packet E (mc_nonce clk i) key fwd)) (enumerate k fwds)) = fwds"
    if "\<forall>(_, fwd) \<in> set fwds. flood_codec_ok E fwd" for key k fwds
    using that
  proof (induction fwds arbitrary: k)
    case (Cons f fwds)
    obtain target fwd where f: "f = (target, fwd)" by (cases f)
    have "route E c key own (forward_packet E (mc_nonce clk k) key fwd) = ([FloodIn own fwd], [])"
      using assms(1,2) Cons.prems f by (intro route_forward) auto
    then have "flood_of E c key own (Sent target (forward_packet E (mc_nonce clk k) key fwd)) = [(target, fwd)]"
      by (simp add: flood_of_def List.map_filter_simps)
    then show ?case using Cons.IH [of "Suc k"] Cons.prems by (simp add: f floods_in_def)
  qed (simp add: floods_in_def)
  show ?thesis
  proof (cases "on_receive (me_flood E) (mc_secs clk) m p (now_ms clk) (n_flood n)")
    case (Pair fl r)
    show ?thesis
    proof (cases r)
      case (Inr fwds)
      then have "fwds = forwards_of m (n_flood n)"
        using on_receive_forwards [of "me_flood E" "mc_secs clk" m p "now_ms clk" "n_flood n" fwds] Pair by simp
      then have "\<forall>(_, fwd) \<in> set fwds. flood_codec_ok E fwd" using assms(3) by (auto simp: forwards_of_def)
      from each [OF this] show ?thesis using Pair Inr by (simp add: relay_flood_def Let_def)
    next
      case (Inl e)
      then show ?thesis using Pair by (cases e) (simp_all add: relay_flood_def Let_def)
    qed
  qed
qed

section \<open>Echo answers\<close>

definition rally ::
    "('c, 'v, 'u, 'h, 'e) mesh_env \<Rightarrow> mesh_clock \<Rightarrow>
     (('a, 'c, 'v, 'u, 'h, 'e) mesh_node \<times> 'a) \<times> (('a, 'c, 'v, 'u, 'h, 'e) mesh_node \<times> 'a) \<times> bytes \<Rightarrow>
     ((('a, 'c, 'v, 'u, 'h, 'e) mesh_node \<times> 'a) \<times> (('a, 'c, 'v, 'u, 'h, 'e) mesh_node \<times> 'a) \<times> bytes) option" where
  "rally E clk st = (case st of ((x, ax), (y, ay), buf) \<Rightarrow>
     (case on_datagram E clk ay buf x of
        Some (x, [(dest, answer)]) \<Rightarrow> if dest = ay then Some ((y, ay), (x, ax), answer) else None
      | _ \<Rightarrow> None))"

fun rallies ::
    "('c, 'v, 'u, 'h, 'e) mesh_env \<Rightarrow> mesh_clock \<Rightarrow> nat \<Rightarrow>
     (('a, 'c, 'v, 'u, 'h, 'e) mesh_node \<times> 'a) \<times> (('a, 'c, 'v, 'u, 'h, 'e) mesh_node \<times> 'a) \<times> bytes \<Rightarrow>
     ((('a, 'c, 'v, 'u, 'h, 'e) mesh_node \<times> 'a) \<times> (('a, 'c, 'v, 'u, 'h, 'e) mesh_node \<times> 'a) \<times> bytes) option" where
  "rallies E clk 0 st = Some st"
| "rallies E clk (Suc k) st = Option.bind (rally E clk st) (rallies E clk k)"

definition knows :: "('a, 'c, 'v, 'u, 'h, 'e) mesh_node \<Rightarrow> 'a \<Rightarrow> bool" where
  "knows x addr \<longleftrightarrow> map_of (tr_peer_addrs (n_transport x)) (resolve_sender addr (n_transport x)) = Some addr"

lemma empty_echo_answered:
  assumes C: "codec_laws (me_codec E)" "bc_serialize (me_codec E) (EchoResponse [] []) = Some payload"
    and "knows x addr" "contents (me_codec E) buf = Some (EchoResponse [] missing)"
  shows "on_datagram E clk addr buf x = Some (x, [(addr, msg_type (EchoResponse [] []) # payload)])"
    and "contents (me_codec E) (msg_type (EchoResponse [] []) # payload) = Some (EchoResponse [] [])"
proof -
  let ?peer = "resolve_sender addr (n_transport x)"
  have "recv (fe_ed (me_flood E)) (me_codec E) addr buf (n_transport x) = Inr (?peer, EchoResponse [] missing)"
    using assms(4) by (simp add: recv_contents authentic_def)
  moreover have sent: "send (me_codec E) ?peer (EchoResponse [] []) (n_transport x) = Inr (addr, msg_type (EchoResponse [] []) # payload)"
    using assms(2,3) by (simp add: send_def knows_def)
  ultimately show "on_datagram E clk addr buf x = Some (x, [(addr, msg_type (EchoResponse [] []) # payload)])"
    by (simp add: on_datagram_def route_def on_echo_def Let_def datagrams_def List.map_filter_simps)
  show "contents (me_codec E) (msg_type (EchoResponse [] []) # payload) = Some (EchoResponse [] [])"
    by (rule send_contents(1) [OF C(1) sent]) simp
qed

lemma rallies_forever:
  assumes "codec_laws (me_codec E)" "bc_serialize (me_codec E) (EchoResponse [] []) = Some payload"
    and "knows x ay" "knows y ax" "contents (me_codec E) buf = Some (EchoResponse [] missing)"
  shows "\<exists>st. rallies E clk k ((x, ax), (y, ay), buf) = Some st"
  using assms(3-5)
proof (induction k arbitrary: x ax y ay buf missing)
  case (Suc k)
  note answered = empty_echo_answered [OF assms(1,2) Suc.prems(1,3)]
  have "rally E clk ((x, ax), (y, ay), buf) = Some ((y, ay), (x, ax), msg_type (EchoResponse [] []) # payload)"
    by (simp add: rally_def answered(1))
  then show ?case using Suc.IH [OF Suc.prems(2,1) answered(2)] by simp
qed simp

section \<open>Properties\<close>


text \<open>C21. The event loop does not panic: with clocks that read at most \<open>2 ^ 40\<close> seconds and pongs stamped with such
  a clock, every run of a mesh node goes through, whatever its peers send: no latency sample or time
  estimate becomes NaN, so the comparisons of order times are defined.\<close>

theorem mesh_loop_never_panics:
  assumes "lru_laws (me_estimates E)"
    and "\<forall>(clk, ev) \<in> set evs. sane_clock clk
       \<and> (\<forall>p k t. ev = PongIn p k t \<longrightarrow> (\<exists>clk'. sane_clock clk' \<and> t = now_ms clk'))"
  shows "run_mesh E evs (new_mesh_node E cfg) \<noteq> None"
proof -
  have "numbers_ok E (new_mesh_node E cfg)"
    by (simp add: numbers_ok_def new_mesh_node_fields stats_ok_def new_latency_stats_def estimates_ok_def new_estimator_def
        lru_peekD(6) [OF assms(1)])
  moreover have "\<forall>e \<in> set evs. sane_event e" using assms(2) by (auto simp: sane_event_def)
  ultimately show ?thesis using numbers_ok_run [OF assms(1)] by fastforce
qed

text \<open>C8. The mesh node implements the flood: handling a flood changes its relay exactly as the relay's own
  operation does, and the orders that peers with the same mesh key read from what it sends, encrypted
  or not, are exactly the relay's forwards, each at its target.\<close>

theorem mesh_refines_flood:
  assumes "aead_laws (me_aead E)" "\<forall>i. length (mc_nonce clk i) = 12"
    and "flood_codec_ok E (msg\<lparr>f_hop_count := f_hop_count msg + 1, f_path := f_path msg @ [fl_node_id (n_flood n)]\<rparr>)"
    and "handle E clk (FloodIn sender msg) n = Some (n', out)"
  shows "n_flood n' = fst (on_receive (me_flood E) (mc_secs clk) msg sender (now_ms clk) (n_flood n))
     \<and> floods_in E clk' (n_mesh_key n) own out =
         (case snd (on_receive (me_flood E) (mc_secs clk) msg sender (now_ms clk) (n_flood n)) of Inr fwds \<Rightarrow> fwds | Inl _ \<Rightarrow> [])"
proof -
  let ?n1 = "fst (note_arrival E clk sender msg n)"
  have n': "n' = fst (relay_flood E clk sender msg ?n1)"
    and out: "out = snd (note_arrival E clk sender msg n) @ snd (relay_flood E clk sender msg ?n1)"
    using assms(4) by (auto simp: on_flood_def Let_def case_prod_beta)
  have "n_flood n' = fst (on_receive (me_flood E) (mc_secs clk) msg sender (now_ms clk) (n_flood n))"
    unfolding n' by (simp add: relay_flood_def Let_def case_prod_beta split: sum.splits flood_error.splits)
  then show ?thesis using relay_floods [OF assms(1,2), of msg ?n1 clk' own sender] assms(3) unfolding out by simp
qed

text \<open>Failure detection is inert: in every run of a mesh node no heartbeat is ever recorded, so no peer is
  marked dead and the routing table stays the configured one.\<close>

theorem peers_are_never_marked_dead:
  assumes "run_mesh E evs (new_mesh_node E cfg) = Some (n, out)"
  shows "ht_last_heartbeat (n_heartbeat n) = []
     \<and> fl_routing_table (n_flood n) = fl_routing_table (n_flood (new_mesh_node E cfg))"
  using assms
proof (induction rule: run_mesh_invariant)
  case start
  then show ?case by (simp add: new_mesh_node_fields)
next
  case (turn es clk ev n n' o' o'')
  then show ?case using no_heartbeats_handle [of E clk ev n n' o''] by simp
qed

text \<open>An empty echo answer goes back and forth without end: once a datagram with an echo answer that lists no
  present order reaches one of two nodes that know each other's address, every answer to it is again
  such a datagram, for any number of rounds.\<close>

theorem empty_echo_bounces_forever:
  assumes "codec_laws (me_codec E)" "bc_serialize (me_codec E) (EchoResponse [] []) \<noteq> None"
    and "map_of (tr_peer_addrs (n_transport x)) (resolve_sender ay (n_transport x)) = Some ay"
    and "map_of (tr_peer_addrs (n_transport y)) (resolve_sender ax (n_transport y)) = Some ax"
    and "contents (me_codec E) buf = Some (EchoResponse [] missing)"
  shows "rallies E clk k ((x, ax), (y, ay), buf) \<noteq> None"
  using rallies_forever [OF assms(1) _ _ _ assms(5)] assms(2-4) unfolding knows_def by fastforce

section \<open>A node with one peer\<close>

definition map_lru :: "('k \<Rightarrow> 'v option, 'k, 'v) lru_ops" where
  "map_lru = \<lparr>lru_new = (\<lambda>_ _. None), lru_contains = (\<lambda>k c. c k \<noteq> None), lru_get = (\<lambda>k c. (c k, c)),
     lru_put = (\<lambda>k v c. c(k \<mapsto> v)), lru_update = (\<lambda>k f c. c(k := map_option f (c k)))\<rparr>"

lemma map_lru_laws: "lru_laws map_lru"
  by (simp add: lru_laws_def lru_peek_def map_lru_def)

definition demo_forwarded :: flood_message where
  "demo_forwarded = (new_message 1 UsEast1 (Fin 0) demo_flooded)\<lparr>f_hop_count := 1, f_path := [1, 1]\<rparr>"

definition demo_mesh_env :: "(unit, unit, bytes32 \<Rightarrow> unit option, bytes32 \<Rightarrow> (node_id \<times> f64 \<times> bool) list option, bytes32 \<Rightarrow> estimate list option) mesh_env" where
  "demo_mesh_env =
     \<lparr>me_flood = demo_flood_env,
      me_codec = \<lparr>bc_serialize = (\<lambda>msg. if msg = EchoResponse [] [] then Some [7] else None),
        bc_deserialize = (\<lambda>bs. if bs = [7] then Some (EchoResponse [] []) else None)\<rparr>,
      me_aead = \<lparr>aead_encrypt = (\<lambda>_ _ text. Some text), aead_decrypt = (\<lambda>_ _ text. Some text)\<rparr>,
      me_ser_flood = (\<lambda>m. if m = demo_forwarded then Some [9] else None),
      me_de_flood = (\<lambda>b. if b = [9] then Some demo_forwarded else None),
      me_orders = map_lru, me_order_keys = (\<lambda>_. []), me_verdicts = map_lru, me_estimates = map_lru,
      me_sha = (\<lambda>m. m), me_sqrt = (\<lambda>x. x), me_fmt = (\<lambda>_. [])\<rparr>"

definition demo_config :: "string mesh_config" where
  "demo_config =
     \<lparr>cf_node_id = 1, cf_region = UsEast1, cf_peers = [(2, ''b'', zero32)], cf_node_key = None,
      cf_mesh_encryption_key = Some (replicate 32 5), cf_heartbeat_interval_ms = Fin 100, cf_max_missed_heartbeats = 3,
      cf_schedule = None, cf_artificial_forward_delay_ms = None, cf_require_staked_reporters = False,
      cf_misconduct_stake_threshold = 0\<rparr>"

abbreviation demo_mesh_node where
  "demo_mesh_node \<equiv> new_mesh_node demo_mesh_env demo_config"

definition demo_mesh_clock :: mesh_clock where
  "demo_mesh_clock = \<lparr>mc_now = Fin 0, mc_secs = 0, mc_nanos = 0, mc_nonce = (\<lambda>_. replicate 12 0)\<rparr>"

definition demo_report :: "node_id \<Rightarrow> misconduct_event" where
  "demo_report r = \<lparr>ev_from = 2, ev_reporter = r, ev_subject = 4, ev_reason = [], ev_timestamp = Fin 0\<rparr>"

lemma demo_node_eq:
  "n_node_id demo_mesh_node = 1" "n_require_staked_reporters demo_mesh_node = False"
  "n_misconduct_quorum demo_mesh_node = new_misconduct_quorum 2 (Fin 0) (Fin 60)"
  "n_mesh_key demo_mesh_node = replicate 32 5"
  "n_flood demo_mesh_node = new_flood demo_flood_env 1 UsEast1
     \<lparr>upstream_peers = [], downstream_peers = [demo_peer 2], zone_peers = [demo_peer 2]\<rparr> default_schedule"
  "tr_peer_addrs (n_transport demo_mesh_node) = [(2, ''b'')]"
  by (simp_all add: new_mesh_node_def demo_config_def demo_mesh_env_def add_peer_def demo_peer_def register_peer_def bind_transport_def Let_def)


theorem mesh_loop_never_panics_witness:
  "run_mesh demo_mesh_env [(demo_mesh_clock, PingTick), (demo_mesh_clock, PongIn 2 0 (now_ms demo_mesh_clock)),
     (demo_mesh_clock, OriginTimeQuery zero32)] demo_mesh_node \<noteq> None"
proof (rule mesh_loop_never_panics)
  show "lru_laws (me_estimates demo_mesh_env)" by (simp add: demo_mesh_env_def map_lru_laws)
  have "sane_clock demo_mesh_clock" by (simp add: sane_clock_def demo_mesh_clock_def)
  then show "\<forall>(clk, ev) \<in> set [(demo_mesh_clock, PingTick), (demo_mesh_clock, PongIn 2 0 (now_ms demo_mesh_clock)),
      (demo_mesh_clock, OriginTimeQuery zero32)].
      sane_clock clk \<and> (\<forall>p k t. ev = PongIn p k t \<longrightarrow> (\<exists>clk'. sane_clock clk' \<and> t = now_ms clk'))" by auto
qed

theorem mesh_refines_flood_witness:
  "\<exists>n' out. handle demo_mesh_env demo_mesh_clock (FloodIn 1 (new_message 1 UsEast1 (Fin 0) demo_flooded)) demo_mesh_node = Some (n', out)
     \<and> floods_in demo_mesh_env demo_mesh_clock (replicate 32 5) 2 out = [(2, demo_forwarded)]"
proof -
  let ?msg = "new_message 1 UsEast1 (Fin 0) demo_flooded"
  obtain n' out where run: "handle demo_mesh_env demo_mesh_clock (FloodIn 1 ?msg) demo_mesh_node = Some (n', out)" by fastforce
  have flood: "me_flood demo_mesh_env = demo_flood_env" by (simp add: demo_mesh_env_def)
  have laws: "aead_laws (me_aead demo_mesh_env)" "\<forall>i. length (mc_nonce demo_mesh_clock i) = 12"
    by (simp_all add: aead_laws_def demo_mesh_env_def demo_mesh_clock_def)
  have codec: "flood_codec_ok demo_mesh_env (?msg\<lparr>f_hop_count := f_hop_count ?msg + 1, f_path := f_path ?msg @ [fl_node_id (n_flood demo_mesh_node)]\<rparr>)"
  proof -
    have "fl_node_id (n_flood demo_mesh_node) = 1" by (simp add: demo_node_eq new_flood_def)
    then show ?thesis by (simp add: flood_codec_ok_def demo_mesh_env_def demo_forwarded_def new_message_def)
  qed
  have "accepts demo_flood_env 0 (Fin 0) ?msg (n_flood demo_mesh_node)"
    using demo_on_time(1) demo_acceptable
    by (simp add: demo_node_eq accepts_def relayable_def new_flood_def demo_flood_env_def fresh_nonce_def new_validator_def demo_packet_def new_message_def)
  then have "snd (on_receive demo_flood_env 0 ?msg 1 (Fin 0) (n_flood demo_mesh_node)) = Inr (forwards_of ?msg (n_flood demo_mesh_node))"
    using on_receive_forwards [of demo_flood_env 0 ?msg 1 "Fin 0" "n_flood demo_mesh_node"]
    by (simp add: demo_node_eq new_flood_def default_schedule_def new_message_def)
  moreover have "forwards_of ?msg (n_flood demo_mesh_node) = [(2, demo_forwarded)]"
    by (simp add: demo_node_eq forwards_of_def new_flood_def demo_peer_def new_message_def demo_forwarded_def)
  ultimately have "floods_in demo_mesh_env demo_mesh_clock (n_mesh_key demo_mesh_node) 2 out = [(2, demo_forwarded)]"
    using mesh_refines_flood [OF laws codec run, of demo_mesh_clock 2]
    by (simp add: flood now_ms_def demo_mesh_clock_def)
  then show ?thesis using run by (simp add: demo_node_eq)
qed

theorem peers_are_never_marked_dead_witness:
  "\<exists>n out. run_mesh demo_mesh_env [(demo_mesh_clock, HeartbeatTick)] demo_mesh_node = Some (n, out)
     \<and> fl_routing_table (n_flood n) = fl_routing_table (n_flood demo_mesh_node)"
proof -
  obtain n out where run: "run_mesh demo_mesh_env [(demo_mesh_clock, HeartbeatTick)] demo_mesh_node = Some (n, out)" by fastforce
  then show ?thesis using peers_are_never_marked_dead [OF run] by blast
qed

abbreviation demo_mesh_peer where
  "demo_mesh_peer \<equiv> new_mesh_node demo_mesh_env (demo_config\<lparr>cf_node_id := 2, cf_peers := [(1, ''a'', zero32)]\<rparr>)"

theorem empty_echo_bounces_forever_witness:
  "rallies demo_mesh_env demo_mesh_clock 1000 ((demo_mesh_node, ''a''), (demo_mesh_peer, ''b''), [7, 7]) \<noteq> None"
proof (rule empty_echo_bounces_forever)
  show "codec_laws (me_codec demo_mesh_env)" by (simp add: codec_laws_def demo_mesh_env_def)
  show "bc_serialize (me_codec demo_mesh_env) (EchoResponse [] []) \<noteq> None" by (simp add: demo_mesh_env_def)
  show "map_of (tr_peer_addrs (n_transport demo_mesh_node)) (resolve_sender ''b'' (n_transport demo_mesh_node)) = Some ''b''"
    by (simp add: demo_node_eq resolve_sender_def)
  have "tr_peer_addrs (n_transport demo_mesh_peer) = [(1, ''a'')]"
    by (simp add: new_mesh_node_def demo_config_def add_peer_def register_peer_def bind_transport_def Let_def)
  then show "map_of (tr_peer_addrs (n_transport demo_mesh_peer)) (resolve_sender ''a'' (n_transport demo_mesh_peer)) = Some ''a''"
    by (simp add: resolve_sender_def)
  show "contents (me_codec demo_mesh_env) [7, 7] = Some (EchoResponse [] [])"
    by (simp add: contents_def demo_mesh_env_def PLAIN_TYPES_def)
qed

section \<open>Where the loop departs from its comments\<close>

text \<open>A probe for an order the probed node lacks flags the node that asked.\<close>

lemma echo_flags_the_asker:
  assumes "\<not> lru_contains (fe_received (me_flood E)) i (fl_received_cache (n_flood n))"
  shows "peer_flags (n_censorship (fst (on_echo E clk asker [i] n))) = peer_flags (fst (flag_peer asker (mc_secs clk) (n_censorship n)))"
  using assms by (simp add: on_echo_def Let_def case_prod_beta reported_missing_def report_misconduct_def apply_or_record_accusation_def)

text \<open>A pong counts for whoever sent it, not for the peer the ping went to, and takes that peer's sample away.\<close>

lemma pong_credited_to_sender:
  assumes "map_of (n_pending_pings n) k = Some t"
  shows "n_latency_stats (on_pong p k t' n) = record_rtt p (fsub t' t) (n_latency_stats n)"
    and "n_latency_stats (on_pong q k t'' (on_pong p k t' n)) = n_latency_stats (on_pong p k t' n)"
  using assms by (simp_all add: on_pong_def delete_conv')

text \<open>Once there is a quorum, every repeated report lowers the reputation again.\<close>

lemma alist_update_twice: "AList.update k v (AList.update k v m) = AList.update k v m"
  by (induction m) auto

lemma repeated_report_confirms_again:
  assumes "fst (snd (record_accusation s r w t q))" "flt (fsub t t) (mq_window_secs q)"
  shows "fst (snd (record_accusation s r w t (fst (record_accusation s r w t q))))"
proof -
  define live where "live = (\<lambda>(_ :: node_id) (_ :: f64, last_seen). flt (fsub t last_seen) (mq_window_secs q))"
  define rs where "rs = AList.update r (w, t) (hm_retain live (case map_of (accusations q) s of Some rs \<Rightarrow> rs | None \<Rightarrow> []))"
  have "\<forall>(k, v) \<in> set rs. live k v"
    using assms(2) unfolding rs_def by (auto simp: hm_retain_def live_def dest!: update_set)
  then have "hm_retain live rs = rs" unfolding hm_retain_def by (simp add: filter_id_conv case_prod_beta)
  moreover have "AList.update r (w, t) rs = rs" unfolding rs_def by (rule alist_update_twice)
  ultimately show ?thesis
    using assms(1) by (simp add: record_accusation_def Let_def update_conv' flip: live_def rs_def)
qed

text \<open>The heartbeat of a tick is signed over the id of its recipient, but checked over the id of its sender.\<close>

lemma heartbeat_signs_recipient:
  assumes "Sent p (SignedHeartbeat i t k sg) \<in> set (snd (on_heartbeat_tick E clk n))"
  shows "i = n_node_id n \<and> sg = sign_heartbeat (fe_ed (me_flood E)) p t (n_transport n)"
  using assms by (auto simp: on_heartbeat_tick_def Let_def case_prod_beta)

end
