(* ===== verification/Simulator.thy ===== *)
theory Simulator
  imports Flood "HOL-Library.While_Combinator"
begin

text \<open>
  The discrete-event simulator of the flood (\<^verbatim>\<open>simulator\<close> crate): its latency table, events, the network it sets up
  for a scenario, and the event loop of \<^verbatim>\<open>main\<close>.

  Random draws are the fields of \<open>rng_ops\<close> and the event queue those of \<open>heap_ops\<close>; \<^verbatim>\<open>std\<close> leaves open which of
  several earliest events a \<^verbatim>\<open>BinaryHeap\<close> yields. An index out of bounds ends the loop in a state marked
  \<open>sm_panicked\<close>. The report printed and written after the loop is not modelled beyond the
  measurements it is computed from.
\<close>

section \<open>Latency\<close>

record latency_model =
  latencies :: "(region \<times> region, f64) hash_map"

definition new_latency_model :: latency_model where
  "new_latency_model = \<lparr>latencies = fold (\<lambda>(k, v). AList.update k v)
     [((UsEast1, UsEast1), lit 5), ((EuWest1, EuWest1), lit 5), ((ApSoutheast1, ApSoutheast1), lit 5),
      ((UsEast1, EuWest1), lit 75), ((EuWest1, UsEast1), lit 75),
      ((UsEast1, ApSoutheast1), lit 150), ((ApSoutheast1, UsEast1), lit 150),
      ((EuWest1, ApSoutheast1), lit 220), ((ApSoutheast1, EuWest1), lit 220)] []\<rparr>"

definition local_latency_model :: latency_model where
  "local_latency_model = \<lparr>latencies = fold (\<lambda>(k, v). AList.update k v)
     [((UsEast1, UsEast1), lit 2), ((EuWest1, EuWest1), lit 2), ((ApSoutheast1, ApSoutheast1), lit 2),
      ((UsEast1, EuWest1), lit 25), ((EuWest1, UsEast1), lit 25),
      ((UsEast1, ApSoutheast1), lit 15), ((ApSoutheast1, UsEast1), lit 15),
      ((EuWest1, ApSoutheast1), lit 35), ((ApSoutheast1, EuWest1), lit 35)] []\<rparr>"

definition get_latency :: "region \<Rightarrow> region \<Rightarrow> latency_model \<Rightarrow> f64" where
  "get_latency r r' self = (case map_of (latencies self) (r, r') of Some l \<Rightarrow> l | None \<Rightarrow> lit 100)"

section \<open>Events\<close>

datatype sim_event =
    OrderGenerated order node_id
  | PacketDeliver node_id flood_message
  | NodeStatusChange node_id bool

record scheduled_event =
  se_time :: f64
  se_event :: sim_event

text \<open>The order of the heap, whose greatest element is the earliest event; NaN compares equal.\<close>

definition event_cmp :: "scheduled_event \<Rightarrow> scheduled_event \<Rightarrow> ordering" where
  "event_cmp self other = (case partial_cmp (se_time other) (se_time self) of Some d \<Rightarrow> d | None \<Rightarrow> Equal)"

record node_info =
  ni_id :: node_id
  ni_region :: region
  ni_online :: bool

record measurement =
  ms_order_id :: bytes32
  ms_latency_ms :: f64
  ms_hops :: u8
  ms_source_region :: region
  ms_dest_region :: region

record 'q heap_ops =
  hp_new :: 'q
  hp_push :: "scheduled_event \<Rightarrow> 'q \<Rightarrow> 'q"
  hp_pop :: "'q \<Rightarrow> (scheduled_event \<times> 'q) option"
  hp_items :: "'q \<Rightarrow> scheduled_event list"

text \<open>A heap holds what was pushed and not popped; when the order is total, on times that are numbers, it
  yields a greatest element.\<close>

definition heap_laws :: "'q heap_ops \<Rightarrow> bool" where
  "heap_laws H \<longleftrightarrow> hp_items H (hp_new H) = []
     \<and> (\<forall>x q. mset (hp_items H (hp_push H x q)) = add_mset x (mset (hp_items H q)))
     \<and> (\<forall>q. hp_pop H q = None \<longleftrightarrow> hp_items H q = [])
     \<and> (\<forall>q x q'. hp_pop H q = Some (x, q') \<longrightarrow> mset (hp_items H q) = add_mset x (mset (hp_items H q'))
           \<and> ((\<forall>y \<in> set (hp_items H q). se_time y \<noteq> NaN) \<longrightarrow> (\<forall>y \<in> set (hp_items H q). event_cmp x y \<noteq> Less)))"

record 'r rng_ops =
  rng_bytes :: "'r \<Rightarrow> bytes32 \<times> 'r"
  rng_bool :: "'r \<Rightarrow> bool \<times> 'r"
  rng_range :: "u64 \<Rightarrow> u64 \<Rightarrow> 'r \<Rightarrow> u64 \<times> 'r"
  rng_index :: "u32 \<Rightarrow> 'r \<Rightarrow> u32 \<times> 'r"
  rng_time :: "'r \<Rightarrow> f64 \<times> 'r"
  rng_jitter :: "'r \<Rightarrow> f64 \<times> 'r"
  rng_secs :: "'r \<Rightarrow> u64 \<times> 'r"

text \<open>A draw from a range of node indices stays in it. \<open>rng_secs\<close> is the wall clock the validator reads.\<close>

definition rng_laws :: "'r rng_ops \<Rightarrow> bool" where
  "rng_laws R \<longleftrightarrow> (\<forall>n r. 0 < n \<longrightarrow> fst (rng_index R n r) < n)"

section \<open>The scenario\<close>

definition scenario_regions :: "string \<Rightarrow> (region \<times> nat) list" where
  "scenario_regions scenario =
     (if scenario = ''p2p'' then [(UsEast1, 1), (EuWest1, 1)] else [(UsEast1, 3), (EuWest1, 2), (ApSoutheast1, 5)])"

definition provision :: "(region \<times> nat) list \<Rightarrow> node_info list" where
  "provision rs = map (\<lambda>(i, r). \<lparr>ni_id = of_nat i, ni_region = r, ni_online = True\<rparr>)
     (enumerate 0 (concat (map (\<lambda>(r, n). replicate n r) rs)))"

definition is_bridge :: "string \<Rightarrow> region \<Rightarrow> nat \<Rightarrow> bool" where
  "is_bridge scenario r i \<longleftrightarrow> (r = UsEast1 \<and> i = 0) \<or> (r = EuWest1 \<and> (i = 3 \<or> scenario = ''p2p'')) \<or> (r = ApSoutheast1 \<and> i = 5)"

definition sim_routing :: "string \<Rightarrow> latency_model \<Rightarrow> node_info list \<Rightarrow> nat \<Rightarrow> routing_table" where
  "sim_routing scenario model nodes i =
     (let here = ni_region (nodes ! i)
      in fold (\<lambda>j rt.
           if i = j then rt
           else let there = ni_region (nodes ! j);
                    p = \<lparr>pe_id = of_nat j, pe_latency_ms = get_latency here there model, pe_last_heartbeat = lit 0, pe_health_score = lit 1\<rparr>
                in if here = there
                   then rt\<lparr>zone_peers := zone_peers rt @ [p], downstream_peers := downstream_peers rt @ [p],
                           upstream_peers := upstream_peers rt @ [p]\<rparr>
                   else if is_bridge scenario here i \<and> is_bridge scenario there j
                   then rt\<lparr>downstream_peers := downstream_peers rt @ [p]\<rparr> else rt)
         [0..<length nodes] \<lparr>upstream_peers = [], downstream_peers = [], zone_peers = []\<rparr>)"

definition sim_flood_nodes :: "('c, 'v) flood_env \<Rightarrow> string \<Rightarrow> latency_model \<Rightarrow> node_info list \<Rightarrow> ('c, 'v) relays" where
  "sim_flood_nodes E scenario model nodes =
     fold (\<lambda>i. AList.update (of_nat i) (new_flood E (of_nat i) (ni_region (nodes ! i)) (sim_routing scenario model nodes i) default_schedule))
       [0..<length nodes] []"

definition order_count :: "string \<Rightarrow> nat" where
  "order_count scenario = (if scenario = ''cold_start'' then 1 else if scenario = ''p2p'' then 10 else 1000)"

record ('c, 'v, 'q, 'r) sim =
  sm_nodes :: "node_info list"
  sm_flood_nodes :: "('c, 'v) relays"
  sm_queue :: 'q
  sm_rng :: 'r
  sm_injected :: "(bytes32, f64 \<times> node_id) hash_map"
  sm_now :: f64
  sm_measurements :: "measurement list"
  sm_total_deliveries :: usize
  sm_tracker :: heartbeat_tracker
  sm_panicked :: bool

definition inject_order ::
    "'q heap_ops \<Rightarrow> 'r rng_ops \<Rightarrow> string \<Rightarrow> nat \<Rightarrow> ('c, 'v, 'q, 'r) sim \<Rightarrow> ('c, 'v, 'q, 'r) sim" where
  "inject_order H R scenario k s =
     (let order_id = be_bytes (of_nat k :: u64) @ replicate 24 0;
          (trader, rng) = rng_bytes R (sm_rng s);
          (buy, rng) = rng_bool R rng;
          (price, rng) = rng_range R 3000 3200 rng;
          (amount, rng) = rng_range R 1 10 rng;
          ord = \<lparr>o_id = order_id, o_trader = trader, o_symbol = ''ETH-USD'', o_side = (if buy then Buy else Sell),
                 o_price = price, o_amount = amount, o_signature = [], o_nonce = of_nat k, o_expiry = 100000,
                 o_settlement_preference = Standard, o_settlement_requester = Seller\<rparr>;
          (source, rng) = (if scenario = ''cold_start'' \<or> scenario = ''churn'' then (0, rng)
                           else rng_index R (of_nat (length (sm_nodes s))) rng);
          (t, rng) = rng_time R rng
      in s\<lparr>sm_rng := rng, sm_injected := AList.update order_id (t, source) (sm_injected s),
           sm_queue := hp_push H \<lparr>se_time = t, se_event = OrderGenerated ord source\<rparr> (sm_queue s)\<rparr>)"

definition status_changes :: "string \<Rightarrow> scheduled_event list" where
  "status_changes scenario =
     (if scenario = ''churn'' then [\<lparr>se_time = lit 200, se_event = NodeStatusChange 2 False\<rparr>]
      else if scenario = ''default''
      then [\<lparr>se_time = lit 2000, se_event = NodeStatusChange 2 False\<rparr>, \<lparr>se_time = lit 5000, se_event = NodeStatusChange 2 True\<rparr>]
      else [])"

definition sim_start ::
    "('c, 'v) flood_env \<Rightarrow> 'q heap_ops \<Rightarrow> 'r rng_ops \<Rightarrow> string \<Rightarrow> bool \<Rightarrow> 'r \<Rightarrow> ('c, 'v, 'q, 'r) sim" where
  "sim_start E H R scenario use_local_profile rng =
     (let nodes = provision (scenario_regions scenario);
          model = (if use_local_profile then local_latency_model else new_latency_model);
          s = \<lparr>sm_nodes = nodes, sm_flood_nodes = sim_flood_nodes E scenario model nodes, sm_queue = hp_new H, sm_rng = rng,
               sm_injected = [], sm_now = lit 0, sm_measurements = [], sm_total_deliveries = 0,
               sm_tracker = new_tracker (lit 100) 3, sm_panicked = False\<rparr>;
          s = fold (inject_order H R scenario) [0..<order_count scenario] s
      in s\<lparr>sm_queue := fold (hp_push H) (status_changes scenario) (sm_queue s)\<rparr>)"

section \<open>The event loop\<close>

definition sim_node_at :: "node_id \<Rightarrow> node_info list \<Rightarrow> node_info option" where
  "sim_node_at n nodes = (if unat n < length nodes then Some (nodes ! unat n) else None)"

definition bandwidth_kbps :: "string \<Rightarrow> f64" where
  "bandwidth_kbps scenario = (if scenario = ''bandwidth'' then lit 5000 else lit 100000)"

fun schedule_forwards ::
    "'q heap_ops \<Rightarrow> 'r rng_ops \<Rightarrow> string \<Rightarrow> latency_model \<Rightarrow> region \<Rightarrow> (node_id \<times> flood_message) list \<Rightarrow>
     ('c, 'v, 'q, 'r) sim \<Rightarrow> ('c, 'v, 'q, 'r) sim" where
  "schedule_forwards H R scenario model from_region [] s = s"
| "schedule_forwards H R scenario model from_region ((to_peer, next_msg) # forwards) s =
     (case sim_node_at to_peer (sm_nodes s) of
        None \<Rightarrow> s\<lparr>sm_panicked := True\<rparr>
      | Some info \<Rightarrow>
          let base_lat = get_latency from_region (ni_region info) model;
              tx_delay = fmul (fdiv (lit 500) (bandwidth_kbps scenario)) (lit 1000);
              (jitter, rng) = rng_jitter R (sm_rng s);
              delay = fadd (fadd base_lat tx_delay) jitter
          in schedule_forwards H R scenario model from_region forwards
               (s\<lparr>sm_rng := rng,
                  sm_queue := hp_push H \<lparr>se_time = fadd (sm_now s) delay, se_event = PacketDeliver to_peer next_msg\<rparr> (sm_queue s)\<rparr>))"

definition drop_dead :: "node_id list \<Rightarrow> ('c, 'v) relays \<Rightarrow> ('c, 'v) relays" where
  "drop_dead dead nodes = fold (\<lambda>d nodes.
     if map_of nodes d \<noteq> None
     then map (\<lambda>(n, fl). (n, fl\<lparr>fl_routing_table := (fl_routing_table fl)\<lparr>downstream_peers :=
            filter (\<lambda>p. pe_id p \<noteq> d) (downstream_peers (fl_routing_table fl))\<rparr>\<rparr>)) nodes
     else nodes) dead nodes"

text \<open>One relay handles one message: the result of \<^verbatim>\<open>on_receive\<close> and the state with the relay put back.\<close>

definition sim_receive ::
    "('c, 'v) flood_env \<Rightarrow> 'r rng_ops \<Rightarrow> node_id \<Rightarrow> node_id \<Rightarrow> flood_message \<Rightarrow> ('c, 'v) deterministic_flood \<Rightarrow>
     ('c, 'v, 'q, 'r) sim \<Rightarrow> ('c, 'v, 'q, 'r) sim \<times> (flood_error + (node_id \<times> flood_message) list)" where
  "sim_receive E R node sender msg fl s =
     (let (secs, rng) = rng_secs R (sm_rng s);
          (fl, result) = on_receive E secs msg sender (sm_now s) fl
      in (s\<lparr>sm_rng := rng, sm_flood_nodes := AList.update node fl (sm_flood_nodes s)\<rparr>, result))"

definition on_order_generated ::
    "('c, 'v) flood_env \<Rightarrow> 'q heap_ops \<Rightarrow> 'r rng_ops \<Rightarrow> string \<Rightarrow> latency_model \<Rightarrow> order \<Rightarrow> node_id \<Rightarrow>
     ('c, 'v, 'q, 'r) sim \<Rightarrow> ('c, 'v, 'q, 'r) sim" where
  "on_order_generated E H R scenario model ord source s =
     (case sim_node_at source (sm_nodes s) of
        None \<Rightarrow> s\<lparr>sm_panicked := True\<rparr>
      | Some info \<Rightarrow>
          let msg = new_message source (ni_region info) (sm_now s) ord;
              s = s\<lparr>sm_tracker := on_heartbeat source (sm_now s) (sm_tracker s)\<rparr>
          in case map_of (sm_flood_nodes s) source of
               None \<Rightarrow> s
             | Some fl \<Rightarrow>
                 (case sim_receive E R source source msg fl s of
                    (s, Inr forwards) \<Rightarrow> schedule_forwards H R scenario model (ni_region info) forwards s
                  | (s, Inl _) \<Rightarrow> s))"

definition on_packet_deliver ::
    "('c, 'v) flood_env \<Rightarrow> 'q heap_ops \<Rightarrow> 'r rng_ops \<Rightarrow> string \<Rightarrow> latency_model \<Rightarrow> node_id \<Rightarrow> flood_message \<Rightarrow>
     ('c, 'v, 'q, 'r) sim \<Rightarrow> ('c, 'v, 'q, 'r) sim" where
  "on_packet_deliver E H R scenario model to_node msg s =
     (case sim_node_at to_node (sm_nodes s) of
        None \<Rightarrow> s\<lparr>sm_panicked := True\<rparr>
      | Some info \<Rightarrow>
          if \<not> ni_online info then s
          else let s = (case f_path msg of
                          source # _ \<Rightarrow> s\<lparr>sm_tracker := on_heartbeat source (sm_now s) (sm_tracker s)\<rparr> | [] \<Rightarrow> s)
               in case map_of (sm_flood_nodes s) to_node of
                    None \<Rightarrow> s
                  | Some fl \<Rightarrow>
                      let immediate_sender = (if f_path msg = [] then to_node else last (f_path msg))
                      in case sim_receive E R to_node immediate_sender msg fl s of
                           (s, Inr forwards) \<Rightarrow>
                             let s = s\<lparr>sm_total_deliveries := sm_total_deliveries s + 1\<rparr>;
                                 s = (case map_of (sm_injected s) (o_id (f_order msg)) of
                                        Some (gen_time, _) \<Rightarrow>
                                          s\<lparr>sm_measurements := sm_measurements s @
                                              [\<lparr>ms_order_id = o_id (f_order msg), ms_latency_ms = fsub (sm_now s) gen_time,
                                                ms_hops = f_hop_count msg, ms_source_region = f_source_region msg,
                                                ms_dest_region = ni_region info\<rparr>]\<rparr>
                                      | None \<Rightarrow> s)
                             in schedule_forwards H R scenario model (ni_region info) forwards s
                         | (s, Inl _) \<Rightarrow> s)"

definition on_status_change :: "node_id \<Rightarrow> bool \<Rightarrow> ('c, 'v, 'q, 'r) sim \<Rightarrow> ('c, 'v, 'q, 'r) sim" where
  "on_status_change node online s = (case sim_node_at node (sm_nodes s) of
     None \<Rightarrow> s\<lparr>sm_panicked := True\<rparr>
   | Some info \<Rightarrow> s\<lparr>sm_nodes := (sm_nodes s)[unat node := info\<lparr>ni_online := online\<rparr>]\<rparr>)"

definition sim_turn ::
    "('c, 'v) flood_env \<Rightarrow> 'q heap_ops \<Rightarrow> 'r rng_ops \<Rightarrow> string \<Rightarrow> latency_model \<Rightarrow> ('c, 'v, 'q, 'r) sim \<Rightarrow> ('c, 'v, 'q, 'r) sim" where
  "sim_turn E H R scenario model s = (case hp_pop H (sm_queue s) of
     None \<Rightarrow> s
   | Some (ev, queue) \<Rightarrow>
       let s = s\<lparr>sm_queue := queue, sm_now := se_time ev\<rparr>;
           (tracker, dead) = check_health (sm_now s) (sm_tracker s);
           s = s\<lparr>sm_tracker := tracker, sm_flood_nodes := drop_dead dead (sm_flood_nodes s)\<rparr>
       in case se_event ev of
            OrderGenerated ord source \<Rightarrow> on_order_generated E H R scenario model ord source s
          | PacketDeliver to_node msg \<Rightarrow> on_packet_deliver E H R scenario model to_node msg s
          | NodeStatusChange node online \<Rightarrow> on_status_change node online s)"

definition simulate ::
    "('c, 'v) flood_env \<Rightarrow> 'q heap_ops \<Rightarrow> 'r rng_ops \<Rightarrow> string \<Rightarrow> latency_model \<Rightarrow> ('c, 'v, 'q, 'r) sim \<Rightarrow> ('c, 'v, 'q, 'r) sim option" where
  "simulate E H R scenario model =
     while_option (\<lambda>s. \<not> sm_panicked s \<and> hp_pop H (sm_queue s) \<noteq> None) (sim_turn E H R scenario model)"

section \<open>Termination\<close>

fun event_rank :: "sim_event \<Rightarrow> nat" where
  "event_rank (OrderGenerated _ _) = 255"
| "event_rank (PacketDeliver _ msg) = 255 - unat (f_hop_count msg)"
| "event_rank (NodeStatusChange _ _) = 0"

abbreviation rank_of :: "scheduled_event \<Rightarrow> nat" where
  "rank_of e \<equiv> event_rank (se_event e)"

text \<open>What a turn adds to the queue.\<close>

definition adds :: "'q heap_ops \<Rightarrow> 'q \<Rightarrow> scheduled_event list \<Rightarrow> 'q \<Rightarrow> bool" where
  "adds H q evs q' \<longleftrightarrow> mset (hp_items H q') = mset (hp_items H q) + mset evs"

lemma adds_refl [simp]: "adds H q [] q"
  by (simp add: adds_def)

lemma schedule_forwards_adds:
  assumes "heap_laws H"
  shows "\<exists>evs. adds H (sm_queue s) evs (sm_queue (schedule_forwards H R scenario model r fwds s))
     \<and> length evs \<le> length fwds \<and> (\<forall>e \<in> set evs. \<exists>n m. se_event e = PacketDeliver n m \<and> (n, m) \<in> set fwds)"
proof (induction fwds arbitrary: s)
  case (Cons f fwds)
  obtain n m where f: "f = (n, m)" by (cases f)
  show ?case
  proof (cases "sim_node_at n (sm_nodes s)")
    case (Some info)
    obtain j rng where j: "rng_jitter R (sm_rng s) = (j, rng)" by fastforce
    define e where "e = \<lparr>se_time = fadd (sm_now s) (fadd (fadd (get_latency r (ni_region info) model)
        (fmul (fdiv (lit 500) (bandwidth_kbps scenario)) (lit 1000))) j), se_event = PacketDeliver n m\<rparr>"
    define s' where "s' = s\<lparr>sm_rng := rng, sm_queue := hp_push H e (sm_queue s)\<rparr>"
    have step: "schedule_forwards H R scenario model r (f # fwds) s = schedule_forwards H R scenario model r fwds s'"
      using Some j by (simp add: f Let_def s'_def e_def)
    obtain evs where evs: "adds H (sm_queue s') evs (sm_queue (schedule_forwards H R scenario model r fwds s'))"
      "length evs \<le> length fwds" "\<forall>e \<in> set evs. \<exists>n m. se_event e = PacketDeliver n m \<and> (n, m) \<in> set fwds"
      using Cons.IH by blast
    have push: "mset (hp_items H (hp_push H x q)) = add_mset x (mset (hp_items H q))" for x q
      using assms unfolding heap_laws_def by blast
    have "adds H (sm_queue s) (e # evs) (sm_queue (schedule_forwards H R scenario model r (f # fwds) s))"
      using evs(1) unfolding step adds_def by (simp add: s'_def push)
    moreover have "\<forall>e' \<in> set (e # evs). \<exists>n m. se_event e' = PacketDeliver n m \<and> (n, m) \<in> set (f # fwds)"
      using evs(3) unfolding f by (auto simp: e_def)
    ultimately show ?thesis using evs(2) by (intro exI [of _ "e # evs"]) simp
  qed (auto simp: f intro!: exI [of _ "[]"])
qed (auto intro!: exI [of _ "[]"])

lemma schedule_forwards_frame [simp]:
  "sm_flood_nodes (schedule_forwards H R scenario model r fwds s) = sm_flood_nodes s"
  "sm_nodes (schedule_forwards H R scenario model r fwds s) = sm_nodes s"
  "sm_measurements (schedule_forwards H R scenario model r fwds s) = sm_measurements s"
  "sm_total_deliveries (schedule_forwards H R scenario model r fwds s) = sm_total_deliveries s"
  by (induction H R scenario model r fwds s rule: schedule_forwards.induct)
    (simp_all add: Let_def case_prod_beta split: option.splits)

lemma narrow_update:
  "narrow h d nodes \<Longrightarrow> map_of nodes n = Some fl \<Longrightarrow> fl_schedule fl' = fl_schedule fl \<Longrightarrow> fl_routing_table fl' = fl_routing_table fl \<Longrightarrow>
   narrow h d (AList.update n fl' nodes)"
  by (simp add: narrow_def update_conv')

lemma narrow_map:
  assumes "narrow h d nodes" "\<And>fl. fl_schedule (f fl) = fl_schedule fl"
    "\<And>fl. length (downstream_peers (fl_routing_table (f fl))) \<le> length (downstream_peers (fl_routing_table fl))"
  shows "narrow h d (map (\<lambda>(n, fl). (n, f fl)) nodes)"
proof -
  have "map_of (map (\<lambda>(n, fl). (n, f fl)) nodes) = map_option f \<circ> map_of nodes" by (rule map_of_map)
  then show ?thesis using assms(1) le_trans [OF assms(3)] unfolding narrow_def by (simp add: assms(2) map_option_case split: option.splits)
qed

lemma narrow_drop_dead: "narrow h d nodes \<Longrightarrow> narrow h d (drop_dead dead nodes)"
  unfolding drop_dead_def
  by (induction dead arbitrary: nodes) (simp_all add: narrow_map)

lemma sim_receive_step:
  assumes "narrow 255 d (sm_flood_nodes s)" "map_of (sm_flood_nodes s) node = Some fl" "sim_receive E R node sender msg fl s = (s', result)"
  shows "narrow 255 d (sm_flood_nodes s')" "sm_queue s' = sm_queue s" "sm_nodes s' = sm_nodes s"
    and "result = Inr fwds \<Longrightarrow> length fwds \<le> d \<and> (\<forall>(n, m) \<in> set fwds. 255 - unat (f_hop_count m) < 255 - unat (f_hop_count msg))"
proof -
  obtain secs rng where r: "rng_secs R (sm_rng s) = (secs, rng)" by fastforce
  have s': "s' = s\<lparr>sm_rng := rng, sm_flood_nodes := AList.update node (fst (on_receive E secs msg sender (sm_now s) fl)) (sm_flood_nodes s)\<rparr>"
    and res: "result = snd (on_receive E secs msg sender (sm_now s) fl)"
    using assms(3) r by (simp_all add: sim_receive_def Let_def case_prod_beta)
  show "narrow 255 d (sm_flood_nodes s')" "sm_queue s' = sm_queue s" "sm_nodes s' = sm_nodes s"
    using narrow_update [OF assms(1,2)] by (simp_all add: s' on_receive_frame)
  assume "result = Inr fwds"
  then have f: "f_hop_count msg < max_hops (fl_schedule fl)" "fwds = forwards_of msg fl"
    using on_receive_forwards [of E secs msg sender "sm_now s" fl fwds] res by simp_all
  have "length fwds \<le> length (downstream_peers (fl_routing_table fl))" by (simp add: f(2) forwards_of_def)
  moreover have "length (downstream_peers (fl_routing_table fl)) \<le> d" "unat (max_hops (fl_schedule fl)) \<le> 255"
    using assms(1,2) unfolding narrow_def by blast+
  moreover have "unat (f_hop_count msg) < unat (max_hops (fl_schedule fl))" using f(1) by (simp add: word_less_nat_alt)
  moreover have "\<forall>(n, m) \<in> set fwds. unat (f_hop_count m) = Suc (unat (f_hop_count msg))"
    using hop_Suc [OF f(1)] by (auto simp: f(2) forwards_of_def)
  ultimately show "length fwds \<le> d \<and> (\<forall>(n, m) \<in> set fwds. 255 - unat (f_hop_count m) < 255 - unat (f_hop_count msg))" by fastforce
qed

definition progresses :: "'q heap_ops \<Rightarrow> nat \<Rightarrow> nat \<Rightarrow> ('c, 'v, 'q, 'r) sim \<Rightarrow> ('c, 'v, 'q, 'r) sim \<Rightarrow> bool" where
  "progresses H d r s s' \<longleftrightarrow> narrow 255 d (sm_flood_nodes s') \<and>
     (\<exists>evs. adds H (sm_queue s) evs (sm_queue s') \<and> length evs \<le> d \<and> (\<forall>e \<in> set evs. rank_of e < r))"

lemma progresses_idle:
  "narrow 255 d (sm_flood_nodes s') \<Longrightarrow> sm_queue s' = sm_queue s \<Longrightarrow> progresses H d r s s'"
  unfolding progresses_def by (intro conjI exI [of _ "[]"]) (simp_all add: adds_def)

lemma progresses_forwards:
  assumes "heap_laws H" "narrow 255 d (sm_flood_nodes s')" "sm_queue s' = sm_queue s" "length fwds \<le> d"
    and "\<forall>(n, m) \<in> set fwds. 255 - unat (f_hop_count m) < r"
  shows "progresses H d r s (schedule_forwards H R scenario model reg fwds s')"
proof -
  obtain evs where evs: "adds H (sm_queue s') evs (sm_queue (schedule_forwards H R scenario model reg fwds s'))" "length evs \<le> length fwds"
    "\<forall>e \<in> set evs. \<exists>n m. se_event e = PacketDeliver n m \<and> (n, m) \<in> set fwds"
    using schedule_forwards_adds [OF assms(1)] by blast
  have "rank_of e < r" if e: "e \<in> set evs" for e
  proof -
    obtain n m where "se_event e = PacketDeliver n m" "(n, m) \<in> set fwds" using evs(3) e by blast
    then show ?thesis using assms(5) by auto
  qed
  then show ?thesis unfolding progresses_def using assms(2-4) evs(1,2) by auto
qed

lemma progresses_order:
  assumes "heap_laws H" "narrow 255 d (sm_flood_nodes s)"
  shows "progresses H d 255 s (on_order_generated E H R scenario model ord source s)"
proof (cases "sim_node_at source (sm_nodes s)")
  case None
  then show ?thesis using assms by (intro progresses_idle) (simp_all add: on_order_generated_def)
next
  case (Some info)
  let ?s = "s\<lparr>sm_tracker := on_heartbeat source (sm_now s) (sm_tracker s)\<rparr>" and ?msg = "new_message source (ni_region info) (sm_now s) ord"
  show ?thesis
  proof (cases "map_of (sm_flood_nodes s) source")
    case None
    then show ?thesis using assms Some by (intro progresses_idle) (simp_all add: on_order_generated_def)
  next
    case (Some fl)
    obtain s' result where rc: "sim_receive E R source source ?msg fl ?s = (s', result)" by fastforce
    have nodes: "narrow 255 d (sm_flood_nodes ?s)" "map_of (sm_flood_nodes ?s) source = Some fl" using assms Some by simp_all
    note step = sim_receive_step [OF nodes rc]
    show ?thesis
    proof (cases result)
      case (Inl e)
      then show ?thesis using step(1,2) rc Some \<open>sim_node_at source (sm_nodes s) = _\<close>
        by (intro progresses_idle) (simp_all add: on_order_generated_def Let_def)
    next
      case (Inr fwds)
      then show ?thesis using step(1,2) step(4) [OF Inr] rc Some \<open>sim_node_at source (sm_nodes s) = _\<close> assms(1)
        by (auto simp: on_order_generated_def Let_def new_message_def intro!: progresses_forwards)
    qed
  qed
qed

lemma progresses_deliver:
  assumes "heap_laws H" "narrow 255 d (sm_flood_nodes s)"
  shows "progresses H d (255 - unat (f_hop_count msg)) s (on_packet_deliver E H R scenario model to_node msg s)"
proof (cases "\<exists>info fl. sim_node_at to_node (sm_nodes s) = Some info \<and> ni_online info \<and> map_of (sm_flood_nodes s) to_node = Some fl")
  case False
  then consider "sim_node_at to_node (sm_nodes s) = None"
    | info where "sim_node_at to_node (sm_nodes s) = Some info" "\<not> ni_online info"
    | info where "sim_node_at to_node (sm_nodes s) = Some info" "ni_online info" "map_of (sm_flood_nodes s) to_node = None"
    by fastforce
  then have "sm_queue (on_packet_deliver E H R scenario model to_node msg s) = sm_queue s
    \<and> sm_flood_nodes (on_packet_deliver E H R scenario model to_node msg s) = sm_flood_nodes s"
    by cases (simp_all add: on_packet_deliver_def split: list.split)
  then show ?thesis using assms by (intro progresses_idle) simp_all
next
  case True
  then obtain info fl where at: "sim_node_at to_node (sm_nodes s) = Some info" "ni_online info" "map_of (sm_flood_nodes s) to_node = Some fl" by blast
  define s1 where "s1 = (case f_path msg of source # _ \<Rightarrow> s\<lparr>sm_tracker := on_heartbeat source (sm_now s) (sm_tracker s)\<rparr> | [] \<Rightarrow> s)"
  define from_id where "from_id = (if f_path msg = [] then to_node else last (f_path msg))"
  have s1: "sm_flood_nodes s1 = sm_flood_nodes s" "sm_queue s1 = sm_queue s" by (simp_all add: s1_def split: list.splits)
  obtain s' result where rc: "sim_receive E R to_node from_id msg fl s1 = (s', result)" by fastforce
  have nodes: "narrow 255 d (sm_flood_nodes s1)" "map_of (sm_flood_nodes s1) to_node = Some fl" using assms at s1 by simp_all
  note step = sim_receive_step [OF nodes rc]
  have del: "on_packet_deliver E H R scenario model to_node msg s = (case (s', result) of
      (s, Inr forwards) \<Rightarrow>
        let s = s\<lparr>sm_total_deliveries := sm_total_deliveries s + 1\<rparr>;
            s = (case map_of (sm_injected s) (o_id (f_order msg)) of
                   Some (gen_time, _) \<Rightarrow>
                     s\<lparr>sm_measurements := sm_measurements s @
                         [\<lparr>ms_order_id = o_id (f_order msg), ms_latency_ms = fsub (sm_now s) gen_time,
                           ms_hops = f_hop_count msg, ms_source_region = f_source_region msg,
                           ms_dest_region = ni_region info\<rparr>]\<rparr>
                 | None \<Rightarrow> s)
        in schedule_forwards H R scenario model (ni_region info) forwards s
    | (s, Inl _) \<Rightarrow> s)"
    unfolding on_packet_deliver_def s1_def [symmetric] from_id_def [symmetric] at(1) Let_def using at nodes(2) rc by simp
  show ?thesis
  proof (cases result)
    case (Inl e)
    then show ?thesis unfolding del using step(1,2) s1(2) by (intro progresses_idle) simp_all
  next
    case (Inr fwds)
    then show ?thesis unfolding del Let_def using step(1,2) s1(2) step(4) [OF Inr] assms(1)
      by (auto intro!: progresses_forwards split: option.splits)
  qed
qed

lemma progresses_status: "narrow 255 d (sm_flood_nodes s) \<Longrightarrow> progresses H d r s (on_status_change n b s)"
  by (intro progresses_idle) (simp_all add: on_status_change_def split: option.splits)

lemma sim_turn_pop:
  assumes "hp_pop H (sm_queue s) = Some (ev, q)"
  shows "\<exists>t dead. sim_turn E H R scenario model s =
    (let s' = s\<lparr>sm_queue := q, sm_now := se_time ev, sm_tracker := t, sm_flood_nodes := drop_dead dead (sm_flood_nodes s)\<rparr>
     in case se_event ev of
          OrderGenerated ord source \<Rightarrow> on_order_generated E H R scenario model ord source s'
        | PacketDeliver to_node msg \<Rightarrow> on_packet_deliver E H R scenario model to_node msg s'
        | NodeStatusChange node online \<Rightarrow> on_status_change node online s')"
proof -
  obtain t dead where "check_health (se_time ev) (sm_tracker s) = (t, dead)" by fastforce
  then show ?thesis using assms by (intro exI [of _ t] exI [of _ dead]) (cases "se_event ev"; simp add: sim_turn_def Let_def)
qed

lemma sim_turn_progresses:
  assumes "heap_laws H" "narrow 255 d (sm_flood_nodes s)" "hp_pop H (sm_queue s) = Some (ev, q)"
  shows "\<exists>s'. sm_queue s' = q \<and> progresses H d (rank_of ev) s' (sim_turn E H R scenario model s)"
proof -
  obtain t dead where turn: "sim_turn E H R scenario model s =
    (let s' = s\<lparr>sm_queue := q, sm_now := se_time ev, sm_tracker := t, sm_flood_nodes := drop_dead dead (sm_flood_nodes s)\<rparr>
     in case se_event ev of
          OrderGenerated ord source \<Rightarrow> on_order_generated E H R scenario model ord source s'
        | PacketDeliver to_node msg \<Rightarrow> on_packet_deliver E H R scenario model to_node msg s'
        | NodeStatusChange node online \<Rightarrow> on_status_change node online s')"
    using sim_turn_pop [OF assms(3)] by blast
  let ?s = "s\<lparr>sm_queue := q, sm_now := se_time ev, sm_tracker := t, sm_flood_nodes := drop_dead dead (sm_flood_nodes s)\<rparr>"
  have nar: "narrow 255 d (sm_flood_nodes ?s)" using assms(2) by (simp add: narrow_drop_dead)
  have "progresses H d (rank_of ev) ?s (sim_turn E H R scenario model s)"
    unfolding turn Let_def using progresses_order [OF assms(1) nar] progresses_deliver [OF assms(1) nar] progresses_status [OF nar]
    by (cases "se_event ev") simp_all
  then show ?thesis by (intro exI [of _ ?s]) simp
qed

lemma sim_turn_load:
  assumes "heap_laws H" "narrow 255 d (sm_flood_nodes s)" "hp_pop H (sm_queue s) \<noteq> None"
  shows "narrow 255 d (sm_flood_nodes (sim_turn E H R scenario model s))
    \<and> load rank_of d (hp_items H (sm_queue (sim_turn E H R scenario model s))) < load rank_of d (hp_items H (sm_queue s))"
proof -
  obtain ev q where pop: "hp_pop H (sm_queue s) = Some (ev, q)" using assms(3) by auto
  obtain s' where s': "sm_queue s' = q" "progresses H d (rank_of ev) s' (sim_turn E H R scenario model s)"
    using sim_turn_progresses [OF assms(1,2) pop] by blast
  obtain evs where evs: "adds H q evs (sm_queue (sim_turn E H R scenario model s))" "length evs \<le> d" "\<forall>e \<in> set evs. rank_of e < rank_of ev"
    and nar: "narrow 255 d (sm_flood_nodes (sim_turn E H R scenario model s))"
    using s' unfolding progresses_def by blast
  have "mset (hp_items H (sm_queue s)) = mset (ev # hp_items H q)" using assms(1) pop unfolding heap_laws_def by simp
  then have "load rank_of d (hp_items H (sm_queue s)) = load rank_of d (ev # hp_items H q)" by (rule load_mset)
  moreover have "load rank_of d (hp_items H (sm_queue (sim_turn E H R scenario model s))) = load rank_of d (hp_items H q @ evs)"
    using evs(1) by (intro load_mset) (simp add: adds_def)
  moreover have "load rank_of d evs < work_weight d (rank_of ev)" using evs(2,3) by (rule load_bound)
  ultimately show ?thesis using nar by simp
qed

lemma narrow_exists: "\<exists>d. narrow 255 d nodes"
proof -
  let ?d = "sum_list (map (\<lambda>(n, fl). length (downstream_peers (fl_routing_table fl))) nodes)"
  have "length (downstream_peers (fl_routing_table fl)) \<le> ?d" if "map_of nodes n = Some fl" for n fl
  proof (rule member_le_sum_list)
    show "length (downstream_peers (fl_routing_table fl)) \<in> set (map (\<lambda>(n, fl). length (downstream_peers (fl_routing_table fl))) nodes)"
      using map_of_SomeD [OF that] by force
  qed simp
  moreover have "unat (w :: u8) \<le> 255" for w using unsigned_less [of w, where 'a = nat] by simp
  ultimately have "narrow 255 ?d nodes" unfolding narrow_def by blast
  then show ?thesis ..
qed

lemma simulate_stops:
  assumes "heap_laws H"
  shows "\<exists>s'. simulate E H R scenario model s = Some s' \<and> (sm_panicked s' \<or> hp_items H (sm_queue s') = [])"
proof -
  obtain d where d: "narrow 255 d (sm_flood_nodes s)" using narrow_exists by blast
  have "\<exists>s'. simulate E H R scenario model s = Some s'" unfolding simulate_def
    by (rule measure_while_option_Some [where P = "\<lambda>s. narrow 255 d (sm_flood_nodes s)" and f = "\<lambda>s. load rank_of d (hp_items H (sm_queue s))"])
      (use sim_turn_load [OF assms] d in blast)+
  moreover have "sm_panicked s' \<or> hp_items H (sm_queue s') = []" if "simulate E H R scenario model s = Some s'" for s'
    using while_option_stop [OF that [unfolded simulate_def]] assms unfolding heap_laws_def by blast
  ultimately show ?thesis by blast
qed

section \<open>A scenario of the simulator\<close>

text \<open>The events of a run that never delivers: orders without a signature and status changes of existing nodes.\<close>

fun mute :: "nat \<Rightarrow> sim_event \<Rightarrow> bool" where
  "mute n (OrderGenerated ord source) \<longleftrightarrow> o_signature ord = [] \<and> unat source < n"
| "mute n (PacketDeliver _ _) \<longleftrightarrow> False"
| "mute n (NodeStatusChange node _) \<longleftrightarrow> unat node < n"

definition silent :: "'q heap_ops \<Rightarrow> ('c, 'v, 'q, 'r) sim \<Rightarrow> bool" where
  "silent H s \<longleftrightarrow> (\<forall>e \<in> set (hp_items H (sm_queue s)). mute (length (sm_nodes s)) (se_event e))
     \<and> sm_measurements s = [] \<and> sm_total_deliveries s = 0 \<and> \<not> sm_panicked s"

lemma unsigned_order_ignored:
  assumes "o_signature ord = []" "unat source < length (sm_nodes s)"
  shows "\<exists>t r f. on_order_generated E H R scenario model ord source s = s\<lparr>sm_tracker := t, sm_rng := r, sm_flood_nodes := f\<rparr>"
proof -
  have "\<nexists>fwds. snd (on_receive E secs (new_message source reg now ord) sender now' fl) = Inr fwds" for reg now now' secs sender fl
    using assms(1) by (simp add: on_receive_forwards accepts_def relayable_def acceptable_def new_message_def)
  then have rej: "\<exists>e. snd (on_receive E secs (new_message source reg now ord) sender now' fl) = Inl e" for reg now now' secs sender fl
    by (metis sum.exhaust)
  show ?thesis
  proof (cases "map_of (sm_flood_nodes s) source")
    case None
    then have "on_order_generated E H R scenario model ord source s =
      s\<lparr>sm_tracker := on_heartbeat source (sm_now s) (sm_tracker s), sm_rng := sm_rng s, sm_flood_nodes := sm_flood_nodes s\<rparr>"
      using assms(2) by (simp add: on_order_generated_def sim_node_at_def)
    then show ?thesis by blast
  next
    case (Some fl)
    let ?msg = "new_message source (ni_region (sm_nodes s ! unat source)) (sm_now s) ord"
    obtain secs rng where r: "rng_secs R (sm_rng s) = (secs, rng)" by fastforce
    obtain e where "snd (on_receive E secs ?msg source (sm_now s) fl) = Inl e" using rej by blast
    then show ?thesis using assms(2) Some r
      by (auto simp: on_order_generated_def sim_node_at_def Let_def sim_receive_def case_prod_beta)
  qed
qed

lemma silent_order:
  assumes "silent H s" "o_signature ord = []" "unat source < length (sm_nodes s)"
  shows "silent H (on_order_generated E H R scenario model ord source s)"
proof -
  obtain t r f where "on_order_generated E H R scenario model ord source s = s\<lparr>sm_tracker := t, sm_rng := r, sm_flood_nodes := f\<rparr>"
    using unsigned_order_ignored [OF assms(2,3)] by blast
  then show ?thesis using assms(1) by (simp add: silent_def)
qed

lemma silent_status: "silent H s \<Longrightarrow> unat n < length (sm_nodes s) \<Longrightarrow> silent H (on_status_change n b s)"
  by (simp add: silent_def on_status_change_def sim_node_at_def)

lemma silent_turn:
  assumes "heap_laws H" "silent H s" "hp_pop H (sm_queue s) \<noteq> None"
  shows "silent H (sim_turn E H R scenario model s)"
proof -
  obtain ev q where pop: "hp_pop H (sm_queue s) = Some (ev, q)" using assms(3) by auto
  obtain t dead where turn: "sim_turn E H R scenario model s =
    (let s' = s\<lparr>sm_queue := q, sm_now := se_time ev, sm_tracker := t, sm_flood_nodes := drop_dead dead (sm_flood_nodes s)\<rparr>
     in case se_event ev of
          OrderGenerated ord source \<Rightarrow> on_order_generated E H R scenario model ord source s'
        | PacketDeliver to_node msg \<Rightarrow> on_packet_deliver E H R scenario model to_node msg s'
        | NodeStatusChange node online \<Rightarrow> on_status_change node online s')"
    using sim_turn_pop [OF pop] by blast
  let ?s = "s\<lparr>sm_queue := q, sm_now := se_time ev, sm_tracker := t, sm_flood_nodes := drop_dead dead (sm_flood_nodes s)\<rparr>"
  have "mset (hp_items H (sm_queue s)) = mset (ev # hp_items H q)" using assms(1) pop unfolding heap_laws_def by simp
  then have items: "set (hp_items H (sm_queue s)) = set (ev # hp_items H q)" by (rule mset_eq_setD)
  then have "silent H ?s" and ev: "mute (length (sm_nodes ?s)) (se_event ev)" using assms(2) by (simp_all add: silent_def)
  then show ?thesis unfolding turn Let_def using silent_order [OF \<open>silent H ?s\<close>] silent_status [OF \<open>silent H ?s\<close>]
    by (cases "se_event ev") simp_all
qed

lemma provision_length: "length (provision (scenario_regions scenario)) = (if scenario = ''p2p'' then 2 else 10)"
  by (simp add: provision_def scenario_regions_def)

lemma silent_push:
  assumes "heap_laws H" "silent H s" "mute (length (sm_nodes s)) (se_event e)"
  shows "silent H (s\<lparr>sm_queue := hp_push H e (sm_queue s)\<rparr>)"
proof -
  have "mset (hp_items H (hp_push H e (sm_queue s))) = mset (e # hp_items H (sm_queue s))" using assms(1) unfolding heap_laws_def by simp
  then have "set (hp_items H (hp_push H e (sm_queue s))) = set (e # hp_items H (sm_queue s))" by (rule mset_eq_setD)
  then show ?thesis using assms(2,3) by (simp add: silent_def)
qed

lemma silent_inject:
  assumes "heap_laws H" "rng_laws R" "silent H s" "length (sm_nodes s) = (if scenario = ''p2p'' then 2 else 10)"
  shows "silent H (inject_order H R scenario k s) \<and> sm_nodes (inject_order H R scenario k s) = sm_nodes s"
proof -
  have idx: "unat (fst (rng_index R (of_nat (length (sm_nodes s))) r)) < length (sm_nodes s)" for r
  proof -
    have "fst (rng_index R (of_nat (length (sm_nodes s))) r) < of_nat (length (sm_nodes s))"
      using assms(2,4) unfolding rng_laws_def by (simp split: if_splits)
    then show ?thesis using assms(4) by (simp add: word_less_nat_alt split: if_splits)
  qed
  obtain ord source t rng inj where inject: "inject_order H R scenario k s = s\<lparr>sm_rng := rng, sm_injected := inj,
      sm_queue := hp_push H \<lparr>se_time = t, se_event = OrderGenerated ord source\<rparr> (sm_queue s)\<rparr>"
    and ord: "o_signature ord = []" "unat source < length (sm_nodes s)"
    using idx assms(4) that by (auto simp: inject_order_def Let_def case_prod_beta split: if_splits)
  have "silent H (s\<lparr>sm_queue := hp_push H \<lparr>se_time = t, se_event = OrderGenerated ord source\<rparr> (sm_queue s)\<rparr>)"
    using ord by (intro silent_push assms) simp
  then show ?thesis unfolding inject by (simp add: silent_def)
qed

lemma silent_inject_all:
  assumes "heap_laws H" "rng_laws R" "silent H s" "length (sm_nodes s) = (if scenario = ''p2p'' then 2 else 10)"
  shows "silent H (fold (inject_order H R scenario) ks s) \<and> sm_nodes (fold (inject_order H R scenario) ks s) = sm_nodes s"
  using assms(3,4)
proof (induction ks arbitrary: s)
  case (Cons k ks)
  note step = silent_inject [OF assms(1,2) Cons.prems, of k]
  then have "length (sm_nodes (inject_order H R scenario k s)) = (if scenario = ''p2p'' then 2 else 10)" using Cons.prems(2) by simp
  then show ?case using Cons.IH [OF conjunct1 [OF step]] step by simp
qed simp

lemma silent_push_all:
  assumes "heap_laws H" "silent H s" "\<forall>e \<in> set es. mute (length (sm_nodes s)) (se_event e)"
  shows "silent H (s\<lparr>sm_queue := fold (hp_push H) es (sm_queue s)\<rparr>)"
  using assms(2,3)
proof (induction es arbitrary: s)
  case (Cons e es)
  then show ?case using Cons.IH [OF silent_push [OF assms(1) Cons.prems(1), of e]] by simp
qed simp

lemma silent_start:
  assumes "heap_laws H" "rng_laws R"
  shows "silent H (sim_start E H R scenario local rng)"
proof -
  define model where "model = (if local then local_latency_model else new_latency_model)"
  define s where "s = \<lparr>sm_nodes = provision (scenario_regions scenario),
      sm_flood_nodes = sim_flood_nodes E scenario model (provision (scenario_regions scenario)), sm_queue = hp_new H, sm_rng = rng,
      sm_injected = [], sm_now = lit 0, sm_measurements = [], sm_total_deliveries = 0,
      sm_tracker = new_tracker (lit 100) 3, sm_panicked = False\<rparr>"
  have "hp_items H (hp_new H) = []" using assms(1) unfolding heap_laws_def by blast
  then have "silent H s" and len: "length (sm_nodes s) = (if scenario = ''p2p'' then 2 else 10)" by (simp_all add: silent_def s_def provision_length)
  note injected = silent_inject_all [OF assms this, of "[0..<order_count scenario]"]
  have "\<forall>e \<in> set (status_changes scenario). mute (length (sm_nodes s)) (se_event e)" unfolding len by (auto simp: status_changes_def)
  then show ?thesis
    unfolding sim_start_def Let_def model_def [symmetric] s_def [symmetric]
    using injected by (intro silent_push_all assms) simp_all
qed

section \<open>Properties\<close>

text \<open>C32. The simulator's event loop ends: from every state of the simulation, whatever the network, the scenario
  and the random draws, \<^verbatim>\<open>while let Some(event) = queue.pop()\<close> empties the queue or stops at an index out of bounds,
  because a delivered packet only schedules packets of a higher hop count.\<close>

theorem simulation_terminates:
  assumes "heap_laws H"
  shows "\<exists>s'. simulate E H R scenario model s = Some s' \<and> (sm_panicked s' \<or> hp_items H (sm_queue s') = [])"
  using simulate_stops [OF assms] .

text \<open>As shipped the simulator measures nothing: the orders it injects carry no signature, every relay rejects
  them, and each scenario ends with no delivery and no measurement. No index is out of bounds on the way.\<close>

theorem simulation_delivers_nothing:
  assumes "heap_laws H" "rng_laws R"
  shows "\<exists>s'. simulate E H R scenario model (sim_start E H R scenario local rng) = Some s'
    \<and> \<not> sm_panicked s' \<and> hp_items H (sm_queue s') = [] \<and> sm_measurements s' = [] \<and> sm_total_deliveries s' = 0"
proof -
  obtain s' where s': "simulate E H R scenario model (sim_start E H R scenario local rng) = Some s'"
    "sm_panicked s' \<or> hp_items H (sm_queue s') = []" using simulate_stops [OF assms(1)] by blast
  have "silent H s'" using silent_turn [OF assms(1)]
    by (rule while_option_rule [where P = "silent H", OF _ s'(1) [unfolded simulate_def] silent_start [OF assms]]) blast+
  then show ?thesis using s' by (auto simp: silent_def)
qed

section \<open>A concrete queue and generator\<close>

fun list_pop :: "scheduled_event list \<Rightarrow> (scheduled_event \<times> scheduled_event list) option" where
  "list_pop [] = None"
| "list_pop (x # q) = (case list_pop q of
     None \<Rightarrow> Some (x, q)
   | Some (y, q') \<Rightarrow> if event_cmp x y = Less then Some (y, x # q') else Some (x, q))"

definition list_heap :: "scheduled_event list heap_ops" where
  "list_heap = \<lparr>hp_new = [], hp_push = (#), hp_pop = list_pop, hp_items = (\<lambda>q. q)\<rparr>"

definition still_rng :: "unit rng_ops" where
  "still_rng = \<lparr>rng_bytes = (\<lambda>r. (zero32, r)), rng_bool = (\<lambda>r. (True, r)), rng_range = (\<lambda>lo hi r. (lo, r)), rng_index = (\<lambda>n r. (0, r)),
     rng_time = (\<lambda>r. (Fin 0, r)), rng_jitter = (\<lambda>r. (Fin 0, r)), rng_secs = (\<lambda>r. (0, r))\<rparr>"

lemma event_cmp_less: "se_time x \<noteq> NaN \<Longrightarrow> se_time y \<noteq> NaN \<Longrightarrow> event_cmp x y = Less \<longleftrightarrow> flt (se_time y) (se_time x)"
  by (simp add: event_cmp_def partial_cmp_def)

lemma flt_between: "a \<noteq> NaN \<Longrightarrow> b \<noteq> NaN \<Longrightarrow> c \<noteq> NaN \<Longrightarrow> flt c a \<Longrightarrow> flt b a \<or> flt c b"
  by (cases a; cases b; cases c) auto

lemma flt_irrefl: "\<not> flt a a"
  by (cases a) simp_all

lemma list_pop_none: "list_pop q = None \<longleftrightarrow> q = []"
  by (cases q) (auto split: option.splits)

lemma list_pop_mset: "list_pop q = Some (x, q') \<Longrightarrow> mset q = add_mset x (mset q')"
  by (induction q arbitrary: x q') (auto split: option.splits if_splits)

lemma list_pop_greatest:
  "list_pop q = Some (x, q') \<Longrightarrow> \<forall>y \<in> set q. se_time y \<noteq> NaN \<Longrightarrow> \<forall>y \<in> set q. event_cmp x y \<noteq> Less"
proof (induction q arbitrary: x q')
  case (Cons z q)
  show ?case
  proof (cases "list_pop q")
    case None
    then show ?thesis using Cons.prems by (simp add: list_pop_none event_cmp_less flt_irrefl)
  next
    case (Some p)
    obtain y r where p: "p = (y, r)" by (cases p)
    have y: "y \<in> set q" using list_pop_mset [of q y r] Some p by (metis mset_eq_setD set_mset_add_mset_insert set_mset_mset insertI1)
    have least: "\<forall>w \<in> set q. \<not> flt (se_time w) (se_time y)"
      using Cons.IH [of y r] Some p Cons.prems(2) y by (simp add: event_cmp_less)
    show ?thesis
    proof (cases "flt (se_time y) (se_time z)")
      case True
      then have "x = y" using Cons.prems Some p y by (simp add: event_cmp_less)
      moreover have "\<not> flt (se_time z) (se_time y)" using True by (cases "se_time y"; cases "se_time z") auto
      ultimately show ?thesis using Cons.prems(2) y least by (simp add: event_cmp_less)
    next
      case False
      then have "x = z" using Cons.prems Some p y by (simp add: event_cmp_less)
      moreover have "\<not> flt (se_time w) (se_time z)" if "w \<in> set q" for w
        using flt_between [of "se_time z" "se_time y" "se_time w"] False least y that Cons.prems(2) by auto
      ultimately show ?thesis using Cons.prems(2) by (simp add: event_cmp_less flt_irrefl)
    qed
  qed
qed simp

lemma list_heap_laws: "heap_laws list_heap"
  using list_pop_greatest unfolding heap_laws_def list_heap_def by (simp add: list_pop_none list_pop_mset)

lemma still_rng_laws: "rng_laws still_rng"
  by (simp add: rng_laws_def still_rng_def)

theorem simulation_terminates_witness:
  "heap_laws list_heap \<and> (\<exists>s'. simulate demo_flood_env list_heap still_rng ''p2p'' new_latency_model
       (sim_start demo_flood_env list_heap still_rng ''p2p'' False ()) = Some s' \<and> (sm_panicked s' \<or> hp_items list_heap (sm_queue s') = []))"
  using simulation_terminates [OF list_heap_laws] list_heap_laws by blast

theorem simulation_delivers_nothing_witness:
  "heap_laws list_heap \<and> rng_laws still_rng \<and> (\<exists>s'. simulate demo_flood_env list_heap still_rng ''churn'' new_latency_model
       (sim_start demo_flood_env list_heap still_rng ''churn'' False ()) = Some s'
     \<and> \<not> sm_panicked s' \<and> hp_items list_heap (sm_queue s') = [] \<and> sm_measurements s' = [] \<and> sm_total_deliveries s' = 0)"
  using simulation_delivers_nothing [OF list_heap_laws still_rng_laws] list_heap_laws still_rng_laws by blast

end
