(* ===== verification/Spec2Isabelle.thy ===== *)
theory Spec2Isabelle
  imports Node MeshLoop Simulator
begin

text \<open>
  MEX is a replicated order matcher with batched settlement on a chain. A trader submits a signed
  order to a node's HTTP server. The server validates it, writes it to a write-ahead log and matches
  it, or first agrees on its place in a batch with other nodes, and floods it through a mesh of peers.
  Matches are confirmed by both traders, batched, proved and submitted to a chain, watched by a
  watchtower. Nodes rate each other by reputation.

  \<^bold>\<open>Theories and sources\<close> (paths below \<^verbatim>\<open>src/crates\<close>)

  \<^item> \<open>Prelude\<close>: machine integers, byte strings, and the standard library's \<^verbatim>\<open>HashMap\<close> (association list
    with distinct keys, locale \<open>dict\<close>) and \<^verbatim>\<open>BTreeMap\<close> (the same, sorted, locale \<open>ordered_dict\<close>).
  \<^item> \<open>F64\<close>: binary64 arithmetic with round to nearest, infinities and NaN over rational values; one zero.
  \<^item> \<open>Common\<close>: \<^verbatim>\<open>common/src/types.rs\<close>, \<^verbatim>\<open>fees.rs\<close>. Orders, settlement tiers, the fee calculator.
  \<^item> \<open>Engine\<close>: \<^verbatim>\<open>engine/src/types.rs\<close>, \<^verbatim>\<open>book.rs\<close>. The record \<open>order_book\<close> is the struct; \<open>add_order_at\<close> with its
    loops \<open>fill_asks\<close>, \<open>fill_bids\<close>, \<open>fill_level\<close>, \<open>fill_maker\<close> and \<open>cancel_order\<close> are the methods of the same name.
  \<^item> \<open>Reputation\<close>: the \<^verbatim>\<open>reputation\<close> crate: scores, stakes, bonds, penalties and every event hook.
  \<^item> \<open>Prover\<close>: \<^verbatim>\<open>prover/src/lib.rs\<close>, \<^verbatim>\<open>bn254.rs\<close>. The constraint system of a batch, its witness, proving,
    verifying and the watchtower approval.
  \<^item> \<open>Batcher\<close>: \<^verbatim>\<open>batcher/src/ledger.rs\<close>, \<^verbatim>\<open>lib.rs\<close>. The balance ledger and the batcher with its three queues.
  \<^item> \<open>Orderlog\<close>: \<^verbatim>\<open>orderlog/src/lib.rs\<close>. Receipts and the hash-chained log.
  \<^item> \<open>Validation\<close>: the \<^verbatim>\<open>validation\<close> crate.
  \<^item> \<open>Sequencing\<close>: \<^verbatim>\<open>protocol/src/latency.rs\<close>, \<^verbatim>\<open>ordering.rs\<close>, \<^verbatim>\<open>sequencer.rs\<close>, \<^verbatim>\<open>batch_quorum.rs\<close>.
  \<^item> \<open>Persistence\<close>: \<^verbatim>\<open>api/src/persistence.rs\<close> over an abstract ordered store.
  \<^item> \<open>Server\<close>: the handlers of \<^verbatim>\<open>api/src/server.rs\<close>, \<^verbatim>\<open>gossip_replication.rs\<close> and \<^verbatim>\<open>order_sequencing.rs\<close>.
  \<^item> \<open>Recovery\<close>: boot and replay of \<^verbatim>\<open>server.rs\<close>, and \<^verbatim>\<open>snapshot_loop.rs\<close> in its three critical sections.
  \<^item> \<open>Settlement\<close>: \<^verbatim>\<open>api/src/settlement.rs\<close>, the \<^verbatim>\<open>watchtower\<close> crate and the \<^verbatim>\<open>ChainAdapter\<close> calls they make.
  \<^item> \<open>Node\<close>: the running server, an inductive relation that interleaves all of these handlers and loops, with a crash
    after any step.
  \<^item> \<open>Worklist\<close>: loops over a queue whose items produce items of smaller rank.
  \<^item> \<open>Flood\<close>: \<^verbatim>\<open>protocol/src/flood.rs\<close>, \<^verbatim>\<open>types.rs\<close>, \<^verbatim>\<open>heartbeat.rs\<close>, and networks of relays with lossy,
    duplicating and reordering links (\<open>net_step\<close>).
  \<^item> \<open>Transport\<close>: the \<^verbatim>\<open>security\<close> crate and \<^verbatim>\<open>protocol/src/transport.rs\<close>.
  \<^item> \<open>Mesh\<close>, \<open>MeshLoop\<close>: \<^verbatim>\<open>protocol/src/node.rs\<close>. The record \<open>mesh_node\<close> is the struct, \<open>route\<close> the receiving task, and
    \<open>handle\<close> one turn of \<^verbatim>\<open>select!\<close>, with one event per branch.
  \<^item> \<open>Simulator\<close>: \<^verbatim>\<open>simulator/src/types.rs\<close>, \<^verbatim>\<open>latency.rs\<close> and the event loop of \<^verbatim>\<open>main.rs\<close>.

  \<^bold>\<open>Conventions\<close>

  A struct is a record, an enum a datatype, \<^verbatim>\<open>u64\<close> and \<^verbatim>\<open>usize\<close> a 64-bit word, \<^verbatim>\<open>Result\<close> and \<^verbatim>\<open>Option\<close> a sum or an option, a panic an outer
  \<^const>\<open>None\<close> (a flag in the simulator). Methods return the updated state. Clock readings, random draws and
  the results of other tasks are arguments of the step that reads them. Logging and metrics are left out.
  Cryptography, \<^verbatim>\<open>sled\<close>, \<^verbatim>\<open>bincode\<close>, \<^verbatim>\<open>serde_json\<close>, the LRU cache, the binary heap and the chain are records of
  operations; where a theorem needs more than their types, the laws are a named predicate
  (\<open>store_laws\<close>, \<open>lru_laws\<close>, \<open>aead_laws\<close>, \<open>codec_laws\<close>, \<open>heap_laws\<close> and others), and a witness instantiates it.

  \<^bold>\<open>What is shown\<close>

  \<^item> Matching: \<open>add_order_at\<close> refines an allocation in price-time priority, conserves volume, keeps the book
    well-formed and uncrossed, and emits only sane matches (locale \<open>matcher\<close> for runs of submissions).
  \<^item> Money: a batch moves exactly the reported trades and conserves the traders' funds (locale \<open>accounts\<close>); its proofs verify;
    the circuit is sound for the balance changes; only checked chunks reach the chain and failed ones return to the queue.
  \<^item> Durability: an appended entry is replayed; after a crash anywhere the node recovers its book, logs and pending
    commits; orders apply at most once; refused requests change nothing but what is stated (locale \<open>settlement_frame\<close> carries
    invariants through the settlement loop).
  \<^item> Integrity: the log is tamper-evident up to hash collisions, splits transparently, and a mirror accepts exactly what the original appended (locale
    \<open>journal\<close>); accepted nonces increase; proposals, approvals and misconduct need distinct voices.
  \<^item> Mesh: packets carry loop-free paths, floods end (locale \<open>worklist\<close>) and reach every connected node, a mesh node implements
    the relay behind encryption and transport, and its loop does not panic.
  \<^item> Where code departs from its comments, a lemma states what it does.

  \<^bold>\<open>Bounds\<close>

  The model has no fuel. Loops are structural recursion, folds or, for the simulator, \<^const>\<open>while_option\<close>, whose
  termination is proved. Time stamps of a run of the mesh are bounded by \<open>2 ^ 40\<close> seconds, above which binary64
  milliseconds could overflow the statistics; sums that must not wrap are bounded by \<open>2 ^ 64\<close> in the statement.
  \<^verbatim>\<open>sort_by\<close> is the standard library's insertion sort, which it uses up to 20 elements; for consistent orders any stable sort
  agrees with it.

  \<^bold>\<open>Not modelled\<close>

  HTTP routing, rate limits, web sockets without a filter and process startup (\<^verbatim>\<open>api/src/main.rs\<close>, \<^verbatim>\<open>mesh_chain_status.rs\<close>): I/O around the
  modelled handlers. The chain clients (\<^verbatim>\<open>chain-ethereum\<close>, \<^verbatim>\<open>chain-frg\<close>, \<^verbatim>\<open>chain-solana\<close>, \<^verbatim>\<open>chain-cosmwasm\<close>): remote procedure calls,
  an argument of the settlement loop. The trusted setup and exports of the prover: file formats of a library.
  \<^verbatim>\<open>verify_peer_location\<close> of the mesh node: it waits on the socket outside the loop. \<^verbatim>\<open>rdma\<close> and \<^verbatim>\<open>tss\<close>: calls into device and signature
  libraries. \<^verbatim>\<open>heartbeat\<close>, \<^verbatim>\<open>topology\<close> and \<^verbatim>\<open>storage\<close>: only used by the demo of \<^verbatim>\<open>integration\<close>, and superseded by modelled parts
  of \<^verbatim>\<open>protocol\<close> and \<^verbatim>\<open>api\<close>. Clients, demos, benchmarks and tests. The contracts under \<^verbatim>\<open>src/contracts\<close>: programs of other virtual
  machines.
\<close>

end
